(* ===== verification/Exa_Prelude.thy ===== *)
theory Exa_Prelude
  imports Main "HOL-Library.Monad_Syntax" "HOL-Library.Multiset"
begin

text \<open>
  Shared vocabulary of the development.

  \<^item> \<open>EXA_ASSERT\<close> aborts the process that runs it. An operation that can reach a failing
    assertion has an \<open>option\<close> result and \<open>None\<close> is the abort; the operations are composed
    with the option monad, so an abort in a callee aborts the caller.
  \<^item> Negative return codes (\<open>-EINVAL\<close>, \<open>-VRT_ERR_SB_MAGIC\<close>, ...) are values of
    \<open>errcode\<close>; a function that returns either a code or a value has type \<open>errcode + 'a\<close>.
  \<^item> The C library's \<open>qsort\<close> is \<open>qsort\<close>, an insertion sort over the same comparison
    function. The program only calls it with comparisons that never tie on distinct
    elements, so the sorted order is unique and the algorithm does not matter.
  \<^item> \<open>for_each\<close> is a loop over an index range whose body may abort, \<open>for_all\<close> one that tests
    every index and leaves at the first that fails.
  \<^item> \<open>reach\<close> is the set of states a step relation reaches from its initial states; the
    locale \<open>invariant_system\<close> is the contract of a component that keeps an invariant.
\<close>

named_theorems nodeset_simps \<open>effect of the node set operations on the set of members\<close>

section \<open>Assertions and return codes\<close>

datatype errcode =
    EINVAL | ENOSPC | EEXIST | ENOENT | ENOMEM | EIO | EPERM | EMSGSIZE | EOPNOTSUPP
  | EXA_ERR_INVALID_VALUE | EXA_ERR_UUID
  | VRT_ERR_SB_MAGIC | VRT_ERR_SB_FORMAT | VRT_ERR_SB_CORRUPTION
  | VRT_ERR_SB_CHECKSUM | VRT_ERR_SB_NOT_FOUND
  | VRT_ERR_RDEV_TOO_SMALL | VRT_ERR_TOO_MANY_CHUNKS | VRT_ERR_NOT_ENOUGH_FREE_SC

definition exa_assert :: "bool \<Rightarrow> unit option" where
  "exa_assert b = (if b then Some () else None)"

lemma exa_assert_True [simp]: "exa_assert True = Some ()"
  by (simp add: exa_assert_def)

lemma exa_assert_False [simp]: "exa_assert False = None"
  by (simp add: exa_assert_def)

lemma exa_assert_eq_Some [simp]: "exa_assert b = Some u \<longleftrightarrow> b"
  by (simp add: exa_assert_def)

section \<open>Loops whose body may abort\<close>

primrec for_each :: "('i \<Rightarrow> 's \<Rightarrow> 's option) \<Rightarrow> 'i list \<Rightarrow> 's \<Rightarrow> 's option" where
  "for_each body [] s = Some s"
| "for_each body (i # is) s = do { s' \<leftarrow> body i s; for_each body is s' }"

lemma for_each_append:
  "for_each body (is @ js) s = do { s' \<leftarrow> for_each body is s; for_each body js s' }"
proof (induction "is" arbitrary: s)
  case (Cons i "is")
  then show ?case by (cases "body i s") auto
qed simp

text \<open>The rule for a loop: an invariant over the iterations already done.\<close>

lemma for_each_invariant:
  assumes "P [] s"
    and "\<And>ds i is' t. is = ds @ i # is' \<Longrightarrow> P ds t \<Longrightarrow> \<exists>t'. body i t = Some t' \<and> P (ds @ [i]) t'"
  shows "\<exists>t. for_each body is s = Some t \<and> P is t"
  using assms
proof (induction "is" rule: rev_induct)
  case Nil
  then show ?case by simp
next
  case (snoc i "is")
  have "\<exists>t. for_each body is s = Some t \<and> P is t"
    using snoc.prems by (intro snoc.IH) auto
  then obtain t where t: "for_each body is s = Some t" "P is t" by blast
  from snoc.prems(2) [of "is" i "[]" t] t(2)
  obtain t' where "body i t = Some t'" "P (is @ [i]) t'" by auto
  with t(1) show ?case by (auto simp: for_each_append)
qed

text \<open>A loop that leaves with \<open>false\<close> at the first index whose test fails.\<close>

primrec for_all :: "('i \<Rightarrow> bool option) \<Rightarrow> 'i list \<Rightarrow> bool option" where
  "for_all test [] = Some True"
| "for_all test (i # is) = do { b \<leftarrow> test i; if b then for_all test is else Some False }"

lemma for_all_eq:
  assumes "\<And>i. i \<in> set is \<Longrightarrow> test i = Some (P i)"
  shows "for_all test is = Some (\<forall>i \<in> set is. P i)"
  using assms by (induction "is") auto

section \<open>The C library's qsort\<close>

fun insort_cmp :: "('a \<Rightarrow> 'a \<Rightarrow> int) \<Rightarrow> 'a \<Rightarrow> 'a list \<Rightarrow> 'a list" where
  "insort_cmp cmp x [] = [x]"
| "insort_cmp cmp x (y # ys) =
     (if cmp x y \<le> 0 then x # y # ys else y # insort_cmp cmp x ys)"

definition qsort :: "('a \<Rightarrow> 'a \<Rightarrow> int) \<Rightarrow> 'a list \<Rightarrow> 'a list" where
  "qsort cmp xs = foldr (insort_cmp cmp) xs []"

lemma mset_insort_cmp: "mset (insort_cmp cmp x xs) = add_mset x (mset xs)"
  by (induction xs) auto

lemma mset_qsort [simp]: "mset (qsort cmp xs) = mset xs"
  unfolding qsort_def by (induction xs) (auto simp: mset_insort_cmp)

lemma set_qsort [simp]: "set (qsort cmp xs) = set xs"
  by (rule mset_eq_setD) simp

lemma length_qsort [simp]: "length (qsort cmp xs) = length xs"
  by (rule mset_eq_length) simp

lemma distinct_qsort [simp]: "distinct (qsort cmp xs) = distinct xs"
  by (rule mset_eq_imp_distinct_iff) simp

lemma set_insort_cmp [simp]: "set (insort_cmp cmp x xs) = insert x (set xs)"
  by (induction xs) auto

lemma sorted_insort_cmp:
  assumes "sorted_wrt (\<lambda>a b. cmp a b \<le> 0) xs"
    and "\<And>a. a \<in> set xs \<Longrightarrow> cmp x a \<le> 0 \<or> cmp a x \<le> 0"
    and "\<And>a b. a \<in> set xs \<Longrightarrow> b \<in> set xs \<Longrightarrow> cmp x a \<le> 0 \<Longrightarrow> cmp a b \<le> 0 \<Longrightarrow> cmp x b \<le> 0"
  shows "sorted_wrt (\<lambda>a b. cmp a b \<le> 0) (insort_cmp cmp x xs)"
  using assms
proof (induction xs)
  case (Cons y ys)
  show ?case
  proof (cases "cmp x y \<le> 0")
    case True
    have "cmp x b \<le> 0" if "b \<in> set ys" for b
      using Cons.prems(1) Cons.prems(3) [of y b] True that by simp
    with True Cons.prems(1) show ?thesis by simp
  next
    case False
    have "sorted_wrt (\<lambda>a b. cmp a b \<le> 0) (insort_cmp cmp x ys)"
    proof (rule Cons.IH)
      show "sorted_wrt (\<lambda>a b. cmp a b \<le> 0) ys" using Cons.prems(1) by simp
      show "\<And>a. a \<in> set ys \<Longrightarrow> cmp x a \<le> 0 \<or> cmp a x \<le> 0" by (rule Cons.prems(2)) simp
      show "a \<in> set ys \<Longrightarrow> b \<in> set ys \<Longrightarrow> cmp x a \<le> 0 \<Longrightarrow> cmp a b \<le> 0 \<Longrightarrow> cmp x b \<le> 0" for a b
        using Cons.prems(3) [of a b] by simp
    qed
    with False Cons.prems(1) Cons.prems(2) [of y] show ?thesis by auto
  qed
qed simp

lemma sorted_qsort:
  assumes total: "\<And>a b. a \<in> set xs \<Longrightarrow> b \<in> set xs \<Longrightarrow> cmp a b \<le> 0 \<or> cmp b a \<le> 0"
    and trans: "\<And>a b c. a \<in> set xs \<Longrightarrow> b \<in> set xs \<Longrightarrow> c \<in> set xs \<Longrightarrow>
      cmp a b \<le> 0 \<Longrightarrow> cmp b c \<le> 0 \<Longrightarrow> cmp a c \<le> 0"
  shows "sorted_wrt (\<lambda>a b. cmp a b \<le> 0) (qsort cmp xs)"
  using assms
proof (induction xs)
  case Nil
  show ?case by (simp add: qsort_def)
next
  case (Cons x xs)
  have IH: "sorted_wrt (\<lambda>a b. cmp a b \<le> 0) (qsort cmp xs)"
  proof (rule Cons.IH)
    show "\<And>a b. a \<in> set xs \<Longrightarrow> b \<in> set xs \<Longrightarrow> cmp a b \<le> 0 \<or> cmp b a \<le> 0"
      by (rule Cons.prems(1)) simp_all
    show "a \<in> set xs \<Longrightarrow> b \<in> set xs \<Longrightarrow> c \<in> set xs \<Longrightarrow>
        cmp a b \<le> 0 \<Longrightarrow> cmp b c \<le> 0 \<Longrightarrow> cmp a c \<le> 0" for a b c
      using Cons.prems(2) [of a b c] by simp
  qed
  have "sorted_wrt (\<lambda>a b. cmp a b \<le> 0) (insort_cmp cmp x (qsort cmp xs))"
  proof (rule sorted_insort_cmp [OF IH])
    show "\<And>a. a \<in> set (qsort cmp xs) \<Longrightarrow> cmp x a \<le> 0 \<or> cmp a x \<le> 0"
      by (rule Cons.prems(1)) simp_all
    show "a \<in> set (qsort cmp xs) \<Longrightarrow> b \<in> set (qsort cmp xs) \<Longrightarrow>
        cmp x a \<le> 0 \<Longrightarrow> cmp a b \<le> 0 \<Longrightarrow> cmp x b \<le> 0" for a b
      using Cons.prems(2) [of x a b] by simp
  qed
  then show ?case by (simp add: qsort_def)
qed

section \<open>Reachable states and invariants\<close>

inductive reach :: "('s \<Rightarrow> bool) \<Rightarrow> ('s \<Rightarrow> 's \<Rightarrow> bool) \<Rightarrow> 's \<Rightarrow> bool"
  for init :: "'s \<Rightarrow> bool" and step :: "'s \<Rightarrow> 's \<Rightarrow> bool" where
  reach_init: "init s \<Longrightarrow> reach init step s"
| reach_step: "reach init step s \<Longrightarrow> step s t \<Longrightarrow> reach init step t"

locale invariant_system =
  fixes init :: "'s \<Rightarrow> bool"
    and step :: "'s \<Rightarrow> 's \<Rightarrow> bool"
    and I :: "'s \<Rightarrow> bool"
  assumes init_inv: "init s \<Longrightarrow> I s"
    and step_inv: "I s \<Longrightarrow> step s t \<Longrightarrow> I t"
begin

lemma reach_inv: "reach init step s \<Longrightarrow> I s"
  by (induction rule: reach.induct) (auto intro: init_inv step_inv)

text \<open>A relation between the two ends of a step that is reflexive and transitive holds
  between any state and every later one.\<close>

lemma steps_rel:
  assumes "step\<^sup>*\<^sup>* s t" and "I s"
    and "\<And>x. I x \<Longrightarrow> R x x"
    and "\<And>x y. I x \<Longrightarrow> step x y \<Longrightarrow> R x y"
    and "\<And>x y z. R x y \<Longrightarrow> R y z \<Longrightarrow> R x z"
  shows "R s t \<and> I t"
  using assms(1,2)
proof (induction rule: rtranclp_induct)
  case base
  then show ?case using assms(3) by blast
next
  case (step y z)
  then have "R s y" "I y" by auto
  with step.hyps(2) assms(4,5) show ?case by (blast intro: step_inv)
qed

end

end
