(* ===== verification/Exa_Checksum.thy ===== *)
theory Exa_Checksum
  imports Exa_Prelude "HOL-Library.Word"
begin

text \<open>
  The checksum of superblocks and streams (\<open>common/lib/checksum.c\<close>): a 16-bit one's complement
  sum over little-endian 16-bit words, computed over a buffer that may arrive in pieces of any
  size. \<open>represents\<close> relates a checksumming context to the bytes it was fed; the value only
  depends on those bytes, and a buffer that holds its own checksum verifies to 0.
\<close>

unbundle bit_operations_syntax

type_synonym byte = "8 word"

record checksum_context =
  total_size :: nat
  latched_byte :: byte
  latched :: bool
  ctx_sum :: "32 word"

definition checksum_reset :: checksum_context where
  "checksum_reset = \<lparr> total_size = 0, latched_byte = 0, latched = False, ctx_sum = 0 \<rparr>"

definition chksum_pair :: "32 word \<Rightarrow> byte \<Rightarrow> byte \<Rightarrow> 32 word" where
  "chksum_pair s a b =
     (let word16 = (ucast a + push_bit 8 (ucast b) :: 16 word) in s + ucast word16)"

fun chksum_array_loop :: "32 word \<Rightarrow> byte list \<Rightarrow> 32 word" where
  "chksum_array_loop new_sum (a # b # buf) = chksum_array_loop (chksum_pair new_sum a b) buf"
| "chksum_array_loop new_sum _ = new_sum"

definition chksum_array :: "32 word \<Rightarrow> byte list \<Rightarrow> nat \<Rightarrow> 32 word" where
  "chksum_array s buf n =
     (let n = (if n mod 2 \<noteq> 0 then n - 1 else n) in chksum_array_loop s (take n buf))"

definition checksum_feed :: "checksum_context \<Rightarrow> byte list \<Rightarrow> checksum_context" where
  "checksum_feed ctx buf =
     (let size = length buf in
      if size = 0 then ctx
      else
        let ctx =
          (if latched ctx
           then let ctx = ctx\<lparr>ctx_sum := chksum_pair (ctx_sum ctx) (latched_byte ctx) (buf ! 0)\<rparr> in
             if size mod 2 = 0
             then ctx\<lparr>ctx_sum := chksum_array (ctx_sum ctx) (drop 1 buf) (size - 2),
                      latched_byte := buf ! (size - 1), latched := True\<rparr>
             else ctx\<lparr>ctx_sum := chksum_array (ctx_sum ctx) (drop 1 buf) (size - 1), latched := False\<rparr>
           else
             if size mod 2 = 0
             then ctx\<lparr>ctx_sum := chksum_array (ctx_sum ctx) buf size, latched := False\<rparr>
             else ctx\<lparr>ctx_sum := chksum_array (ctx_sum ctx) buf (size - 1),
                      latched_byte := buf ! (size - 1), latched := True\<rparr>)
        in ctx\<lparr>total_size := total_size ctx + size\<rparr>)"

text \<open>The \<open>while\<close> loop of \<open>checksum_get_value\<close>: carries are added back until none is left.\<close>

lemma carry_decreases:
  fixes s :: "32 word"
  assumes "drop_bit 16 s \<noteq> 0"
  shows "unat ((s AND 0xFFFF) + drop_bit 16 s) = unat s mod 65536 + unat s div 65536"
    and "unat s mod 65536 + unat s div 65536 < unat s"
proof -
  have hi: "unat (drop_bit 16 s) = unat s div 65536" by (simp only: unat_drop_bit_eq) (simp add: drop_bit_eq_div)
  have "s AND 0xFFFF = take_bit 16 s" by (simp add: take_bit_eq_mask mask_numeral)
  then have lo: "unat (s AND 0xFFFF) = unat s mod 65536" by (simp only: unsigned_take_bit_eq) (simp add: take_bit_eq_mod)
  have lt: "unat s < 4294967296" using unsigned_less [of s] by simp
  then have "unat s mod 65536 + unat s div 65536 < 4294967296" by (auto simp: mod_div_decomp)
  then show "unat ((s AND 0xFFFF) + drop_bit 16 s) = unat s mod 65536 + unat s div 65536"
    unfolding hi [symmetric] lo [symmetric] by (subst unat_add_lem [THEN iffD1]) simp_all
  have "unat s div 65536 \<noteq> 0" using assms hi by (metis unat_eq_zero)
  then show "unat s mod 65536 + unat s div 65536 < unat s"
    using div_mult_mod_eq [of "unat s" 65536] by linarith
qed

function fold_carries :: "32 word \<Rightarrow> 32 word" where
  "fold_carries s = (if drop_bit 16 s \<noteq> 0 then fold_carries ((s AND 0xFFFF) + drop_bit 16 s) else s)"
  by pat_completeness auto
termination
  by (relation "measure unat") (simp_all add: carry_decreases)

declare fold_carries.simps [simp del]

definition checksum_get_value :: "checksum_context \<Rightarrow> 16 word option" where
  "checksum_get_value ctx =
     (if total_size ctx = 0 then Some 0
      else do {
        s \<leftarrow> (if total_size ctx mod 2 \<noteq> 0
              then do { exa_assert (latched ctx); Some (chksum_pair (ctx_sum ctx) (latched_byte ctx) 0) }
              else Some (ctx_sum ctx));
        Some (ucast (NOT (fold_carries s))) })"

definition checksum_get_size :: "checksum_context \<Rightarrow> nat" where
  "checksum_get_size ctx = total_size ctx"

definition exa_checksum :: "byte list \<Rightarrow> 16 word option" where
  "exa_checksum buf = checksum_get_value (checksum_feed checksum_reset buf)"

section \<open>Sums of 16-bit words\<close>

fun even_sum :: "byte list \<Rightarrow> nat" where
  "even_sum (a # b # bs) = unat a + 256 * unat b + even_sum bs"
| "even_sum _ = 0"

lemma chksum_pair_eq: "chksum_pair s a b = s + of_nat (unat a + 256 * unat b)"
proof -
  have "unat a < 2 ^ 8" "unat b < 2 ^ 8" using unsigned_less [of a] unsigned_less [of b] by simp_all
  then have ab: "unat a < 256" "unat b < 256" by simp_all
  let ?w = "ucast a + push_bit 8 (ucast b) :: 16 word"
  have "?w = of_nat (unat a + 256 * unat b)" by (simp add: push_bit_eq_mult of_nat_unat mult.commute)
  then have "unat ?w = (unat a + 256 * unat b) mod 2 ^ 16" by (simp only: unat_of_nat) simp
  then have "unat ?w = unat a + 256 * unat b" using ab by (simp only: mod_less) simp
  then show ?thesis unfolding chksum_pair_def Let_def by (metis of_nat_unat)
qed

lemma chksum_array_loop_eq: "chksum_array_loop s bs = s + of_nat (even_sum bs)"
  by (induction s bs rule: chksum_array_loop.induct) (simp_all add: chksum_pair_eq algebra_simps)

lemma even_sum_append: "even (length as) \<Longrightarrow> even_sum (as @ bs) = even_sum as + even_sum bs"
  by (induction as rule: even_sum.induct) auto

lemma even_sum_snoc: "even (length as) \<Longrightarrow> even_sum (as @ [x]) = even_sum as"
  by (simp add: even_sum_append)

lemma chksum_array_eq:
  "even n \<Longrightarrow> chksum_array s buf n = s + of_nat (even_sum (take n buf))"
  by (simp add: chksum_array_def chksum_array_loop_eq even_iff_mod_2_eq_zero)

lemma even_sum_take: "odd (length bs) \<Longrightarrow> even_sum (take (length bs - Suc 0) bs) = even_sum bs"
  by (induction bs rule: even_sum.induct) (auto simp: take_Cons')

lemma even_sum_latched:
  "odd (length as) \<Longrightarrow> even_sum (as @ y # ys) = even_sum as + unat (last as) + 256 * unat y + even_sum ys"
  by (induction as rule: even_sum.induct) auto

section \<open>Contexts and the bytes fed to them\<close>

definition represents :: "checksum_context \<Rightarrow> byte list \<Rightarrow> bool" where
  "represents ctx bs \<longleftrightarrow>
     total_size ctx = length bs \<and> latched ctx = odd (length bs) \<and>
     (latched ctx \<longrightarrow> latched_byte ctx = last bs) \<and> ctx_sum ctx = of_nat (even_sum bs)"

lemma represents_reset: "represents checksum_reset []"
  by (simp add: represents_def checksum_reset_def)

lemma represents_feed:
  assumes r: "represents ctx as"
  shows "represents (checksum_feed ctx bs) (as @ bs)"
proof (cases bs)
  case Nil
  with r show ?thesis by (simp add: checksum_feed_def)
next
  case (Cons y ys)
  have last: "bs ! (length bs - 1) = last (as @ bs)" using Cons by (simp add: last_conv_nth nth_append)
  show ?thesis
  proof (cases "odd (length as)")
    case False
    have e: "even_sum (as @ bs) = even_sum as + even_sum bs" using False by (simp add: even_sum_append)
    show ?thesis
    proof (cases "even (length bs)")
      case True
      then show ?thesis using r False Cons e
        by (simp add: represents_def checksum_feed_def chksum_array_eq even_iff_mod_2_eq_zero [symmetric])
    next
      case odd: False
      then have "chksum_array (ctx_sum ctx) bs (length bs - 1) = ctx_sum ctx + of_nat (even_sum bs)"
        by (simp add: chksum_array_eq even_sum_take)
      then show ?thesis using r False odd Cons e last
        by (simp add: represents_def checksum_feed_def Let_def even_iff_mod_2_eq_zero [symmetric])
    qed
  next
    case True
    have e: "even_sum (as @ bs) = even_sum as + unat (last as) + 256 * unat y + even_sum ys"
      using True Cons by (simp add: even_sum_latched)
    let ?s = "chksum_pair (ctx_sum ctx) (latched_byte ctx) y"
    have s: "?s = of_nat (even_sum as + unat (last as) + 256 * unat y)"
      using r True by (simp add: represents_def chksum_pair_eq)
    show ?thesis
    proof (cases "even (length bs)")
      case even: True
      have "chksum_array ?s ys (length ys - 1) = ?s + of_nat (even_sum ys)"
        using even Cons by (simp add: chksum_array_eq even_sum_take)
      then show ?thesis using r True even Cons e last s
        by (simp add: represents_def checksum_feed_def Let_def even_iff_mod_2_eq_zero [symmetric])
    next
      case odd: False
      have "chksum_array ?s ys (length ys) = ?s + of_nat (even_sum ys)"
        using odd Cons by (simp add: chksum_array_eq)
      then show ?thesis using r True odd Cons e s
        by (simp add: represents_def checksum_feed_def Let_def even_iff_mod_2_eq_zero [symmetric])
    qed
  qed
qed

lemma represents_feeds:
  "represents ctx as \<Longrightarrow> represents (foldl checksum_feed ctx bss) (as @ concat bss)"
proof (induction bss arbitrary: ctx as)
  case (Cons b bss)
  from Cons.IH [OF represents_feed [OF Cons.prems], of b] show ?case by simp
qed simp

text \<open>The value as a function of the bytes, with the padding zero of an odd size.\<close>

definition checksum_value :: "byte list \<Rightarrow> 16 word" where
  "checksum_value bs = (if bs = [] then 0 else ucast (NOT (fold_carries (of_nat (even_sum (bs @ [0]))))))"

lemma get_value_represents:
  assumes "represents ctx bs"
  shows "checksum_get_value ctx = Some (checksum_value bs)"
proof (cases "odd (length bs)")
  case True
  then have "bs \<noteq> []" by auto
  then show ?thesis using assms True even_sum_latched [OF True, of 0 "[]"]
    by (auto simp: represents_def checksum_get_value_def checksum_value_def chksum_pair_eq odd_iff_mod_2_eq_one)
next
  case False
  then show ?thesis using assms
    by (auto simp: represents_def checksum_get_value_def checksum_value_def even_sum_snoc even_iff_mod_2_eq_zero)
qed

lemma exa_checksum_eq: "exa_checksum bs = Some (checksum_value bs)"
  using represents_feed [OF represents_reset, of bs]
  by (simp add: exa_checksum_def get_value_represents)

section \<open>Folding\<close>

text \<open>Folding the carries gives the representative of the sum modulo 65535 in 1 to 65535,
  and 0 for 0 only.\<close>

lemma fold_carries_spec:
  "unat (fold_carries s) < 65536 \<and> unat (fold_carries s) mod 65535 = unat s mod 65535 \<and>
   (unat (fold_carries s) = 0 \<longleftrightarrow> unat s = 0)"
proof (induction s rule: fold_carries.induct)
  case (1 s)
  show ?case
  proof (cases "drop_bit 16 s \<noteq> 0")
    case True
    let ?t = "(s AND 0xFFFF) + drop_bit 16 s"
    have u: "unat ?t = unat s mod 65536 + unat s div 65536" using carry_decreases(1) [OF True] .
    have "unat s = 65535 * (unat s div 65536) + unat ?t"
      unfolding u using div_mult_mod_eq [of "unat s" 65536] by linarith
    then have "unat s mod 65535 = unat ?t mod 65535" by (metis mod_mult_self4)
    moreover have "unat ?t = 0 \<longleftrightarrow> unat s = 0"
      unfolding u using div_mult_mod_eq [of "unat s" 65536] by auto
    moreover have "fold_carries s = fold_carries ?t" using True by (subst fold_carries.simps) simp
    ultimately show ?thesis using 1 [OF True] by simp
  next
    case False
    then have "fold_carries s = s" by (subst fold_carries.simps) simp
    moreover have "unat (drop_bit 16 s) = unat s div 65536"
      by (simp only: unat_drop_bit_eq) (simp add: drop_bit_eq_div)
    with False have "unat s div 65536 = 0" by simp
    then have "unat s < 65536" by (simp add: div_eq_0_iff)
    ultimately show ?thesis by simp
  qed
qed

lemma not_low_word:
  fixes s :: "32 word"
  assumes "unat s < 65536"
  shows "unat (ucast (NOT s) :: 16 word) = 65535 - unat s"
proof -
  have "(ucast (NOT s) :: 16 word) = NOT (ucast s)" by (rule bit_word_eqI) (simp add: bit_simps)
  moreover have "unat (ucast s :: 16 word) = unat s" using assms by (simp add: unsigned_ucast_eq take_bit_nat_eq_self)
  moreover have "unat (NOT w) = 65535 - unat w" for w :: "16 word"
  proof -
    have "NOT w = - 1 - w" by (simp add: not_eq_complement)
    moreover have "unat (- 1 - w) = unat (- 1 :: 16 word) - unat w" by (rule unat_sub) simp
    ultimately show ?thesis by (simp add: unsigned_minus_1_eq_mask mask_eq_exp_minus_1)
  qed
  ultimately show ?thesis by simp
qed

lemma even_sum_bound: "even_sum bs \<le> 65535 * (length bs div 2)"
proof (induction bs rule: even_sum.induct)
  case (1 a b bs)
  have "unat a < 2 ^ 8" "unat b < 2 ^ 8" using unsigned_less [of a] unsigned_less [of b] by simp_all
  then have "unat a + 256 * unat b \<le> 65535" by simp
  with 1 show ?case by simp
qed simp_all

text \<open>Up to 131072 bytes the 32-bit accumulator does not wrap.\<close>

lemma checksum_value_nat:
  assumes "bs \<noteq> []" "length bs \<le> 131072"
  shows "\<exists>r. unat (checksum_value bs) = 65535 - r \<and> r < 65536 \<and> r mod 65535 = even_sum (bs @ [0]) mod 65535 \<and>
    (r = 0 \<longleftrightarrow> even_sum (bs @ [0]) = 0)"
proof -
  let ?n = "even_sum (bs @ [0])"
  let ?f = "fold_carries (of_nat ?n)"
  have "length (bs @ [0]) div 2 \<le> 65536" using assms(2) by simp
  then have "65535 * (length (bs @ [0]) div 2) \<le> 65535 * 65536" by (rule mult_le_mono2)
  also have "(65535::nat) * 65536 < 2 ^ 32" by simp
  finally have "?n < 2 ^ 32" using even_sum_bound [of "bs @ [0]"] by simp
  then have n: "unat (of_nat ?n :: 32 word) = ?n" unfolding unat_of_nat by (intro mod_less) simp
  have f: "unat ?f < 65536 \<and> unat ?f mod 65535 = ?n mod 65535 \<and> (unat ?f = 0 \<longleftrightarrow> ?n = 0)"
    using fold_carries_spec [of "of_nat ?n"] unfolding n .
  have v: "unat (checksum_value bs) = 65535 - unat ?f"
    unfolding checksum_value_def using assms(1) not_low_word [OF f [THEN conjunct1]] by simp
  from conjI [OF v f] show ?thesis by (rule exI [of _ "unat ?f"])
qed


text \<open>C14: a buffer that stores its own checksum verifies. Take a buffer whose checksum field, at
  an even offset, is zero; store the checksum of the buffer in the field, low byte first; then
  the checksum of the buffer is 0.\<close>

theorem checksum_verifies:
  assumes "even (length p)" and "length (p @ q) + 2 \<le> 131072"
    and "exa_checksum (p @ [0, 0] @ q) = Some c"
  shows "exa_checksum (p @ [ucast c, ucast (drop_bit 8 c)] @ q) = Some 0"
proof -
  let ?lo = "ucast c :: byte" and ?hi = "ucast (drop_bit 8 c) :: byte"
  let ?m = "even_sum p + even_sum (q @ [0])"
  have val: "\<exists>r. unat (checksum_value (p @ [a, b] @ q)) = 65535 - r \<and> r < 65536 \<and>
      r mod 65535 = (?m + (unat a + 256 * unat b)) mod 65535 \<and> (r = 0 \<longleftrightarrow> ?m + (unat a + 256 * unat b) = 0)" for a b
  proof -
    have "even_sum ((p @ [a, b] @ q) @ [0]) = ?m + (unat a + 256 * unat b)"
      using assms(1) by (simp add: even_sum_append)
    with checksum_value_nat [of "p @ [a, b] @ q"] assms(2) show ?thesis by simp
  qed
  have c: "c = checksum_value (p @ [0, 0] @ q)" using assms(3) by (simp add: exa_checksum_eq)
  obtain r where r: "unat c = 65535 - r" "r < 65536" "r mod 65535 = ?m mod 65535" "r = 0 \<longleftrightarrow> ?m = 0"
    using val [of 0 0] unfolding c by auto
  have bytes: "unat ?lo + 256 * unat ?hi = unat c"
  proof -
    have "unat ?lo = unat c mod 256" by (simp add: unsigned_ucast_eq take_bit_eq_mod)
    moreover have "unat c div 256 < 256" using unsigned_less [of c] by (simp add: div_less_iff_less_mult)
    then have "unat ?hi = unat c div 256"
      by (simp only: unsigned_ucast_eq unat_drop_bit_eq) (simp add: drop_bit_eq_div take_bit_eq_mod)
    ultimately show ?thesis by simp
  qed
  obtain r' where r': "unat (checksum_value (p @ [?lo, ?hi] @ q)) = 65535 - r'" "r' < 65536"
    "r' mod 65535 = (?m + unat c) mod 65535" "r' = 0 \<longleftrightarrow> ?m + unat c = 0"
    using val [of ?lo ?hi] unfolding bytes by (elim exE conjE) (rule that)
  have "(?m + unat c) mod 65535 = 0"
  proof -
    have "(?m + unat c) mod 65535 = (r + (65535 - r)) mod 65535"
      unfolding r(1) using r(3) by (metis mod_add_left_eq)
    with r(2) show ?thesis by simp
  qed
  moreover have "?m + unat c \<noteq> 0" using r(1,4) by auto
  ultimately have "r' mod 65535 = 0" "r' \<noteq> 0" using r'(3,4) by simp_all
  with r'(2) have "r' = 65535" by (auto elim!: dvdE simp: mod_eq_0_iff_dvd)
  with r'(1) have "checksum_value (p @ [?lo, ?hi] @ q) = 0" by (simp add: unat_eq_zero)
  then show ?thesis by (simp add: exa_checksum_eq)
qed

theorem checksum_verifies_witness:
  "\<exists>c. exa_checksum ([1, 2] @ [0, 0] @ [255]) = Some c \<and>
     exa_checksum ([1, 2] @ [ucast c, ucast (drop_bit 8 c)] @ [255]) = Some 0"
proof -
  have "exa_checksum ([1, 2] @ [0, 0] @ [255]) = Some (checksum_value ([1, 2] @ [0, 0] @ [255]))"
    by (rule exa_checksum_eq)
  from checksum_verifies [OF _ _ this] this show ?thesis by auto
qed

end
