(* ===== verification/Exa_Nodeset.thy ===== *)
theory Exa_Nodeset
  imports Exa_Prelude "HOL-Library.Word"
begin

unbundle bit_operations_syntax

text \<open>
  Node sets (\<open>common/lib/exa_nodeset.c\<close>, \<open>common/include/exa_nodeset.h\<close>).

  A node set is a bit field of two 64-bit cells. The model keeps the cells and the bit
  operations; \<open>ns_elems\<close> is the set of node ids a bit field stands for, and the lemmas
  collected in \<open>nodeset_simps\<close> say what every operation does to it. Node ids are unsigned
  32-bit values in the C code; they are natural numbers here, and
  \<open>EXA_NODEID_VALID_word\<close> shows that the C test (a cast to a signed integer) is the same
  bound. \<open>CHECK_NODE\<close> is an assertion, so the operations that perform it may abort.
\<close>

section \<open>Identifiers and representation\<close>

type_synonym exa_nodeid = nat

definition EXA_MAX_NODES_NUMBER :: nat where
  "EXA_MAX_NODES_NUMBER = 128"

definition EXA_NODEID_LOCALHOST :: exa_nodeid where
  "EXA_NODEID_LOCALHOST = EXA_MAX_NODES_NUMBER + 1"

definition EXA_NODEID_NONE :: exa_nodeid where
  "EXA_NODEID_NONE = EXA_MAX_NODES_NUMBER + 5"

definition EXA_NODEID_VALID :: "exa_nodeid \<Rightarrow> bool" where
  "EXA_NODEID_VALID i \<longleftrightarrow> i < EXA_MAX_NODES_NUMBER"

definition EXA_NODESET_BITS_PER_CELL :: nat where
  "EXA_NODESET_BITS_PER_CELL = 64"

definition EXA_NODESET_NB_CELLS :: nat where
  "EXA_NODESET_NB_CELLS = (EXA_MAX_NODES_NUMBER - 1) div EXA_NODESET_BITS_PER_CELL + 1"

text \<open>The array \<open>cells[2]\<close> of the structure.\<close>

datatype exa_nodeset = Nodeset (cell0: "64 word") (cell1: "64 word")

definition get_cell :: "exa_nodeset \<Rightarrow> nat \<Rightarrow> 64 word" where
  "get_cell s i = (if i = 0 then cell0 s else cell1 s)"

definition set_cell :: "exa_nodeset \<Rightarrow> nat \<Rightarrow> 64 word \<Rightarrow> exa_nodeset" where
  "set_cell s i c = (if i = 0 then Nodeset c (cell1 s) else Nodeset (cell0 s) c)"

definition EXA_NODESET_EMPTY :: exa_nodeset where
  "EXA_NODESET_EMPTY = Nodeset 0 0"

definition EXA_NODESET_FULL :: exa_nodeset where
  "EXA_NODESET_FULL = Nodeset (NOT 0) (NOT 0)"

section \<open>Operations\<close>

definition check_node :: "exa_nodeid \<Rightarrow> unit option" where
  "check_node node = exa_assert (EXA_NODEID_VALID node)"

definition exa_nodeset_reset :: exa_nodeset where
  "exa_nodeset_reset = EXA_NODESET_EMPTY"

definition exa_nodeset_copy :: "exa_nodeset \<Rightarrow> exa_nodeset" where
  "exa_nodeset_copy from = from"

definition exa_nodeset_is_empty :: "exa_nodeset \<Rightarrow> bool" where
  "exa_nodeset_is_empty s = list_all (\<lambda>i. get_cell s i = 0) [0..<EXA_NODESET_NB_CELLS]"

definition exa_nodeset_add :: "exa_nodeset \<Rightarrow> exa_nodeid \<Rightarrow> exa_nodeset option" where
  "exa_nodeset_add s node = do {
     check_node node;
     let i = node div EXA_NODESET_BITS_PER_CELL;
     Some (set_cell s i (get_cell s i OR push_bit (node mod EXA_NODESET_BITS_PER_CELL) 1)) }"

definition exa_nodeset_del :: "exa_nodeset \<Rightarrow> exa_nodeid \<Rightarrow> exa_nodeset option" where
  "exa_nodeset_del s node = do {
     check_node node;
     let i = node div EXA_NODESET_BITS_PER_CELL;
     Some (set_cell s i (get_cell s i AND NOT (push_bit (node mod EXA_NODESET_BITS_PER_CELL) 1))) }"

definition exa_nodeset_contains :: "exa_nodeset \<Rightarrow> exa_nodeid \<Rightarrow> bool option" where
  "exa_nodeset_contains s node =
     (if node = EXA_NODEID_NONE \<or> node = EXA_NODEID_LOCALHOST then Some False
      else do {
        check_node node;
        Some (get_cell s (node div EXA_NODESET_BITS_PER_CELL)
                AND push_bit (node mod EXA_NODESET_BITS_PER_CELL) 1 \<noteq> 0) })"

definition exa_nodeset_equals :: "exa_nodeset \<Rightarrow> exa_nodeset \<Rightarrow> bool" where
  "exa_nodeset_equals s t = list_all (\<lambda>i. get_cell s i = get_cell t i) [0..<EXA_NODESET_NB_CELLS]"

definition exa_nodeset_sum :: "exa_nodeset \<Rightarrow> exa_nodeset \<Rightarrow> exa_nodeset" where
  "exa_nodeset_sum to from =
     fold (\<lambda>i t. set_cell t i (get_cell t i OR get_cell from i)) [0..<EXA_NODESET_NB_CELLS] to"

definition exa_nodeset_substract :: "exa_nodeset \<Rightarrow> exa_nodeset \<Rightarrow> exa_nodeset" where
  "exa_nodeset_substract to from =
     fold (\<lambda>i t. set_cell t i (get_cell t i AND NOT (get_cell from i))) [0..<EXA_NODESET_NB_CELLS] to"

definition exa_nodeset_intersect :: "exa_nodeset \<Rightarrow> exa_nodeset \<Rightarrow> exa_nodeset" where
  "exa_nodeset_intersect to from =
     fold (\<lambda>i t. set_cell t i (get_cell t i AND get_cell from i)) [0..<EXA_NODESET_NB_CELLS] to"

definition exa_nodeset_included :: "exa_nodeset \<Rightarrow> exa_nodeset \<Rightarrow> bool" where
  "exa_nodeset_included a b =
     (let s = exa_nodeset_copy a; s = exa_nodeset_intersect s b in exa_nodeset_equals s a)"

definition exa_nodeset_disjoint :: "exa_nodeset \<Rightarrow> exa_nodeset \<Rightarrow> bool" where
  "exa_nodeset_disjoint a b =
     (let s = exa_nodeset_copy a; s = exa_nodeset_intersect s b in exa_nodeset_is_empty s)"

definition exa_nodeset_count :: "exa_nodeset \<Rightarrow> nat option" where
  "exa_nodeset_count s =
     for_each (\<lambda>node count. do {
       c \<leftarrow> exa_nodeset_contains s node;
       Some (if c then count + 1 else count) }) [0..<EXA_MAX_NODES_NUMBER] 0"

text \<open>The loop of \<open>exa_nodeset_first_at\<close>, from \<open>node\<close> upwards.\<close>

function first_at_loop :: "exa_nodeset \<Rightarrow> exa_nodeid \<Rightarrow> exa_nodeid option" where
  "first_at_loop s node =
     (if node < EXA_MAX_NODES_NUMBER
      then do {
        c \<leftarrow> exa_nodeset_contains s node;
        if c then Some node else first_at_loop s (node + 1) }
      else Some node)"
  by pat_completeness auto
termination
  by (relation "measure (\<lambda>(s, node). EXA_MAX_NODES_NUMBER - node)") auto

declare first_at_loop.simps [simp del]

definition exa_nodeset_first_at :: "exa_nodeset \<Rightarrow> exa_nodeid \<Rightarrow> exa_nodeid option" where
  "exa_nodeset_first_at s node = do { check_node node; first_at_loop s node }"

definition exa_nodeset_first :: "exa_nodeset \<Rightarrow> exa_nodeid option" where
  "exa_nodeset_first s = exa_nodeset_first_at s 0"

definition exa_nodeset_iter_init :: "exa_nodeset \<Rightarrow> exa_nodeset" where
  "exa_nodeset_iter_init s = exa_nodeset_copy s"

text \<open>\<open>exa_nodeset_iter\<close>: whether there was a node, the node, the iterator left.\<close>

definition exa_nodeset_iter :: "exa_nodeset \<Rightarrow> (bool \<times> exa_nodeid \<times> exa_nodeset) option" where
  "exa_nodeset_iter iter = do {
     node \<leftarrow> exa_nodeset_first_at iter 0;
     if node \<ge> EXA_MAX_NODES_NUMBER then Some (False, node, iter)
     else do {
       iter' \<leftarrow> exa_nodeset_del iter node;
       Some (True, node, iter') } }"

partial_function (option) num_bits_loop :: "exa_nodeset \<Rightarrow> exa_nodeid \<Rightarrow> exa_nodeid option" where
  "num_bits_loop iter max_node_id = do {
     (more, node_id, iter') \<leftarrow> exa_nodeset_iter iter;
     if more then num_bits_loop iter' node_id else Some max_node_id }"

declare num_bits_loop.simps [code]

definition exa_nodeset_num_bits :: "exa_nodeset \<Rightarrow> nat option" where
  "exa_nodeset_num_bits s = do {
     m \<leftarrow> num_bits_loop (exa_nodeset_iter_init s) 0;
     Some (m + 1) }"

definition exa_nodeset_single :: "exa_nodeid \<Rightarrow> exa_nodeset option" where
  "exa_nodeset_single node =
     (if node \<noteq> EXA_NODEID_LOCALHOST then exa_nodeset_add exa_nodeset_reset node
      else Some exa_nodeset_reset)"

text \<open>\<open>exa_nodeset_foreach\<close>: the loop variable takes the values of this list.\<close>

lemma first_at_loop_ge: "first_at_loop s node = Some n \<Longrightarrow> node \<le> n"
proof (induction s node rule: first_at_loop.induct)
  case (1 s node)
  then show ?case
    by (fastforce split: if_splits simp: bind_eq_Some_conv first_at_loop.simps [of s node])
qed

function foreach_from :: "exa_nodeset \<Rightarrow> exa_nodeid \<Rightarrow> exa_nodeid list option" where
  "foreach_from s node =
     (if node < EXA_MAX_NODES_NUMBER
      then (case exa_nodeset_first_at s node of
              None \<Rightarrow> None
            | Some n \<Rightarrow>
                if n < EXA_MAX_NODES_NUMBER
                then map_option (Cons n) (foreach_from s (n + 1))
                else Some [])
      else Some [])"
  by pat_completeness auto
termination
  by (relation "measure (\<lambda>(s, node). EXA_MAX_NODES_NUMBER - node)")
     (auto simp: exa_nodeset_first_at_def bind_eq_Some_conv dest: first_at_loop_ge)

declare foreach_from.simps [simp del]

definition exa_nodeset_foreach :: "exa_nodeset \<Rightarrow> exa_nodeid list option" where
  "exa_nodeset_foreach s = foreach_from s 0"

text \<open>Hexadecimal strings: \<open>sprintf\<close> with \<open>%016lx\<close> prints one cell, \<open>sscanf\<close> with the
  same format reads up to sixteen hexadecimal digits. The most significant cell comes first.\<close>

definition HEX_DIGITS :: string where
  "HEX_DIGITS = ''0123456789abcdef''"

definition hex_value :: "char \<Rightarrow> nat option" where
  "hex_value c = map_of (zip HEX_DIGITS [0..<16]) c"

definition sprintf_cell :: "64 word \<Rightarrow> string" where
  "sprintf_cell w = map (\<lambda>k. HEX_DIGITS ! (unat w div 16 ^ k mod 16)) (rev [0..<16])"

definition sscanf_cell :: "string \<Rightarrow> 64 word option" where
  "sscanf_cell str =
     (let ds = takeWhile (\<lambda>c. hex_value c \<noteq> None) (take 16 str)
      in if ds = [] then None
         else Some (of_nat (foldl (\<lambda>v d. v * 16 + d) 0 (map (the \<circ> hex_value) ds))))"

definition EXA_NODESET_HEX_SIZE :: nat where
  "EXA_NODESET_HEX_SIZE = EXA_NODESET_NB_CELLS * 16"

primrec from_hex_loop :: "nat list \<Rightarrow> exa_nodeset \<Rightarrow> string \<Rightarrow> errcode + exa_nodeset" where
  "from_hex_loop [] s hex = Inr s"
| "from_hex_loop (i # is) s hex =
     (case sscanf_cell hex of
        None \<Rightarrow> Inl EXA_ERR_INVALID_VALUE
      | Some c \<Rightarrow> from_hex_loop is (set_cell s i c) (drop (EXA_NODESET_BITS_PER_CELL div 4) hex))"

definition exa_nodeset_from_hex :: "exa_nodeset \<Rightarrow> string \<Rightarrow> errcode + exa_nodeset" where
  "exa_nodeset_from_hex s hex =
     (if length hex \<noteq> EXA_NODESET_HEX_SIZE then Inl EXA_ERR_INVALID_VALUE
      else if length (takeWhile (\<lambda>c. c \<in> set HEX_DIGITS) hex) \<noteq> EXA_NODESET_HEX_SIZE
      then Inl EXA_ERR_INVALID_VALUE
      else from_hex_loop (rev [0..<EXA_NODESET_NB_CELLS]) s hex)"

definition exa_nodeset_to_hex :: "exa_nodeset \<Rightarrow> string" where
  "exa_nodeset_to_hex s = concat (map (\<lambda>i. sprintf_cell (get_cell s i)) (rev [0..<EXA_NODESET_NB_CELLS]))"

definition exa_nodeset_to_bin :: "exa_nodeset \<Rightarrow> string option" where
  "exa_nodeset_to_bin s = do {
     n \<leftarrow> exa_nodeset_num_bits s;
     if n > 0
     then for_each (\<lambda>node_id bin. do {
            c \<leftarrow> exa_nodeset_contains s node_id;
            Some (bin @ [if c then CHR ''1'' else CHR ''0'']) }) (rev [0..<n]) []
     else Some [] }"

section \<open>The set a bit field stands for\<close>

definition ns_elems :: "exa_nodeset \<Rightarrow> exa_nodeid set" where
  "ns_elems s = {i. i < EXA_MAX_NODES_NUMBER \<and>
     bit (get_cell s (i div EXA_NODESET_BITS_PER_CELL)) (i mod EXA_NODESET_BITS_PER_CELL)}"

lemmas nodeset_consts =
  EXA_MAX_NODES_NUMBER_def EXA_NODEID_LOCALHOST_def EXA_NODEID_NONE_def
  EXA_NODESET_BITS_PER_CELL_def EXA_NODESET_NB_CELLS_def

lemma EXA_NODEID_VALID_word:
  fixes w :: "32 word"
  shows "(0 \<le> sint w \<and> sint w < int EXA_MAX_NODES_NUMBER) = EXA_NODEID_VALID (unat w)"
proof
  assume h: "0 \<le> sint w \<and> sint w < int EXA_MAX_NODES_NUMBER"
  have "int (unat w) = take_bit 32 (sint w)" using uint_sint [of w] by simp
  also have "\<dots> = sint w"
    using h by (intro take_bit_int_eq_self) (auto simp: EXA_MAX_NODES_NUMBER_def)
  finally have "int (unat w) < int EXA_MAX_NODES_NUMBER"
    using h by linarith
  then show "EXA_NODEID_VALID (unat w)"
    unfolding EXA_NODEID_VALID_def by linarith
next
  assume "EXA_NODEID_VALID (unat w)"
  then have "unat w < 128"
    by (simp add: EXA_NODEID_VALID_def EXA_MAX_NODES_NUMBER_def)
  then have u: "int (unat w) < 128" by linarith
  have "signed_take_bit 31 (int (unat w)) = int (unat w)"
  proof (rule signed_take_bit_int_eq_self)
    show "- (2 ^ 31) \<le> int (unat w)" by (rule order_trans [of _ 0]) simp_all
    show "int (unat w) < 2 ^ 31" using u by simp
  qed
  then have "sint w = int (unat w)"
    by (simp add: sint_uint)
  with u show "0 \<le> sint w \<and> sint w < int EXA_MAX_NODES_NUMBER"
    by (simp add: EXA_MAX_NODES_NUMBER_def)
qed

text \<open>The value of a checked insertion or removal when the check passes.\<close>

definition ns_ins :: "exa_nodeset \<Rightarrow> exa_nodeid \<Rightarrow> exa_nodeset" where
  "ns_ins s node = the (exa_nodeset_add s node)"

definition ns_rem :: "exa_nodeset \<Rightarrow> exa_nodeid \<Rightarrow> exa_nodeset" where
  "ns_rem s node = the (exa_nodeset_del s node)"

lemma ns_elems_bounded: "i \<in> ns_elems s \<Longrightarrow> i < EXA_MAX_NODES_NUMBER"
  by (simp add: ns_elems_def)

lemma ns_elems_subset: "ns_elems s \<subseteq> {..<EXA_MAX_NODES_NUMBER}"
  by (auto simp: ns_elems_def)

lemma finite_ns_elems [simp]: "finite (ns_elems s)"
  by (rule finite_subset [OF ns_elems_subset]) simp

lemma exa_nodeset_contains_valid [simp]:
  assumes "i < EXA_MAX_NODES_NUMBER"
  shows "exa_nodeset_contains s i = Some (i \<in> ns_elems s)"
proof -
  have "(w AND 2 ^ n \<noteq> 0) = bit w n" for w :: "64 word" and n
    by (simp add: and_exp_eq_0_iff_not_bit)
  with assms show ?thesis
    by (simp add: exa_nodeset_contains_def check_node_def EXA_NODEID_VALID_def ns_elems_def
        EXA_NODEID_NONE_def EXA_NODEID_LOCALHOST_def)
qed

lemma exa_nodeset_contains_none [simp]: "exa_nodeset_contains s EXA_NODEID_NONE = Some False"
  by (simp add: exa_nodeset_contains_def)

lemma exa_nodeset_contains_SomeD:
  "exa_nodeset_contains s i = Some True \<Longrightarrow> i \<in> ns_elems s"
proof (cases "i < EXA_MAX_NODES_NUMBER")
  case False
  then show "exa_nodeset_contains s i = Some True \<Longrightarrow> i \<in> ns_elems s"
    by (auto simp: exa_nodeset_contains_def check_node_def EXA_NODEID_VALID_def split: if_splits)
qed simp

lemma exa_nodeset_add_valid [simp]:
  "i < EXA_MAX_NODES_NUMBER \<Longrightarrow> exa_nodeset_add s i = Some (ns_ins s i)"
  by (simp add: ns_ins_def exa_nodeset_add_def check_node_def EXA_NODEID_VALID_def Let_def)

lemma exa_nodeset_del_valid [simp]:
  "i < EXA_MAX_NODES_NUMBER \<Longrightarrow> exa_nodeset_del s i = Some (ns_rem s i)"
  by (simp add: ns_rem_def exa_nodeset_del_def check_node_def EXA_NODEID_VALID_def Let_def)

lemma cell_index:
  assumes "i < EXA_MAX_NODES_NUMBER"
  shows "i div EXA_NODESET_BITS_PER_CELL = 0 \<or> i div EXA_NODESET_BITS_PER_CELL = 1"
  using assms by (auto simp: nodeset_consts)

lemma get_set_cell [simp]:
  "i < 2 \<Longrightarrow> j < 2 \<Longrightarrow> get_cell (set_cell s i c) j = (if i = j then c else get_cell s j)"
  by (auto simp: get_cell_def set_cell_def)

lemma cell_index_less [simp]:
  "i < EXA_MAX_NODES_NUMBER \<Longrightarrow> i div EXA_NODESET_BITS_PER_CELL < 2"
  using cell_index [of i] by auto

lemma bits_mod_less [simp]: "i mod EXA_NODESET_BITS_PER_CELL < 64"
  by (simp add: EXA_NODESET_BITS_PER_CELL_def)

lemma div_mod_eqD:
  "i div EXA_NODESET_BITS_PER_CELL = j div EXA_NODESET_BITS_PER_CELL \<Longrightarrow>
   i mod EXA_NODESET_BITS_PER_CELL = j mod EXA_NODESET_BITS_PER_CELL \<Longrightarrow> i = j"
  by (metis div_mult_mod_eq)

lemma ns_elems_ins [nodeset_simps]:
  assumes "i < EXA_MAX_NODES_NUMBER"
  shows "ns_elems (ns_ins s i) = insert i (ns_elems s)"
  using assms
  by (auto simp: ns_elems_def ns_ins_def exa_nodeset_add_def check_node_def EXA_NODEID_VALID_def
      bit_or_iff bit_exp_iff Let_def dest: div_mod_eqD [OF _ sym] split: if_splits)

lemma ns_elems_rem [nodeset_simps]:
  assumes "i < EXA_MAX_NODES_NUMBER"
  shows "ns_elems (ns_rem s i) = ns_elems s - {i}"
  using assms
  by (auto simp: ns_elems_def ns_rem_def exa_nodeset_del_def check_node_def EXA_NODEID_VALID_def
      bit_and_iff bit_not_iff bit_exp_iff Let_def dest: div_mod_eqD [OF _ sym] split: if_splits)

lemma nb_cells [simp]: "[0..<EXA_NODESET_NB_CELLS] = [0, 1]"
  by (simp add: nodeset_consts upt_rec)

lemma ns_elems_reset [nodeset_simps]: "ns_elems exa_nodeset_reset = {}"
  by (simp add: ns_elems_def exa_nodeset_reset_def EXA_NODESET_EMPTY_def get_cell_def)

lemma ns_elems_full [nodeset_simps]: "ns_elems EXA_NODESET_FULL = {..<EXA_MAX_NODES_NUMBER}"
  by (auto simp: ns_elems_def EXA_NODESET_FULL_def get_cell_def)

lemma ns_elems_copy [nodeset_simps]: "ns_elems (exa_nodeset_copy s) = ns_elems s"
  by (simp add: exa_nodeset_copy_def)

lemma ns_elems_sum [nodeset_simps]:
  "ns_elems (exa_nodeset_sum s t) = ns_elems s \<union> ns_elems t"
  by (auto simp: ns_elems_def exa_nodeset_sum_def get_cell_def set_cell_def bit_or_iff)

lemma ns_elems_substract [nodeset_simps]:
  "ns_elems (exa_nodeset_substract s t) = ns_elems s - ns_elems t"
  by (auto simp: ns_elems_def exa_nodeset_substract_def get_cell_def set_cell_def
      bit_and_iff bit_not_iff)

lemma ns_elems_intersect [nodeset_simps]:
  "ns_elems (exa_nodeset_intersect s t) = ns_elems s \<inter> ns_elems t"
  by (auto simp: ns_elems_def exa_nodeset_intersect_def get_cell_def set_cell_def bit_and_iff)

lemma ns_elems_inject: "ns_elems s = ns_elems t \<longleftrightarrow> s = t"
proof
  assume eq: "ns_elems s = ns_elems t"
  have mem: "i \<in> ns_elems s \<longleftrightarrow> i \<in> ns_elems t" for i using eq by simp
  have "bit (cell0 s) n = bit (cell0 t) n" if "n < 64" for n
    using mem [of n] that by (simp add: ns_elems_def nodeset_consts get_cell_def)
  moreover have "bit (cell1 s) n = bit (cell1 t) n" if "n < 64" for n
  proof -
    have "(64 + n) div 64 = 1" "(64 + n) mod 64 = n" using that by auto
    then show ?thesis
      using mem [of "64 + n"] that
      by (simp only: ns_elems_def nodeset_consts get_cell_def mem_Collect_eq) simp
  qed
  ultimately show "s = t"
    by (cases s; cases t) (auto intro: bit_word_eqI)
qed simp

lemma exa_nodeset_equals_iff [nodeset_simps]:
  "exa_nodeset_equals s t \<longleftrightarrow> ns_elems s = ns_elems t"
  unfolding ns_elems_inject
  by (cases s; cases t) (simp add: exa_nodeset_equals_def get_cell_def)

lemma exa_nodeset_is_empty_iff [nodeset_simps]:
  "exa_nodeset_is_empty s \<longleftrightarrow> ns_elems s = {}"
proof -
  have "exa_nodeset_is_empty s \<longleftrightarrow> s = exa_nodeset_reset"
    by (cases s) (simp add: exa_nodeset_is_empty_def get_cell_def exa_nodeset_reset_def
        EXA_NODESET_EMPTY_def)
  then show ?thesis using ns_elems_inject [of s exa_nodeset_reset] by (simp add: ns_elems_reset)
qed


section \<open>Counting, searching and iterating\<close>

lemma count_loop:
  assumes "\<forall>i\<in>set is. i < EXA_MAX_NODES_NUMBER"
  shows "for_each (\<lambda>node count. do {
           c \<leftarrow> exa_nodeset_contains s node;
           Some (if c then count + 1 else count) }) is k
         = Some (k + length (filter (\<lambda>i. i \<in> ns_elems s) is))"
  using assms by (induction "is" arbitrary: k) auto

lemma exa_nodeset_count_eq [simp]: "exa_nodeset_count s = Some (card (ns_elems s))"
proof -
  let ?is = "[0..<EXA_MAX_NODES_NUMBER]"
  have "length (filter (\<lambda>i. i \<in> ns_elems s) ?is) = card (set (filter (\<lambda>i. i \<in> ns_elems s) ?is))"
    by (rule distinct_card [symmetric]) simp
  also have "set (filter (\<lambda>i. i \<in> ns_elems s) ?is) = ns_elems s"
    using ns_elems_subset by auto
  finally show ?thesis
    unfolding exa_nodeset_count_def by (subst count_loop) auto
qed

text \<open>The least member not below \<open>node\<close>, or \<open>EXA_MAX_NODES_NUMBER\<close> when there is none.\<close>

lemma first_at_loop_spec:
  assumes "node \<le> EXA_MAX_NODES_NUMBER"
  shows "\<exists>n. first_at_loop s node = Some n \<and> node \<le> n \<and> n \<le> EXA_MAX_NODES_NUMBER \<and>
     (\<forall>i. node \<le> i \<and> i < n \<longrightarrow> i \<notin> ns_elems s) \<and>
     (n < EXA_MAX_NODES_NUMBER \<longrightarrow> n \<in> ns_elems s)"
  using assms
proof (induction s node rule: first_at_loop.induct)
  case (1 s node)
  show ?case
  proof (cases "node < EXA_MAX_NODES_NUMBER \<and> node \<notin> ns_elems s")
    case True
    then obtain n where "first_at_loop s (node + 1) = Some n" "node + 1 \<le> n"
      "n \<le> EXA_MAX_NODES_NUMBER" "\<forall>i. node + 1 \<le> i \<and> i < n \<longrightarrow> i \<notin> ns_elems s"
      "n < EXA_MAX_NODES_NUMBER \<longrightarrow> n \<in> ns_elems s"
      using "1.IH" [of False] by auto
    moreover have "i \<notin> ns_elems s" if "node \<le> i" "i < n" for i
      using that True calculation(4) by (cases "i = node") auto
    ultimately show ?thesis
      using True by (auto simp: first_at_loop.simps [of s node])
  next
    case False
    with "1.prems" show ?thesis by (auto simp: first_at_loop.simps [of s node])
  qed
qed

lemma exa_nodeset_first_at_spec:
  assumes "node < EXA_MAX_NODES_NUMBER"
  obtains n where "exa_nodeset_first_at s node = Some n" "node \<le> n" "n \<le> EXA_MAX_NODES_NUMBER"
    "\<And>i. node \<le> i \<Longrightarrow> i < n \<Longrightarrow> i \<notin> ns_elems s" "n < EXA_MAX_NODES_NUMBER \<Longrightarrow> n \<in> ns_elems s"
  using first_at_loop_spec [of node s] assms that
  by (auto simp: exa_nodeset_first_at_def check_node_def EXA_NODEID_VALID_def)

lemma max_nodes_pos [simp]: "0 < EXA_MAX_NODES_NUMBER"
  by (simp add: EXA_MAX_NODES_NUMBER_def)

lemma exa_nodeset_first_nonempty:
  assumes "ns_elems s \<noteq> {}"
  shows "exa_nodeset_first s = Some (Min (ns_elems s))"
proof -
  obtain n where n: "exa_nodeset_first_at s 0 = Some n" "n \<le> EXA_MAX_NODES_NUMBER"
    "\<And>i. 0 \<le> i \<Longrightarrow> i < n \<Longrightarrow> i \<notin> ns_elems s" "n < EXA_MAX_NODES_NUMBER \<Longrightarrow> n \<in> ns_elems s"
    by (rule exa_nodeset_first_at_spec [of 0 s]) auto
  obtain m where m: "m \<in> ns_elems s" using assms by blast
  have "n \<le> m" using n(3) [of m] m by (cases "m < n") auto
  then have "n \<in> ns_elems s" using n(4) ns_elems_bounded [OF m] by linarith
  moreover have "n \<le> i" if "i \<in> ns_elems s" for i using n(3) [of i] that by force
  ultimately have "Min (ns_elems s) = n" by (intro Min_eqI) auto
  with n(1) show ?thesis by (simp add: exa_nodeset_first_def)
qed

lemma exa_nodeset_first_empty:
  assumes "ns_elems s = {}"
  shows "exa_nodeset_first s = Some EXA_MAX_NODES_NUMBER"
proof -
  obtain n where "exa_nodeset_first_at s 0 = Some n" "n \<le> EXA_MAX_NODES_NUMBER"
    "n < EXA_MAX_NODES_NUMBER \<Longrightarrow> n \<in> ns_elems s"
    by (rule exa_nodeset_first_at_spec [of 0 s]) auto
  with assms have "n = EXA_MAX_NODES_NUMBER" by (cases "n < EXA_MAX_NODES_NUMBER") auto
  with \<open>exa_nodeset_first_at s 0 = Some n\<close> show ?thesis by (simp add: exa_nodeset_first_def)
qed

lemma exa_nodeset_iter_nonempty:
  assumes "ns_elems s \<noteq> {}"
  shows "exa_nodeset_iter s = Some (True, Min (ns_elems s), ns_rem s (Min (ns_elems s)))"
    (is "_ = Some (True, ?m, _)")
proof -
  have "?m \<in> ns_elems s" using assms by simp
  then have "?m < EXA_MAX_NODES_NUMBER" by (rule ns_elems_bounded)
  with exa_nodeset_first_nonempty [OF assms] show ?thesis
    by (simp add: exa_nodeset_iter_def exa_nodeset_first_def)
qed

lemma exa_nodeset_iter_empty:
  assumes "ns_elems s = {}"
  shows "exa_nodeset_iter s = Some (False, EXA_MAX_NODES_NUMBER, s)"
  using exa_nodeset_first_empty [OF assms]
  by (simp add: exa_nodeset_iter_def exa_nodeset_first_def)

lemma num_bits_loop_eq:
  "num_bits_loop s m = Some (if ns_elems s = {} then m else Max (ns_elems s))"
proof (induction "card (ns_elems s)" arbitrary: s m rule: less_induct)
  case less
  show ?case
  proof (cases "ns_elems s = {}")
    case True
    then show ?thesis by (simp add: num_bits_loop.simps [of s] exa_nodeset_iter_empty)
  next
    case False
    let ?m = "Min (ns_elems s)" and ?s = "ns_rem s (Min (ns_elems s))"
    have m: "?m \<in> ns_elems s" using False by simp
    have s': "ns_elems ?s = ns_elems s - {?m}"
      using ns_elems_bounded [OF m] by (simp add: nodeset_simps)
    have "card (ns_elems ?s) < card (ns_elems s)"
      unfolding s' using m by (intro card_Diff1_less) auto
    then have IH: "num_bits_loop ?s ?m = Some (if ns_elems ?s = {} then ?m else Max (ns_elems ?s))"
      by (rule less)
    have "(if ns_elems ?s = {} then ?m else Max (ns_elems ?s)) = Max (ns_elems s)"
    proof (cases "ns_elems s = {?m}")
      case True
      then show ?thesis unfolding s' by (metis Diff_cancel Max_singleton)
    next
      case ne: False
      have "ns_elems s = insert ?m (ns_elems s - {?m})" using m by blast
      moreover have "ns_elems s - {?m} \<noteq> {}" using ne m by blast
      moreover have "?m \<le> Max (ns_elems s - {?m})"
        using calculation(2) by (meson DiffD1 Max_in Min_le finite_Diff finite_ns_elems)
      ultimately show ?thesis
        unfolding s' by (metis Max_insert finite_Diff finite_ns_elems max.absorb2)
    qed
    with IH False show ?thesis
      by (simp add: num_bits_loop.simps [of s] exa_nodeset_iter_nonempty)
  qed
qed

lemma exa_nodeset_num_bits_eq:
  "exa_nodeset_num_bits s = Some (if ns_elems s = {} then 1 else Max (ns_elems s) + 1)"
  by (simp add: exa_nodeset_num_bits_def num_bits_loop_eq exa_nodeset_iter_init_def
      exa_nodeset_copy_def)

lemma foreach_from_spec:
  "\<exists>ns. foreach_from s node = Some ns \<and> set ns = {i \<in> ns_elems s. node \<le> i} \<and>
        sorted_wrt (<) ns"
proof (induction s node rule: foreach_from.induct)
  case (1 s node)
  show ?case
  proof (cases "node < EXA_MAX_NODES_NUMBER")
    case False
    then show ?thesis
      using ns_elems_bounded by (force simp: foreach_from.simps [of s node])
  next
    case True
    obtain n where n: "exa_nodeset_first_at s node = Some n" "node \<le> n"
      "\<And>i. node \<le> i \<Longrightarrow> i < n \<Longrightarrow> i \<notin> ns_elems s" "n < EXA_MAX_NODES_NUMBER \<Longrightarrow> n \<in> ns_elems s"
      by (rule exa_nodeset_first_at_spec [OF True, of s]) auto
    show ?thesis
    proof (cases "n < EXA_MAX_NODES_NUMBER")
      case False
      then have "{i \<in> ns_elems s. node \<le> i} = {}"
        using n(3) ns_elems_bounded by force
      with False True n(1) show ?thesis by (simp add: foreach_from.simps [of s node])
    next
      case nlt: True
      from "1.IH" [OF True n(1) nlt] obtain ns where
        ns: "foreach_from s (n + 1) = Some ns" "set ns = {i \<in> ns_elems s. n + 1 \<le> i}"
        "sorted_wrt (<) ns" by blast
      have "{i \<in> ns_elems s. node \<le> i} = insert n {i \<in> ns_elems s. n + 1 \<le> i}"
        using n(2,3) n(4) [OF nlt] by (auto simp: not_less_eq_eq [symmetric])
      with True nlt n(1) ns show ?thesis
        by (auto simp: foreach_from.simps [of s node])
    qed
  qed
qed

lemma exa_nodeset_foreach_eq:
  "exa_nodeset_foreach s = Some (sorted_list_of_set (ns_elems s))"
proof -
  obtain ns where ns: "foreach_from s 0 = Some ns" "set ns = ns_elems s" "sorted_wrt (<) ns"
    using foreach_from_spec [of s 0] by auto
  have "sorted_list_of_set (set ns) = ns"
    using ns(3) by (intro sorted_list_of_set.idem_if_sorted_distinct)
      (auto simp: strict_sorted_iff)
  with ns show ?thesis by (simp add: exa_nodeset_foreach_def)
qed


section \<open>Printing and parsing\<close>

definition digs :: "nat \<Rightarrow> nat \<Rightarrow> nat list" where
  "digs n v = map (\<lambda>k. v div 16 ^ k mod 16) (rev [0..<n])"

definition digs_val :: "nat list \<Rightarrow> nat" where
  "digs_val ds = foldl (\<lambda>v d. v * 16 + d) 0 ds"

lemma digs_Suc: "digs (Suc n) v = digs n (v div 16) @ [v mod 16]"
proof -
  have "[0..<Suc n] = 0 # map Suc [0..<n]" by (simp add: map_Suc_upt upt_conv_Cons del: upt_Suc)
  then have "rev [0..<Suc n] = map Suc (rev [0..<n]) @ [0]" by (simp add: rev_map)
  then show ?thesis
    by (simp add: digs_def div_mult2_eq comp_def del: upt_Suc)
qed

lemma digs_val_snoc: "digs_val (ds @ [d]) = digs_val ds * 16 + d"
  by (simp add: digs_val_def)

lemma length_digs [simp]: "length (digs n v) = n"
  by (simp add: digs_def)

lemma digs_less: "d \<in> set (digs n v) \<Longrightarrow> d < 16"
  by (auto simp: digs_def)

lemma digs_val_digs: "digs_val (digs n v) = v mod 16 ^ n"
proof (induction n arbitrary: v)
  case 0
  show ?case by (simp add: digs_val_def digs_def)
next
  case (Suc n)
  show ?case by (simp add: digs_Suc digs_val_snoc Suc.IH mod_mult2_eq)
qed

lemma digs_digs_val:
  "\<forall>d\<in>set ds. d < 16 \<Longrightarrow> digs (length ds) (digs_val ds) = ds"
proof (induction ds rule: rev_induct)
  case (snoc d ds)
  then have "digs (length ds) (digs_val ds) = ds" "d < 16" by auto
  then show ?case by (simp add: digs_Suc digs_val_snoc)
qed (simp add: digs_def)

lemma digs_val_bound: "\<forall>d\<in>set ds. d < 16 \<Longrightarrow> digs_val ds < 16 ^ length ds"
  by (induction ds rule: rev_induct) (auto simp: digs_val_snoc digs_val_def)

lemma hex_value_nth: "d < 16 \<Longrightarrow> hex_value (HEX_DIGITS ! d) = Some d"
proof -
  have "\<forall>d\<in>set [0..<16]. hex_value (HEX_DIGITS ! d) = Some d"
    by (simp add: hex_value_def HEX_DIGITS_def upt_rec)
  then show "d < 16 \<Longrightarrow> hex_value (HEX_DIGITS ! d) = Some d" by simp
qed

lemma hex_value_iff: "hex_value c = Some d \<longleftrightarrow> d < 16 \<and> HEX_DIGITS ! d = c"
proof
  assume "hex_value c = Some d"
  then have "(c, d) \<in> set (zip HEX_DIGITS [0..<16])"
    unfolding hex_value_def by (rule map_of_SomeD)
  then show "d < 16 \<and> HEX_DIGITS ! d = c"
    by (auto simp: in_set_zip HEX_DIGITS_def)
next
  assume "d < 16 \<and> HEX_DIGITS ! d = c"
  then show "hex_value c = Some d" using hex_value_nth by blast
qed

lemma hex_value_set: "c \<in> set HEX_DIGITS \<longleftrightarrow> (\<exists>d<16. hex_value c = Some d)"
proof -
  have "length HEX_DIGITS = 16" by (simp add: HEX_DIGITS_def)
  then show ?thesis by (auto simp: in_set_conv_nth hex_value_iff)
qed

lemma length_sprintf_cell [simp]: "length (sprintf_cell w) = 16"
  by (simp add: sprintf_cell_def)

lemma sprintf_cell_digs: "sprintf_cell w = map (nth HEX_DIGITS) (digs 16 (unat w))"
  by (simp add: sprintf_cell_def digs_def comp_def)

lemma sprintf_cell_hex: "c \<in> set (sprintf_cell w) \<Longrightarrow> c \<in> set HEX_DIGITS"
  by (auto simp: sprintf_cell_digs hex_value_set hex_value_iff dest!: digs_less)

text \<open>A cell survives printing and reading back.\<close>

lemma sscanf_sprintf: "sscanf_cell (sprintf_cell w @ rest) = Some w"
proof -
  have tw: "takeWhile (\<lambda>c. hex_value c \<noteq> None) (sprintf_cell w) = sprintf_cell w"
    by (rule takeWhile_eq_all_conv [THEN iffD2])
       (auto dest!: sprintf_cell_hex simp: hex_value_set)
  have "map (the \<circ> hex_value) (sprintf_cell w) = digs 16 (unat w)"
    by (auto simp: sprintf_cell_digs hex_value_nth intro!: map_idI dest!: digs_less)
  then have "foldl (\<lambda>v d. v * 16 + d) 0 (map (the \<circ> hex_value) (sprintf_cell w)) = unat w mod 16 ^ 16"
    by (metis digs_val_def digs_val_digs)
  moreover have "unat w < 2 ^ LENGTH(64)" by (rule unsigned_less)
  moreover have "sprintf_cell w \<noteq> []"
    by (metis length_sprintf_cell list.size(3) zero_neq_numeral)
  ultimately show ?thesis by (simp add: sscanf_cell_def tw del: not_None_eq)
qed

text \<open>A string of sixteen digits survives reading and printing.\<close>

lemma sprintf_sscanf:
  assumes "length h = 16" and "set h \<subseteq> set HEX_DIGITS"
  shows "\<exists>w. sscanf_cell (h @ rest) = Some w \<and> sprintf_cell w = h"
proof -
  let ?ds = "map (the \<circ> hex_value) h"
  have ds: "\<forall>d\<in>set ?ds. d < 16" using assms(2) by (fastforce simp: hex_value_set subset_iff)
  have tw: "takeWhile (\<lambda>c. hex_value c \<noteq> None) h = h"
    using assms(2) by (auto simp: takeWhile_eq_all_conv hex_value_set subset_iff)
  have "h \<noteq> []" using assms(1) by auto
  then have sc: "sscanf_cell (h @ rest) = Some (of_nat (digs_val ?ds))"
    using assms(1) by (simp add: sscanf_cell_def digs_val_def tw del: not_None_eq)
  have "digs_val ?ds < 16 ^ 16" using digs_val_bound [OF ds] assms(1) by simp
  then have "unat (of_nat (digs_val ?ds) :: 64 word) = digs_val ?ds"
    by (simp add: unat_of_nat)
  then have "digs 16 (unat (of_nat (digs_val ?ds) :: 64 word)) = ?ds"
    using digs_digs_val [OF ds] assms(1) by simp
  moreover have "map (nth HEX_DIGITS) ?ds = h"
  proof -
    have "HEX_DIGITS ! the (hex_value c) = c" if "c \<in> set h" for c
      using assms(2) that hex_value_set [of c] hex_value_iff [of c] by (metis option.sel subsetD)
    then show ?thesis by (auto intro: map_idI)
  qed
  ultimately show ?thesis using sc by (auto simp: sprintf_cell_digs)
qed


lemma hex_size: "EXA_NODESET_HEX_SIZE = 32"
  by (simp add: EXA_NODESET_HEX_SIZE_def nodeset_consts)

lemma to_hex_cells: "exa_nodeset_to_hex s = sprintf_cell (cell1 s) @ sprintf_cell (cell0 s)"
  by (simp add: exa_nodeset_to_hex_def get_cell_def)

lemma from_hex_cells:
  assumes "length hi = 16" "length lo = 16" "set hi \<subseteq> set HEX_DIGITS" "set lo \<subseteq> set HEX_DIGITS"
    and "\<And>rest. sscanf_cell (hi @ rest) = Some c1" "sscanf_cell lo = Some c0"
  shows "exa_nodeset_from_hex s0 (hi @ lo) = Inr (Nodeset c0 c1)"
proof -
  have tw: "takeWhile (\<lambda>c. c \<in> set HEX_DIGITS) (hi @ lo) = hi @ lo"
    using assms(3,4) by (auto simp: takeWhile_eq_all_conv)
  have "length (takeWhile (\<lambda>c. c \<in> set HEX_DIGITS) (hi @ lo)) = 32"
    unfolding tw using assms(1,2) by simp
  with assms show ?thesis
    by (simp add: exa_nodeset_from_hex_def hex_size EXA_NODESET_BITS_PER_CELL_def set_cell_def
        del: takeWhile_append1 takeWhile_append2)
qed

lemma from_hex_accepts:
  assumes "exa_nodeset_from_hex s0 h = Inr s"
  shows "length h = 32 \<and> set h \<subseteq> set HEX_DIGITS"
proof -
  from assms have len: "length h = 32"
    and tw: "length (takeWhile (\<lambda>c. c \<in> set HEX_DIGITS) h) = 32"
    by (auto simp: exa_nodeset_from_hex_def hex_size split: if_splits)
  then have "takeWhile (\<lambda>c. c \<in> set HEX_DIGITS) h = h"
    by (metis takeWhile_eq_take take_all order_refl)
  with len show ?thesis by (auto simp: takeWhile_eq_all_conv)
qed

text \<open>C40: the hexadecimal form of a node set is a faithful encoding. Reading what
  \<open>exa_nodeset_to_hex\<close> printed gives the node set back, and a string that
  \<open>exa_nodeset_from_hex\<close> accepts is the one \<open>exa_nodeset_to_hex\<close> prints for the result,
  whatever the destination held before.\<close>

theorem nodeset_hex_round_trip:
  "exa_nodeset_from_hex s0 (exa_nodeset_to_hex s) = Inr s
   \<and> (exa_nodeset_from_hex s0 h = Inr t \<longrightarrow> exa_nodeset_to_hex t = h)"
proof (intro conjI impI)
  have "exa_nodeset_from_hex s0 (sprintf_cell (cell1 s) @ sprintf_cell (cell0 s))
      = Inr (Nodeset (cell0 s) (cell1 s))"
    using sscanf_sprintf [of "cell0 s" "[]"]
    by (intro from_hex_cells) (auto simp: sscanf_sprintf dest: sprintf_cell_hex)
  then show "exa_nodeset_from_hex s0 (exa_nodeset_to_hex s) = Inr s"
    by (simp add: to_hex_cells)
next
  assume h: "exa_nodeset_from_hex s0 h = Inr t"
  let ?hi = "take 16 h" and ?lo = "drop 16 h"
  from from_hex_accepts [OF h] have len: "length ?hi = 16" "length ?lo = 16"
    and dig: "set ?hi \<subseteq> set HEX_DIGITS" "set ?lo \<subseteq> set HEX_DIGITS"
    using set_take_subset [of 16 h] set_drop_subset [of 16 h] by auto
  obtain c1 where c1: "sscanf_cell (?hi @ []) = Some c1" "sprintf_cell c1 = ?hi"
    using sprintf_sscanf [OF len(1) dig(1)] by blast
  obtain c0 where c0: "sscanf_cell (?lo @ []) = Some c0" "sprintf_cell c0 = ?lo"
    using sprintf_sscanf [OF len(2) dig(2)] by blast
  have "sscanf_cell (?hi @ rest) = Some c1" for rest
    using sscanf_sprintf [of c1 rest] c1(2) by simp
  then have "exa_nodeset_from_hex s0 (?hi @ ?lo) = Inr (Nodeset c0 c1)"
    using len dig c0 by (intro from_hex_cells) auto
  with h have "t = Nodeset c0 c1" by simp
  with c0 c1 show "exa_nodeset_to_hex t = h" by (simp add: to_hex_cells)
qed

theorem nodeset_hex_round_trip_witness:
  "exa_nodeset_from_hex EXA_NODESET_EMPTY (exa_nodeset_to_hex (Nodeset 5 255)) = Inr (Nodeset 5 255)
   \<and> exa_nodeset_to_hex (Nodeset 5 255) = ''00000000000000ff0000000000000005''"
proof -
  have h: "exa_nodeset_from_hex EXA_NODESET_EMPTY ''00000000000000ff0000000000000005''
      = Inr (Nodeset 5 255)"
    by code_simp
  show ?thesis
    using nodeset_hex_round_trip [of EXA_NODESET_EMPTY "Nodeset 5 255"
        "''00000000000000ff0000000000000005''" "Nodeset 5 255"] h by simp
qed

section \<open>The node set interface\<close>

text \<open>What the clients of node sets (the supervisor, the spofs, the storage) rely on. The
  derived laws are the idioms of the C code: copy one set, intersect or subtract another,
  test for emptiness.\<close>

locale node_sets =
  fixes elems :: "'n \<Rightarrow> nat set"
    and empty :: 'n
    and contains :: "'n \<Rightarrow> nat \<Rightarrow> bool option"
    and add :: "'n \<Rightarrow> nat \<Rightarrow> 'n option"
    and del :: "'n \<Rightarrow> nat \<Rightarrow> 'n option"
    and substract :: "'n \<Rightarrow> 'n \<Rightarrow> 'n"
    and intersect :: "'n \<Rightarrow> 'n \<Rightarrow> 'n"
    and is_empty :: "'n \<Rightarrow> bool"
    and equals :: "'n \<Rightarrow> 'n \<Rightarrow> bool"
    and bound :: nat
  assumes elems_empty: "elems empty = {}"
    and elems_bound: "elems s \<subseteq> {..<bound}"
    and contains_elems: "i < bound \<Longrightarrow> contains s i = Some (i \<in> elems s)"
    and add_elems: "i < bound \<Longrightarrow> \<exists>t. add s i = Some t \<and> elems t = insert i (elems s)"
    and del_elems: "i < bound \<Longrightarrow> \<exists>t. del s i = Some t \<and> elems t = elems s - {i}"
    and substract_elems: "elems (substract s t) = elems s - elems t"
    and intersect_elems: "elems (intersect s t) = elems s \<inter> elems t"
    and is_empty_elems: "is_empty s \<longleftrightarrow> elems s = {}"
    and equals_elems: "equals s t \<longleftrightarrow> elems s = elems t"
begin

lemma disjoint_idiom: "is_empty (intersect a b) \<longleftrightarrow> elems a \<inter> elems b = {}"
  by (simp add: is_empty_elems intersect_elems)

lemma included_idiom: "equals (intersect a b) a \<longleftrightarrow> elems a \<subseteq> elems b"
  by (auto simp: equals_elems intersect_elems)

text \<open>Nobody in \<open>members\<close> is among the known nodes that \<open>seen\<close> misses.\<close>

lemma sees_all_idiom:
  assumes "elems members \<subseteq> elems known"
  shows "is_empty (intersect (substract known seen) members) \<longleftrightarrow> elems members \<subseteq> elems seen"
  using assms by (auto simp: is_empty_elems intersect_elems substract_elems)

lemma add_then_contains:
  assumes "add s i = Some t" and "i < bound" and "j < bound"
  shows "contains t j = Some (j = i \<or> j \<in> elems s)"
  using add_elems [OF assms(2), of s] assms(1) contains_elems [OF assms(3), of t] by auto

lemma del_then_contains:
  assumes "del s i = Some t" and "i < bound" and "j < bound"
  shows "contains t j = Some (j \<noteq> i \<and> j \<in> elems s)"
  using del_elems [OF assms(2), of s] assms(1) contains_elems [OF assms(3), of t] by auto

end

interpretation ns: node_sets ns_elems exa_nodeset_reset exa_nodeset_contains exa_nodeset_add
  exa_nodeset_del exa_nodeset_substract exa_nodeset_intersect exa_nodeset_is_empty
  exa_nodeset_equals EXA_MAX_NODES_NUMBER
  by unfold_locales (use ns_elems_subset in \<open>auto simp: nodeset_simps\<close>)

lemma exa_nodeset_included_iff [nodeset_simps]:
  "exa_nodeset_included a b \<longleftrightarrow> ns_elems a \<subseteq> ns_elems b"
  by (simp add: exa_nodeset_included_def exa_nodeset_copy_def ns.included_idiom)

lemma exa_nodeset_disjoint_iff [nodeset_simps]:
  "exa_nodeset_disjoint a b \<longleftrightarrow> ns_elems a \<inter> ns_elems b = {}"
  by (simp add: exa_nodeset_disjoint_def exa_nodeset_copy_def ns.disjoint_idiom)

end
