(* ===== verification/Exa_Uuid.thy ===== *)
theory Exa_Uuid
  imports Exa_Nodeset
begin

text \<open>
  The universal unique identifiers (\<open>common/lib/uuid.c\<close>, \<open>common/include/uuid.h\<close>): four 32-bit
  numbers, their comparison, and their text form, four groups of eight upper case hexadecimal
  digits with a separator. The comparison makes them a linear order. The random generation of
  an identifier is left out.
\<close>

datatype exa_uuid = Exa_Uuid (uuid_id0: "32 word") (uuid_id1: "32 word") (uuid_id2: "32 word") (uuid_id3: "32 word")

definition uuid_ids :: "exa_uuid \<Rightarrow> 32 word list" where
  "uuid_ids u = [uuid_id0 u, uuid_id1 u, uuid_id2 u, uuid_id3 u]"

definition exa_uuid_zero :: exa_uuid where
  "exa_uuid_zero = Exa_Uuid 0 0 0 0"

fun ids_equal :: "32 word list \<Rightarrow> 32 word list \<Rightarrow> bool" where
  "ids_equal (a # as) (b # bs) = (if a \<noteq> b then False else ids_equal as bs)"
| "ids_equal _ _ = True"

definition uuid_is_equal :: "exa_uuid \<Rightarrow> exa_uuid \<Rightarrow> bool" where
  "uuid_is_equal uuid1 uuid2 = ids_equal (uuid_ids uuid1) (uuid_ids uuid2)"

fun ids_compare :: "32 word list \<Rightarrow> 32 word list \<Rightarrow> int" where
  "ids_compare (a # as) (b # bs) = (if a > b then 1 else if a < b then - 1 else ids_compare as bs)"
| "ids_compare _ _ = 0"

definition uuid_compare :: "exa_uuid \<Rightarrow> exa_uuid \<Rightarrow> int" where
  "uuid_compare uuid1 uuid2 = ids_compare (uuid_ids uuid1) (uuid_ids uuid2)"

definition uuid_is_zero :: "exa_uuid \<Rightarrow> bool" where
  "uuid_is_zero uuid = list_all (\<lambda>i. i = 0) (uuid_ids uuid)"

definition uuid_copy :: "exa_uuid \<Rightarrow> exa_uuid" where
  "uuid_copy uuid_src = Exa_Uuid (uuid_id0 uuid_src) (uuid_id1 uuid_src) (uuid_id2 uuid_src) (uuid_id3 uuid_src)"

definition uuid_zero :: exa_uuid where
  "uuid_zero = Exa_Uuid 0 0 0 0"

section \<open>The text form\<close>

definition UHEX_DIGITS :: string where
  "UHEX_DIGITS = ''0123456789ABCDEF''"

definition uhex_value :: "char \<Rightarrow> nat" where
  "uhex_value c = the (map_of (zip UHEX_DIGITS [0..<16]) c)"

text \<open>The conversion \<open>%08X\<close> of \<open>snprintf\<close>, and of \<open>sscanf\<close> on eight upper case digits.\<close>

definition sprintf_08X :: "32 word \<Rightarrow> string" where
  "sprintf_08X w = map (\<lambda>d. UHEX_DIGITS ! d) (digs 8 (unat w))"

definition sscanf_08X :: "string \<Rightarrow> 32 word" where
  "sscanf_08X str = of_nat (digs_val (map uhex_value str))"

definition UUID_STR_LEN :: nat where
  "UUID_STR_LEN = 35"

definition uuid2str_with_sep :: "exa_uuid \<Rightarrow> char \<Rightarrow> string" where
  "uuid2str_with_sep uuid sep =
     sprintf_08X (uuid_id0 uuid) @ [sep] @ sprintf_08X (uuid_id1 uuid) @ [sep] @
     sprintf_08X (uuid_id2 uuid) @ [sep] @ sprintf_08X (uuid_id3 uuid)"

text \<open>The group of eight characters that starts at an offset, cut out by the terminators the code
  puts in its copy, and the test that it holds digits only.\<close>

definition uuid_group :: "string \<Rightarrow> nat \<Rightarrow> string" where
  "uuid_group str ofs = take 8 (drop ofs str)"

definition group_ok :: "string \<Rightarrow> nat \<Rightarrow> bool" where
  "group_ok str ofs = (length (takeWhile (\<lambda>c. c \<in> set UHEX_DIGITS) (uuid_group str ofs)) = 8)"

definition uuid_scan_with_sep :: "string \<Rightarrow> char \<Rightarrow> errcode + exa_uuid" where
  "uuid_scan_with_sep str sep =
     (if length str \<noteq> UUID_STR_LEN then Inl EXA_ERR_UUID
      else if \<not> group_ok str 0 \<or> \<not> group_ok str 9 \<or> \<not> group_ok str 18 \<or> \<not> group_ok str 27 then Inl EXA_ERR_UUID
      else (let uuid = Exa_Uuid (sscanf_08X (uuid_group str 0)) (sscanf_08X (uuid_group str 9))
                         (sscanf_08X (uuid_group str 18)) (sscanf_08X (uuid_group str 27))
            in if str ! 8 \<noteq> sep \<or> str ! 17 \<noteq> sep \<or> str ! 26 \<noteq> sep then Inl EXA_ERR_UUID else Inr uuid))"

section \<open>Comparison\<close>

lemma uuid_is_equal_iff [simp]: "uuid_is_equal a b \<longleftrightarrow> a = b"
  by (cases a; cases b) (auto simp: uuid_is_equal_def uuid_ids_def)

lemma uuid_copy_id [simp]: "uuid_copy u = u"
  by (simp add: uuid_copy_def)

lemma uuid_is_zero_iff [simp]: "uuid_is_zero u \<longleftrightarrow> u = uuid_zero"
  by (cases u) (auto simp: uuid_is_zero_def uuid_zero_def uuid_ids_def)

lemma ids_compare_le:
  "length as = length bs \<Longrightarrow> ids_compare as bs \<le> 0 \<longleftrightarrow> as = bs \<or> (as, bs) \<in> lexord {(x, y). x < y}"
  by (induction as bs rule: ids_compare.induct) auto

lemma ids_compare_neg:
  "length as = length bs \<Longrightarrow> ids_compare as bs < 0 \<longleftrightarrow> (as, bs) \<in> lexord {(x, y). x < y}"
  by (induction as bs rule: ids_compare.induct) auto

lemma length_uuid_ids [simp]: "length (uuid_ids u) = 4"
  by (simp add: uuid_ids_def)

instantiation exa_uuid :: linorder
begin

definition less_eq_exa_uuid :: "exa_uuid \<Rightarrow> exa_uuid \<Rightarrow> bool" where
  "less_eq_exa_uuid a b \<longleftrightarrow> uuid_compare a b \<le> 0"

definition less_exa_uuid :: "exa_uuid \<Rightarrow> exa_uuid \<Rightarrow> bool" where
  "less_exa_uuid a b \<longleftrightarrow> uuid_compare a b < 0"

instance
proof
  fix x y z :: exa_uuid
  have inj: "uuid_ids a = uuid_ids b \<longleftrightarrow> a = b" for a b by (cases a; cases b) (auto simp: uuid_ids_def)
  have le: "a \<le> b \<longleftrightarrow> a = b \<or> (uuid_ids a, uuid_ids b) \<in> lexord {(x, y). x < y}" for a b
    using ids_compare_le [of "uuid_ids a" "uuid_ids b"] by (simp add: less_eq_exa_uuid_def uuid_compare_def inj)
  have lt: "a < b \<longleftrightarrow> (uuid_ids a, uuid_ids b) \<in> lexord {(x, y). x < y}" for a b
    using ids_compare_neg [of "uuid_ids a" "uuid_ids b"] by (simp add: less_exa_uuid_def uuid_compare_def)
  have as: "(uuid_ids b, uuid_ids a) \<notin> lexord {(x, y). x < y}" if "(uuid_ids a, uuid_ids b) \<in> lexord {(x :: 32 word, y). x < y}" for a b
  proof -
    have "asym (lexord {(x :: 32 word, y). x < y})" by (intro lexord_asym asymI) auto
    with that show ?thesis by (rule asymD [rotated])
  qed
  have irr: "(uuid_ids a, uuid_ids a) \<notin> lexord {(x :: 32 word, y). x < y}" for a using as by blast
  show "x < y \<longleftrightarrow> x \<le> y \<and> \<not> y \<le> x" using as irr by (auto simp: le lt)
  show "x \<le> x" by (simp add: le)
  show "x \<le> z" if "x \<le> y" "y \<le> z"
  proof -
    have "trans {(x :: 32 word, y). x < y}" by (auto intro: transI)
    with that show ?thesis by (auto simp: le dest: lexord_trans)
  qed
  show "x = y" if "x \<le> y" "y \<le> x" using that as by (auto simp: le)
  show "x \<le> y \<or> y \<le> x"
  proof -
    have "\<forall>a b :: 32 word. (a, b) \<in> {(x, y). x < y} \<or> a = b \<or> (b, a) \<in> {(x, y). x < y}" by auto
    from lexord_linear [OF this, of "uuid_ids x" "uuid_ids y"] inj show ?thesis by (auto simp: le)
  qed
qed

end

section \<open>Round trips of the text form\<close>

lemma uhex_value_nth: "d < 16 \<Longrightarrow> uhex_value (UHEX_DIGITS ! d) = d"
proof -
  have "\<forall>d \<in> set [0..<16]. uhex_value (UHEX_DIGITS ! d) = d"
    by (simp add: uhex_value_def UHEX_DIGITS_def upt_rec)
  then show "d < 16 \<Longrightarrow> uhex_value (UHEX_DIGITS ! d) = d" by simp
qed

lemma uhex_digit: "c \<in> set UHEX_DIGITS \<Longrightarrow> UHEX_DIGITS ! uhex_value c = c \<and> uhex_value c < 16"
proof -
  have len: "length UHEX_DIGITS = 16" by (simp add: UHEX_DIGITS_def)
  then show "c \<in> set UHEX_DIGITS \<Longrightarrow> UHEX_DIGITS ! uhex_value c = c \<and> uhex_value c < 16"
    by (auto simp: in_set_conv_nth uhex_value_nth)
qed

lemma scan_print_08X: "sscanf_08X (sprintf_08X w) = w"
proof -
  have "map uhex_value (map (\<lambda>d. UHEX_DIGITS ! d) (digs 8 (unat w))) = digs 8 (unat w)"
    by (simp add: map_idI uhex_value_nth digs_less)
  moreover have "unat w < 16 ^ 8" using unsigned_less [of w] by simp
  then have "unat w mod 16 ^ 8 = unat w" by (rule mod_less)
  ultimately show ?thesis unfolding sscanf_08X_def sprintf_08X_def by (simp only: digs_val_digs of_nat_unat ucast_id)
qed

lemma print_scan_08X:
  assumes "length s = 8" "set s \<subseteq> set UHEX_DIGITS"
  shows "sprintf_08X (sscanf_08X s) = s"
proof -
  let ?ds = "map uhex_value s"
  have lt: "\<forall>d \<in> set ?ds. d < 16" using assms(2) uhex_digit by auto
  have "digs_val ?ds < 2 ^ 32" using digs_val_bound [OF lt] assms(1) by simp
  then have "unat (of_nat (digs_val ?ds) :: 32 word) = digs_val ?ds" by (simp add: unat_of_nat)
  moreover have "digs 8 (digs_val ?ds) = ?ds" using digs_digs_val [OF lt] assms(1) by simp
  moreover have "map ((!) UHEX_DIGITS \<circ> uhex_value) s = s" using assms(2) uhex_digit by (intro map_idI) auto
  ultimately show ?thesis unfolding sprintf_08X_def sscanf_08X_def by simp
qed

lemma sprintf_08X_shape [simp]: "length (sprintf_08X w) = 8" "set (sprintf_08X w) \<subseteq> set UHEX_DIGITS"
proof -
  have "length UHEX_DIGITS = 16" by (simp add: UHEX_DIGITS_def)
  then show "set (sprintf_08X w) \<subseteq> set UHEX_DIGITS" by (auto simp: sprintf_08X_def dest: digs_less)
qed (simp add: sprintf_08X_def)

lemma group_ok_iff: "length str = 35 \<Longrightarrow> ofs \<le> 27 \<Longrightarrow> group_ok str ofs \<longleftrightarrow> set (uuid_group str ofs) \<subseteq> set UHEX_DIGITS"
proof -
  assume "length str = 35" "ofs \<le> 27"
  then have len: "length (uuid_group str ofs) = 8" by (simp add: uuid_group_def)
  show ?thesis
  proof
    assume "group_ok str ofs"
    then have "takeWhile (\<lambda>c. c \<in> set UHEX_DIGITS) (uuid_group str ofs) = uuid_group str ofs"
      using len unfolding group_ok_def by (metis takeWhile_eq_take take_all order_refl)
    then show "set (uuid_group str ofs) \<subseteq> set UHEX_DIGITS" by (metis set_takeWhileD subsetI)
  next
    assume "set (uuid_group str ofs) \<subseteq> set UHEX_DIGITS"
    then show "group_ok str ofs" using len unfolding group_ok_def by (simp add: subset_iff takeWhile_eq_all_conv [THEN iffD2])
  qed
qed

lemma uuid_string_parts:
  assumes "length str = 35"
  shows "str = uuid_group str 0 @ [str ! 8] @ uuid_group str 9 @ [str ! 17] @ uuid_group str 18 @ [str ! 26] @ uuid_group str 27"
proof -
  have g: "drop a str = uuid_group str a @ drop (a + 8) str" for a
    by (simp add: uuid_group_def) (metis append_take_drop_id drop_drop add.commute)
  have c: "drop a str = [str ! a] @ drop (a + 1) str" if "a < 35" for a
    using that assms by (simp add: Cons_nth_drop_Suc)
  have "str = drop 0 str" by simp
  also have "\<dots> = uuid_group str 0 @ [str ! 8] @ uuid_group str 9 @ [str ! 17] @ uuid_group str 18 @ [str ! 26] @ uuid_group str 27 @ drop 35 str"
    by (subst g, subst c, simp, subst g, subst c, simp, subst g, subst c, simp, subst g) simp
  finally show ?thesis using assms by simp
qed

lemma group_of_text:
  "uuid_group (uuid2str_with_sep u sep) 0 = sprintf_08X (uuid_id0 u)"
  "uuid_group (uuid2str_with_sep u sep) 9 = sprintf_08X (uuid_id1 u)"
  "uuid_group (uuid2str_with_sep u sep) 18 = sprintf_08X (uuid_id2 u)"
  "uuid_group (uuid2str_with_sep u sep) 27 = sprintf_08X (uuid_id3 u)"
  by (simp_all add: uuid_group_def uuid2str_with_sep_def)

lemma scan_of_text: "uuid_scan_with_sep (uuid2str_with_sep u sep) sep = Inr u"
proof -
  let ?s = "uuid2str_with_sep u sep"
  have len: "length ?s = 35" by (simp add: uuid2str_with_sep_def)
  have "?s ! 8 = sep" "?s ! 17 = sep" "?s ! 26 = sep"
    by (simp_all add: uuid2str_with_sep_def nth_append)
  then show ?thesis
    using len by (cases u) (simp add: uuid_scan_with_sep_def UUID_STR_LEN_def group_ok_iff group_of_text scan_print_08X)
qed

lemma text_of_scan:
  assumes "uuid_scan_with_sep str sep = Inr u"
  shows "str = uuid2str_with_sep u sep"
proof -
  have len: "length str = 35" and sep: "str ! 8 = sep" "str ! 17 = sep" "str ! 26 = sep"
    and ok: "group_ok str 0" "group_ok str 9" "group_ok str 18" "group_ok str 27"
    and u: "u = Exa_Uuid (sscanf_08X (uuid_group str 0)) (sscanf_08X (uuid_group str 9))
                  (sscanf_08X (uuid_group str 18)) (sscanf_08X (uuid_group str 27))"
    using assms by (auto simp: uuid_scan_with_sep_def UUID_STR_LEN_def Let_def split: if_splits)
  have "sprintf_08X (sscanf_08X (uuid_group str ofs)) = uuid_group str ofs" if "group_ok str ofs" "ofs \<le> 27" for ofs
    using that len group_ok_iff [OF len that(2)] by (intro print_scan_08X) (simp_all add: uuid_group_def)
  with ok have "uuid2str_with_sep u sep =
      uuid_group str 0 @ [sep] @ uuid_group str 9 @ [sep] @ uuid_group str 18 @ [sep] @ uuid_group str 27"
    by (simp add: uuid2str_with_sep_def u)
  with uuid_string_parts [OF len] sep show ?thesis by simp
qed

text \<open>C34: the text form of an identifier is read back as the same identifier, and every text that
  the parser accepts is the text form of what it returns; texts of another length, with other
  characters in a group or with another separator are refused with \<open>-EXA_ERR_UUID\<close>.\<close>

theorem uuid_text_round_trip:
  "(uuid_scan_with_sep str sep = Inr v \<longleftrightarrow> str = uuid2str_with_sep v sep) \<and>
   (uuid_scan_with_sep str sep = Inl EXA_ERR_UUID \<longleftrightarrow> (\<forall>u. str \<noteq> uuid2str_with_sep u sep))"
proof -
  have ok: "uuid_scan_with_sep (uuid2str_with_sep u sep) sep = Inr u" for u by (rule scan_of_text)
  have inv: "str = uuid2str_with_sep u sep" if "uuid_scan_with_sep str sep = Inr u" for u
    using that by (rule text_of_scan)
  have "uuid_scan_with_sep str sep = Inl EXA_ERR_UUID \<or> (\<exists>u. uuid_scan_with_sep str sep = Inr u)"
    by (auto simp: uuid_scan_with_sep_def Let_def)
  with ok inv show ?thesis by (metis Inl_Inr_False)
qed

end
