(* ===== verification/Sup_View.thy ===== *)
theory Sup_View
  imports Exa_Nodeset
begin

text \<open>
  A node's view of the cluster (\<open>csupd/src/sup_view.c\<close>, \<open>csupd/src/sup_view.h\<close>): the state of
  the membership agreement, the nodes seen, the work clique, the coordinator and the two
  membership generations. \<open>num_seen\<close> caches one more than the highest node seen, so that
  the daemon's loops can stop early; \<open>view_wf\<close> is that cache invariant and the two
  operations keep it.
\<close>

datatype sup_state = SUP_STATE_UNKNOWN | SUP_STATE_CHANGE | SUP_STATE_ACCEPT | SUP_STATE_COMMIT

text \<open>A membership generation is an \<open>unsigned\<close>; its arithmetic wraps.\<close>

type_synonym sup_gen = "32 word"

record sup_view =
  state :: sup_state
  num_seen :: nat
  nodes_seen :: exa_nodeset
  clique :: exa_nodeset
  coord :: exa_nodeid
  accepted :: sup_gen
  committed :: sup_gen

definition sup_view_init :: sup_view where
  "sup_view_init =
     \<lparr> state = SUP_STATE_UNKNOWN, num_seen = 0, nodes_seen = exa_nodeset_reset,
       clique = exa_nodeset_reset, coord = EXA_NODEID_NONE, accepted = 0, committed = 0 \<rparr>"

definition sup_view_add_node :: "sup_view \<Rightarrow> exa_nodeid \<Rightarrow> sup_view option" where
  "sup_view_add_node view node_id = do {
     seen \<leftarrow> exa_nodeset_add (nodes_seen view) node_id;
     let view = view\<lparr>nodes_seen := seen\<rparr>;
     Some (if node_id \<ge> num_seen view then view\<lparr>num_seen := node_id + 1\<rparr> else view) }"

text \<open>The loop of \<open>sup_view_del_node\<close>: down to the next node seen, or to 0.\<close>

primrec highest_seen_below :: "exa_nodeset \<Rightarrow> exa_nodeid \<Rightarrow> exa_nodeid option" where
  "highest_seen_below seen 0 = Some 0"
| "highest_seen_below seen (Suc n) = do {
     c \<leftarrow> exa_nodeset_contains seen (Suc n);
     if c then Some (Suc n) else highest_seen_below seen n }"

text \<open>The C test \<open>node_id == view->num_seen - 1\<close> is on unsigned values: it is false when
  \<open>num_seen\<close> is 0.\<close>

definition sup_view_del_node :: "sup_view \<Rightarrow> exa_nodeid \<Rightarrow> sup_view option" where
  "sup_view_del_node view node_id = do {
     seen \<leftarrow> exa_nodeset_del (nodes_seen view) node_id;
     let view = view\<lparr>nodes_seen := seen\<rparr>;
     if node_id + 1 = num_seen view
     then do {
       n \<leftarrow> highest_seen_below seen node_id;
       c \<leftarrow> exa_nodeset_contains seen n;
       Some (if c then view\<lparr>num_seen := n + 1\<rparr> else view\<lparr>num_seen := 0\<rparr>) }
     else Some view }"

definition sup_view_copy :: "sup_view \<Rightarrow> sup_view" where
  "sup_view_copy src = src"

definition sup_view_equals :: "sup_view \<Rightarrow> sup_view \<Rightarrow> bool" where
  "sup_view_equals v1 v2 \<longleftrightarrow>
     coord v1 = coord v2 \<and> exa_nodeset_equals (nodes_seen v1) (nodes_seen v2)"

section \<open>The cached bound\<close>

definition view_wf :: "sup_view \<Rightarrow> bool" where
  "view_wf v \<longleftrightarrow> num_seen v =
     (if ns_elems (nodes_seen v) = {} then 0 else Max (ns_elems (nodes_seen v)) + 1)"

lemma view_wf_init: "view_wf sup_view_init"
  by (simp add: view_wf_def sup_view_init_def nodeset_simps)

lemma view_wf_bound: "view_wf v \<Longrightarrow> i \<in> ns_elems (nodes_seen v) \<Longrightarrow> i < num_seen v"
  by (auto simp: view_wf_def less_Suc_eq_le)

lemma view_wf_num_seen: "view_wf v \<Longrightarrow> num_seen v \<le> EXA_MAX_NODES_NUMBER"
  using ns_elems_bounded by (auto simp: view_wf_def Suc_le_eq)

lemma sup_view_add_node_eq:
  assumes "i < EXA_MAX_NODES_NUMBER"
  shows "sup_view_add_node v i =
    Some (v\<lparr>nodes_seen := ns_ins (nodes_seen v) i, num_seen := max (num_seen v) (Suc i)\<rparr>)"
  using assms by (cases v) (auto simp: sup_view_add_node_def Let_def max_def)

lemma view_wf_add:
  assumes "view_wf v" "i < EXA_MAX_NODES_NUMBER"
  shows "view_wf (v\<lparr>nodes_seen := ns_ins (nodes_seen v) i, num_seen := max (num_seen v) (Suc i)\<rparr>)"
  using assms
  by (cases "ns_elems (nodes_seen v) = {}") (simp_all add: view_wf_def nodeset_simps max.commute)

lemma highest_seen_below_spec:
  assumes "n < EXA_MAX_NODES_NUMBER"
  shows "\<exists>m. highest_seen_below s n = Some m \<and> m \<le> n \<and>
    (\<forall>i. m < i \<and> i \<le> n \<longrightarrow> i \<notin> ns_elems s) \<and> (m \<noteq> 0 \<longrightarrow> m \<in> ns_elems s)"
  using assms
proof (induction n)
  case (Suc n)
  then show ?case
  proof (cases "Suc n \<in> ns_elems s")
    case False
    from Suc obtain m where "highest_seen_below s n = Some m" "m \<le> n"
      "\<forall>i. m < i \<and> i \<le> n \<longrightarrow> i \<notin> ns_elems s" "m \<noteq> 0 \<longrightarrow> m \<in> ns_elems s" by auto
    with False Suc.prems show ?thesis by (auto simp: le_Suc_eq)
  qed auto
qed simp

text \<open>What removing a node does: the seen set loses exactly that node, everything but the
  seen set and its cached bound stays, and the bound is exact again.\<close>

lemma sup_view_del_node_spec:
  assumes wf: "view_wf v" and i: "i < EXA_MAX_NODES_NUMBER"
  shows "\<exists>n. sup_view_del_node v i = Some (v\<lparr>nodes_seen := ns_rem (nodes_seen v) i, num_seen := n\<rparr>)
    \<and> view_wf (v\<lparr>nodes_seen := ns_rem (nodes_seen v) i, num_seen := n\<rparr>) \<and> n \<le> num_seen v"
proof (cases "i + 1 = num_seen v")
  case False
  let ?E = "ns_elems (nodes_seen v)"
  have "(if ?E - {i} = {} then 0 else Max (?E - {i}) + 1) = num_seen v"
  proof (cases "i \<in> ?E")
    case True
    with wf False have "Max ?E \<noteq> i" "?E \<noteq> {}" by (auto simp: view_wf_def split: if_splits)
    then have "Max ?E \<in> ?E - {i}" by simp
    then have "Max (?E - {i}) = Max ?E" by (intro Max_eqI) auto
    with \<open>Max ?E \<in> ?E - {i}\<close> wf show ?thesis by (auto simp: view_wf_def)
  next
    case False
    with wf show ?thesis by (simp add: view_wf_def)
  qed
  with False i show ?thesis
    by (intro exI [of _ "num_seen v"]) (simp add: sup_view_del_node_def view_wf_def nodeset_simps split: if_splits)
next
  case True
  let ?s = "ns_rem (nodes_seen v) i"
  obtain m where m: "highest_seen_below ?s i = Some m" "m \<le> i"
    "\<forall>j. m < j \<and> j \<le> i \<longrightarrow> j \<notin> ns_elems ?s" "m \<noteq> 0 \<longrightarrow> m \<in> ns_elems ?s"
    using highest_seen_below_spec [OF i, of ?s] by blast
  have below: "j \<le> m" if "j \<in> ns_elems ?s" for j
  proof -
    have "j \<in> ns_elems (nodes_seen v)" using that i by (simp add: nodeset_simps)
    with wf True have "j \<le> i" using view_wf_bound by fastforce
    with m(3) that show ?thesis by (meson not_le)
  qed
  have "m \<in> ns_elems ?s \<Longrightarrow> Max (ns_elems ?s) = m" using below by (intro Max_eqI) auto
  moreover have "m \<notin> ns_elems ?s \<Longrightarrow> ns_elems ?s = {}" using below m(4) by (metis all_not_in_conv le_zero_eq)
  ultimately show ?thesis
    using True i m
    by (intro exI [of _ "if m \<in> ns_elems ?s then m + 1 else 0"])
       (auto simp: sup_view_del_node_def view_wf_def)
qed

text \<open>Adding and removing nodes keeps the view's cached bound exact, so the bound the
  daemon's loops stop at is one more than the highest node seen, and the seen set changes by
  exactly the given node.\<close>

lemma view_bound_exact:
  assumes "view_wf v" and "i < EXA_MAX_NODES_NUMBER"
  shows "(\<exists>a. sup_view_add_node v i = Some a \<and> view_wf a \<and>
           ns_elems (nodes_seen a) = insert i (ns_elems (nodes_seen v)))
       \<and> (\<exists>d. sup_view_del_node v i = Some d \<and> view_wf d \<and>
           ns_elems (nodes_seen d) = ns_elems (nodes_seen v) - {i})"
proof
  show "\<exists>a. sup_view_add_node v i = Some a \<and> view_wf a \<and>
      ns_elems (nodes_seen a) = insert i (ns_elems (nodes_seen v))"
    using assms by (simp add: sup_view_add_node_eq view_wf_add nodeset_simps)
  show "\<exists>d. sup_view_del_node v i = Some d \<and> view_wf d \<and>
      ns_elems (nodes_seen d) = ns_elems (nodes_seen v) - {i}"
    using sup_view_del_node_spec [OF assms] assms(2) by (auto simp: nodeset_simps)
qed

end
