(* ===== verification/Sup_Cluster.thy ===== *)
theory Sup_Cluster
  imports Sup_View
begin

text \<open>
  The supervisor's table of nodes (\<open>csupd/src/sup_cluster.c\<close>, \<open>csupd/src/sup_cluster.h\<close>).
  The C array \<open>nodes[EXA_MAX_NODES_NUMBER]\<close> is a list of that length, a pointer to one of
  its elements is the index of the element, and \<open>NULL\<close> is \<open>None\<close>. \<open>cluster_wf\<close> says how the
  array, the set of known nodes and the node count agree.
\<close>

record sup_node =
  id :: exa_nodeid
  incarnation :: nat
  view :: sup_view
  last_seen :: int

definition sup_node_defined :: "sup_node \<Rightarrow> bool" where
  "sup_node_defined n \<longleftrightarrow> id n < EXA_MAX_NODES_NUMBER \<and> id n \<noteq> EXA_NODEID_NONE"

definition sup_node_init :: sup_node where
  "sup_node_init = \<lparr> id = EXA_NODEID_NONE, incarnation = 0, view = sup_view_init, last_seen = 0 \<rparr>"

record sup_cluster =
  nodes :: "sup_node list"
  known_nodes :: exa_nodeset
  num_nodes :: nat
  self :: "exa_nodeid option"

definition sup_cluster_node :: "sup_cluster \<Rightarrow> exa_nodeid \<Rightarrow> exa_nodeid option option" where
  "sup_cluster_node cl node_id = do {
     exa_assert (node_id < EXA_MAX_NODES_NUMBER);
     Some (if id (nodes cl ! node_id) = EXA_NODEID_NONE then None else Some node_id) }"

definition sup_cluster_init :: sup_cluster where
  "sup_cluster_init =
     \<lparr> nodes = replicate EXA_MAX_NODES_NUMBER sup_node_init, known_nodes = exa_nodeset_reset,
       num_nodes = 0, self = None \<rparr>"

definition sup_cluster_add_node :: "sup_cluster \<Rightarrow> exa_nodeid \<Rightarrow> (errcode + sup_cluster) option" where
  "sup_cluster_add_node cl node_id =
     (if node_id \<ge> EXA_MAX_NODES_NUMBER then Some (Inl EINVAL)
      else if num_nodes cl = EXA_MAX_NODES_NUMBER then Some (Inl ENOSPC)
      else if sup_node_defined (nodes cl ! node_id) then Some (Inl EEXIST)
      else do {
        known \<leftarrow> exa_nodeset_add (known_nodes cl) node_id;
        Some (Inr (cl\<lparr> nodes := (nodes cl)[node_id := sup_node_init\<lparr>id := node_id\<rparr>],
                       known_nodes := known, num_nodes := num_nodes cl + 1 \<rparr>)) })"

definition sup_cluster_del_node :: "sup_cluster \<Rightarrow> exa_nodeid \<Rightarrow> (errcode + sup_cluster) option" where
  "sup_cluster_del_node cl node_id = do {
     exa_assert (node_id < EXA_MAX_NODES_NUMBER);
     if num_nodes cl = 0 then Some (Inl ENOENT)
     else if \<not> sup_node_defined (nodes cl ! node_id) then Some (Inl ENOENT)
     else do {
       known \<leftarrow> exa_nodeset_del (known_nodes cl) node_id;
       Some (Inr (cl\<lparr> nodes := (nodes cl)[node_id := sup_node_init],
                      known_nodes := known, num_nodes := num_nodes cl - 1 \<rparr>)) } }"

section \<open>Well-formed clusters\<close>

definition cluster_wf :: "sup_cluster \<Rightarrow> bool" where
  "cluster_wf cl \<longleftrightarrow>
     length (nodes cl) = EXA_MAX_NODES_NUMBER \<and>
     (\<forall>i < EXA_MAX_NODES_NUMBER.
        id (nodes cl ! i) = (if i \<in> ns_elems (known_nodes cl) then i else EXA_NODEID_NONE)) \<and>
     num_nodes cl = card (ns_elems (known_nodes cl))"

lemma cluster_wfD:
  assumes "cluster_wf cl" "i < EXA_MAX_NODES_NUMBER"
  shows "id (nodes cl ! i) = (if i \<in> ns_elems (known_nodes cl) then i else EXA_NODEID_NONE)"
  using assms by (simp add: cluster_wf_def)

lemma cluster_wf_length: "cluster_wf cl \<Longrightarrow> length (nodes cl) = EXA_MAX_NODES_NUMBER"
  by (simp add: cluster_wf_def)

lemma cluster_wf_id: "cluster_wf cl \<Longrightarrow> i \<in> ns_elems (known_nodes cl) \<Longrightarrow> id (nodes cl ! i) = i"
  using ns_elems_bounded by (simp add: cluster_wf_def)

lemma cluster_wf_init: "cluster_wf sup_cluster_init"
  by (simp add: cluster_wf_def sup_cluster_init_def sup_node_init_def nodeset_simps)

lemma not_none_valid: "i < EXA_MAX_NODES_NUMBER \<Longrightarrow> i \<noteq> EXA_NODEID_NONE"
  by (simp add: EXA_NODEID_NONE_def)

lemma sup_cluster_node_eq:
  assumes "cluster_wf cl" "i < EXA_MAX_NODES_NUMBER"
  shows "sup_cluster_node cl i = Some (if i \<in> ns_elems (known_nodes cl) then Some i else None)"
  using assms by (simp add: sup_cluster_node_def cluster_wfD not_none_valid)

lemma sup_node_defined_iff:
  assumes "cluster_wf cl" "i < EXA_MAX_NODES_NUMBER"
  shows "sup_node_defined (nodes cl ! i) \<longleftrightarrow> i \<in> ns_elems (known_nodes cl)"
  using assms by (simp add: sup_node_defined_def cluster_wfD EXA_NODEID_NONE_def)

text \<open>The table is full only when every id is known.\<close>

lemma card_known_full:
  assumes "card (ns_elems s) = EXA_MAX_NODES_NUMBER" "i < EXA_MAX_NODES_NUMBER"
  shows "i \<in> ns_elems s"
proof -
  have "ns_elems s = {..<EXA_MAX_NODES_NUMBER}"
    using assms(1) by (intro card_subset_eq ns_elems_subset) auto
  with assms(2) show ?thesis by simp
qed

lemma sup_cluster_add_node_new:
  assumes wf: "cluster_wf cl" and i: "i < EXA_MAX_NODES_NUMBER" "i \<notin> ns_elems (known_nodes cl)"
  shows "sup_cluster_add_node cl i =
    Some (Inr (cl\<lparr> nodes := (nodes cl)[i := sup_node_init\<lparr>id := i\<rparr>],
                   known_nodes := ns_ins (known_nodes cl) i, num_nodes := num_nodes cl + 1 \<rparr>))"
proof -
  have "num_nodes cl \<noteq> EXA_MAX_NODES_NUMBER"
    using wf i card_known_full by (auto simp: cluster_wf_def)
  with wf i show ?thesis by (simp add: sup_cluster_add_node_def sup_node_defined_iff)
qed

lemma cluster_wf_add:
  assumes "cluster_wf cl" "i < EXA_MAX_NODES_NUMBER" "i \<notin> ns_elems (known_nodes cl)"
  shows "cluster_wf (cl\<lparr> nodes := (nodes cl)[i := sup_node_init\<lparr>id := i\<rparr>],
                         known_nodes := ns_ins (known_nodes cl) i, num_nodes := num_nodes cl + 1 \<rparr>)"
  using assms by (auto simp: cluster_wf_def nodeset_simps nth_list_update)

lemma cluster_wf_update_node:
  assumes "cluster_wf cl" "id n = id (nodes cl ! i)"
  shows "cluster_wf (cl\<lparr>nodes := (nodes cl)[i := n]\<rparr>)"
proof -
  have "id ((nodes cl)[i := n] ! j) = id (nodes cl ! j)" if "j < EXA_MAX_NODES_NUMBER" for j
    using assms that by (cases "j = i") (simp_all add: cluster_wf_length)
  with assms(1) show ?thesis by (simp add: cluster_wf_def)
qed

text \<open>Adding and removing a node. On a well-formed table an id out of range, a full table
  and a duplicate are refused with their own code; otherwise the node becomes known with an
  initial view, no other entry changes and the table stays well formed. Removing a known node
  undoes it, and removing an unknown one is refused.\<close>

lemma cluster_add_del:
  assumes wf: "cluster_wf cl"
  shows "(i \<ge> EXA_MAX_NODES_NUMBER \<longrightarrow> sup_cluster_add_node cl i = Some (Inl EINVAL))
    \<and> (i \<in> ns_elems (known_nodes cl) \<longrightarrow>
         sup_cluster_add_node cl i =
           Some (Inl (if ns_elems (known_nodes cl) = {..<EXA_MAX_NODES_NUMBER} then ENOSPC else EEXIST)))
    \<and> (i < EXA_MAX_NODES_NUMBER \<and> i \<notin> ns_elems (known_nodes cl) \<longrightarrow>
         sup_cluster_del_node cl i = Some (Inl ENOENT) \<and>
         (\<exists>a. sup_cluster_add_node cl i = Some (Inr a) \<and> cluster_wf a \<and>
            ns_elems (known_nodes a) = insert i (ns_elems (known_nodes cl)) \<and>
            (\<forall>j < EXA_MAX_NODES_NUMBER. j \<noteq> i \<longrightarrow> nodes a ! j = nodes cl ! j) \<and>
            nodes a ! i = sup_node_init\<lparr>id := i\<rparr>))
    \<and> (i \<in> ns_elems (known_nodes cl) \<longrightarrow>
         (\<exists>d. sup_cluster_del_node cl i = Some (Inr d) \<and> cluster_wf d \<and>
            ns_elems (known_nodes d) = ns_elems (known_nodes cl) - {i}))"
proof (intro conjI impI)
  assume "i \<ge> EXA_MAX_NODES_NUMBER"
  then show "sup_cluster_add_node cl i = Some (Inl EINVAL)"
    by (simp add: sup_cluster_add_node_def)
next
  assume i: "i \<in> ns_elems (known_nodes cl)"
  have "num_nodes cl = EXA_MAX_NODES_NUMBER \<longleftrightarrow> ns_elems (known_nodes cl) = {..<EXA_MAX_NODES_NUMBER}"
    using wf ns_elems_subset [of "known_nodes cl"] card_known_full
    by (auto simp: cluster_wf_def)
  with wf ns_elems_bounded [OF i] i
  show "sup_cluster_add_node cl i =
      Some (Inl (if ns_elems (known_nodes cl) = {..<EXA_MAX_NODES_NUMBER} then ENOSPC else EEXIST))"
    by (simp add: sup_cluster_add_node_def sup_node_defined_iff)
next
  assume i: "i < EXA_MAX_NODES_NUMBER \<and> i \<notin> ns_elems (known_nodes cl)"
  with wf show "sup_cluster_del_node cl i = Some (Inl ENOENT)"
    by (simp add: sup_cluster_del_node_def sup_node_defined_iff)
  from i wf show "\<exists>a. sup_cluster_add_node cl i = Some (Inr a) \<and> cluster_wf a \<and>
      ns_elems (known_nodes a) = insert i (ns_elems (known_nodes cl)) \<and>
      (\<forall>j < EXA_MAX_NODES_NUMBER. j \<noteq> i \<longrightarrow> nodes a ! j = nodes cl ! j) \<and>
      nodes a ! i = sup_node_init\<lparr>id := i\<rparr>"
    by (simp add: sup_cluster_add_node_new cluster_wf_add [simplified] nodeset_simps cluster_wf_length)
next
  assume i: "i \<in> ns_elems (known_nodes cl)"
  then have lt: "i < EXA_MAX_NODES_NUMBER" by (rule ns_elems_bounded)
  have nz: "num_nodes cl \<noteq> 0" using wf i by (auto simp: cluster_wf_def card_eq_0_iff)
  have "cluster_wf (cl\<lparr>nodes := (nodes cl)[i := sup_node_init],
      known_nodes := ns_rem (known_nodes cl) i, num_nodes := num_nodes cl - 1\<rparr>)"
    using wf i lt by (auto simp: cluster_wf_def nodeset_simps nth_list_update sup_node_init_def)
  with wf i lt nz show "\<exists>d. sup_cluster_del_node cl i = Some (Inr d) \<and> cluster_wf d \<and>
      ns_elems (known_nodes d) = ns_elems (known_nodes cl) - {i}"
    by (simp add: sup_cluster_del_node_def sup_node_defined_iff nodeset_simps)
qed

end
