(* ===== verification/Sup_Clique.thy ===== *)
theory Sup_Clique
  imports Sup_Cluster
begin

text \<open>
  The clique a node computes from the views of all the nodes it knows
  (\<open>csupd/src/sup_clique.c\<close>). The nodes are sorted by the number of nodes they see; a round
  walks the sorted nodes and keeps those that see, and are seen by, all the nodes kept so
  far; a round that does not keep the local node removes its clique and the next round
  starts on the remaining nodes.

  The array \<open>sorted_nodes\<close> has \<open>num_nodes\<close> elements: a table where fewer nodes are defined
  would sort uninitialised memory, and the model aborts there. \<open>clique_loop\<close> is the C
  \<open>while\<close> loop; that it returns is a theorem.
\<close>

definition node_mship_cmp :: "sup_cluster \<Rightarrow> exa_nodeid \<Rightarrow> exa_nodeid \<Rightarrow> int" where
  "node_mship_cmp cl a b =
     (let count = (\<lambda>i. case exa_nodeset_count (nodes_seen (view (nodes cl ! i))) of
                          Some n \<Rightarrow> int n | None \<Rightarrow> 0);
          diff_count = count a - count b
      in if diff_count \<noteq> 0 then diff_count else int a - int b)"

definition collect_node :: "sup_cluster \<Rightarrow> exa_nodeid \<Rightarrow> exa_nodeid list \<Rightarrow> exa_nodeid list option" where
  "collect_node cl i sns = do {
     p \<leftarrow> sup_cluster_node cl i;
     n \<leftarrow> p;
     Some (if sup_node_defined (nodes cl ! n) then sns @ [id (nodes cl ! n)] else sns) }"

definition sorted_nodes :: "sup_cluster \<Rightarrow> exa_nodeid list option" where
  "sorted_nodes cl = do {
     is \<leftarrow> exa_nodeset_foreach (known_nodes cl);
     sns \<leftarrow> for_each (collect_node cl) is [];
     exa_assert (length sns = num_nodes cl);
     Some (qsort (node_mship_cmp cl) sns) }"

text \<open>The body of the inner loop, on the clique being built and the nodes that cannot enter it.\<close>

fun clique_step :: "sup_cluster \<Rightarrow> exa_nodeset \<Rightarrow> exa_nodeid \<Rightarrow> exa_nodeset \<times> exa_nodeset \<Rightarrow>
    (exa_nodeset \<times> exa_nodeset) option" where
  "clique_step cl rem_nodes i (result, impossible) = do {
     r \<leftarrow> exa_nodeset_contains rem_nodes i;
     skip \<leftarrow> (if \<not> r then Some True else exa_nodeset_contains impossible i);
     if skip then Some (result, impossible)
     else do {
       p \<leftarrow> sup_cluster_node cl i;
       n \<leftarrow> p;
       let node = nodes cl ! n;
       tmp \<leftarrow> exa_nodeset_add (exa_nodeset_copy result) (id node);
       let unseen = exa_nodeset_substract (exa_nodeset_copy (known_nodes cl)) (nodes_seen (view node));
       let intersec = exa_nodeset_intersect (exa_nodeset_copy unseen) tmp;
       if exa_nodeset_is_empty intersec
       then do {
         result' \<leftarrow> exa_nodeset_add result (id node);
         Some (result', exa_nodeset_sum impossible unseen) }
       else Some (result, impossible) } }"

partial_function (option) clique_loop :: "sup_cluster \<Rightarrow> exa_nodeid list \<Rightarrow> exa_nodeset \<Rightarrow>
    exa_nodeset \<Rightarrow> exa_nodeset option" where
  "clique_loop cl sns rem_nodes best = do {
     c \<leftarrow> exa_nodeset_count rem_nodes;
     if c > 0 then do {
       (result, impossible) \<leftarrow>
         for_each (clique_step cl rem_nodes) sns (exa_nodeset_reset, exa_nodeset_reset);
       cr \<leftarrow> exa_nodeset_count result;
       cb \<leftarrow> exa_nodeset_count best;
       let best = (if cr > cb then exa_nodeset_copy result else best);
       s \<leftarrow> self cl;
       found \<leftarrow> exa_nodeset_contains result (id (nodes cl ! s));
       if found then Some result
       else clique_loop cl sns (exa_nodeset_substract rem_nodes result) best }
     else None }"

definition sup_clique_compute :: "sup_cluster \<Rightarrow> exa_nodeset option" where
  "sup_clique_compute cl = do {
     sns \<leftarrow> sorted_nodes cl;
     clique_loop cl sns (exa_nodeset_copy (known_nodes cl)) exa_nodeset_reset }"

declare clique_step.simps [simp del] clique_loop.simps [code]

section \<open>Visibility\<close>

definition known :: "sup_cluster \<Rightarrow> exa_nodeid set" where
  "known cl = ns_elems (known_nodes cl)"

definition sees :: "sup_cluster \<Rightarrow> exa_nodeid \<Rightarrow> exa_nodeid \<Rightarrow> bool" where
  "sees cl a b \<longleftrightarrow> b \<in> ns_elems (nodes_seen (view (nodes cl ! a)))"

definition mutual :: "sup_cluster \<Rightarrow> exa_nodeid set \<Rightarrow> bool" where
  "mutual cl C \<longleftrightarrow> (\<forall>a\<in>C. \<forall>b\<in>C. sees cl a b)"

definition self_seeing :: "sup_cluster \<Rightarrow> bool" where
  "self_seeing cl \<longleftrightarrow> (\<forall>a\<in>known cl. sees cl a a)"

text \<open>What one round leaves: a mutually visible set of remaining nodes, to which no
  remaining node can be added.\<close>

definition round_ok :: "sup_cluster \<Rightarrow> exa_nodeset \<Rightarrow> exa_nodeset \<Rightarrow> bool" where
  "round_ok cl rem_nodes R \<longleftrightarrow>
     ns_elems R \<subseteq> ns_elems rem_nodes \<and> mutual cl (ns_elems R) \<and>
     (\<forall>x \<in> ns_elems rem_nodes - ns_elems R. \<exists>m \<in> ns_elems R. \<not> (sees cl x m \<and> sees cl m x))"

lemma known_bounded: "i \<in> known cl \<Longrightarrow> i < EXA_MAX_NODES_NUMBER"
  by (simp add: known_def ns_elems_bounded)

section \<open>The sorted nodes\<close>

lemma collect_node_known:
  assumes "cluster_wf cl" "i \<in> known cl"
  shows "collect_node cl i acc = Some (acc @ [i])"
  using assms known_bounded [OF assms(2)]
  by (simp add: collect_node_def sup_cluster_node_eq sup_node_defined_iff cluster_wf_id known_def)

lemma collect_nodes:
  assumes "cluster_wf cl" "set is \<subseteq> known cl"
  shows "for_each (collect_node cl) is acc = Some (acc @ is)"
  using assms(2) by (induction "is" arbitrary: acc) (simp_all add: collect_node_known assms(1))

lemma sorted_nodes_eq:
  assumes "cluster_wf cl"
  shows "sorted_nodes cl = Some (qsort (node_mship_cmp cl) (sorted_list_of_set (known cl)))"
  using assms
  by (simp add: sorted_nodes_def exa_nodeset_foreach_eq collect_nodes cluster_wf_def known_def)

text \<open>The comparison orders by number of nodes seen, then by id, so it never ties and the
  result of the sort does not depend on the algorithm.\<close>

definition mship_key :: "sup_cluster \<Rightarrow> exa_nodeid \<Rightarrow> nat \<times> exa_nodeid" where
  "mship_key cl i = (card (ns_elems (nodes_seen (view (nodes cl ! i)))), i)"

lemma node_mship_cmp_le:
  "node_mship_cmp cl a b \<le> 0 \<longleftrightarrow>
     fst (mship_key cl a) < fst (mship_key cl b) \<or> fst (mship_key cl a) = fst (mship_key cl b) \<and> a \<le> b"
  by (auto simp: node_mship_cmp_def mship_key_def Let_def)

lemma node_mship_cmp_tie: "node_mship_cmp cl a b = 0 \<longleftrightarrow> a = b"
  by (auto simp: node_mship_cmp_def Let_def)

section \<open>One round\<close>

definition round_inv :: "sup_cluster \<Rightarrow> exa_nodeset \<Rightarrow> exa_nodeid list \<Rightarrow> exa_nodeset \<times> exa_nodeset \<Rightarrow> bool"
  where
  "round_inv cl rem_nodes done st \<longleftrightarrow>
     ns_elems (fst st) \<subseteq> set done \<inter> ns_elems rem_nodes \<and> mutual cl (ns_elems (fst st)) \<and>
     ns_elems (snd st) = {x \<in> known cl. \<exists>a \<in> ns_elems (fst st). \<not> sees cl a x} \<and>
     (\<forall>x \<in> set done \<inter> ns_elems rem_nodes - ns_elems (fst st).
        \<exists>m \<in> ns_elems (fst st). \<not> (sees cl x m \<and> sees cl m x))"

lemma clique_step_eq:
  assumes wf: "cluster_wf cl" and i: "i \<in> known cl"
  shows "clique_step cl M i (R, Im) =
    (if i \<notin> ns_elems M \<or> i \<in> ns_elems Im then Some (R, Im)
     else if \<forall>m \<in> known cl. m \<in> insert i (ns_elems R) \<longrightarrow> sees cl i m
     then Some (ns_ins R i, exa_nodeset_sum Im (exa_nodeset_substract (known_nodes cl)
                  (nodes_seen (view (nodes cl ! i)))))
     else Some (R, Im))"
proof -
  have lt: "i < EXA_MAX_NODES_NUMBER" using i by (rule known_bounded)
  have node: "sup_cluster_node cl i = Some (Some i)" "id (nodes cl ! i) = i"
    using wf i lt by (simp_all add: sup_cluster_node_eq cluster_wf_id known_def)
  have empty: "exa_nodeset_is_empty (exa_nodeset_intersect
        (exa_nodeset_substract (known_nodes cl) (nodes_seen (view (nodes cl ! i)))) (ns_ins R i))
      \<longleftrightarrow> (\<forall>m \<in> known cl. m \<in> insert i (ns_elems R) \<longrightarrow> sees cl i m)"
    using lt by (auto simp: nodeset_simps known_def sees_def)
  show ?thesis using lt node empty by (auto simp: clique_step.simps Let_def exa_nodeset_copy_def)
qed

lemma round_inv_step:
  assumes wf: "cluster_wf cl" and i: "i \<in> known cl" and ss: "self_seeing cl"
    and sub: "ns_elems M \<subseteq> known cl" and inv: "round_inv cl M ds st"
  shows "\<exists>st'. clique_step cl M i st = Some st' \<and> round_inv cl M (ds @ [i]) st'"
proof -
  obtain R Im where st: "st = (R, Im)" by fastforce
  have lt: "i < EXA_MAX_NODES_NUMBER" using i by (rule known_bounded)
  have sii: "sees cl i i" using ss i by (simp add: self_seeing_def)
  consider (out) "i \<notin> ns_elems M" | (imp) "i \<in> ns_elems M" "i \<in> ns_elems Im"
    | (yes) "i \<in> ns_elems M" "i \<notin> ns_elems Im" "\<forall>m \<in> known cl. m \<in> insert i (ns_elems R) \<longrightarrow> sees cl i m"
    | (no) m where "i \<in> ns_elems M" "i \<notin> ns_elems Im" "m \<in> ns_elems R" "\<not> sees cl i m"
    using sii by blast
  then show ?thesis
  proof cases
    case out
    with inv show ?thesis
      by (auto simp: st clique_step_eq [OF wf i] round_inv_def)
  next
    case imp
    with inv show ?thesis
      by (auto simp: st clique_step_eq [OF wf i] round_inv_def)
  next
    case yes
    have seen: "sees cl a i" if "a \<in> ns_elems R" for a
      using inv yes(2) i that by (auto simp: round_inv_def st)
    have sub': "ns_elems R \<subseteq> known cl" using inv sub by (auto simp: round_inv_def st)
    have "round_inv cl M (ds @ [i]) (ns_ins R i, exa_nodeset_sum Im (exa_nodeset_substract
        (known_nodes cl) (nodes_seen (view (nodes cl ! i)))))"
      using inv yes seen sub' i lt sii
      by (auto simp: round_inv_def st nodeset_simps mutual_def known_def sees_def)
    with yes show ?thesis by (simp add: st clique_step_eq [OF wf i])
  next
    case no
    then have "m \<in> known cl" using inv sub by (auto simp: round_inv_def st)
    with no inv show ?thesis
      by (auto simp: st clique_step_eq [OF wf i] round_inv_def)
  qed
qed

lemma clique_round:
  assumes wf: "cluster_wf cl" and ss: "self_seeing cl" and M: "ns_elems M \<subseteq> known cl"
    and sns: "set sns = known cl"
  shows "\<exists>R Im. for_each (clique_step cl M) sns (exa_nodeset_reset, exa_nodeset_reset) = Some (R, Im)
           \<and> round_ok cl M R"
proof -
  have "\<exists>st. for_each (clique_step cl M) sns (exa_nodeset_reset, exa_nodeset_reset) = Some st
      \<and> round_inv cl M sns st"
  proof (rule for_each_invariant)
    show "round_inv cl M [] (exa_nodeset_reset, exa_nodeset_reset)"
      by (simp add: round_inv_def nodeset_simps mutual_def)
    show "\<exists>t'. clique_step cl M i t = Some t' \<and> round_inv cl M (ds @ [i]) t'"
      if "sns = ds @ i # is'" "round_inv cl M ds t" for ds i is' t
      using that sns by (intro round_inv_step [OF wf _ ss M]) auto
  qed
  then obtain R Im where "for_each (clique_step cl M) sns (exa_nodeset_reset, exa_nodeset_reset)
      = Some (R, Im)" "round_inv cl M sns (R, Im)" by fastforce
  with M sns show ?thesis by (fastforce simp: round_inv_def round_ok_def)
qed

section \<open>The loop\<close>

lemma clique_loop_unfold:
  assumes "for_each (clique_step cl M) sns (exa_nodeset_reset, exa_nodeset_reset) = Some (R, Im)"
    and "self cl = Some s" "id (nodes cl ! s) = s" "s < EXA_MAX_NODES_NUMBER" "ns_elems M \<noteq> {}"
  shows "\<exists>best'. clique_loop cl sns M best =
    (if s \<in> ns_elems R then Some R else clique_loop cl sns (exa_nodeset_substract M R) best')"
  using assms by (subst clique_loop.simps) (auto simp: card_gt_0_iff Let_def)

lemma round_ok_progress:
  assumes "round_ok cl M R" "ns_elems M \<noteq> {}"
  shows "ns_elems (exa_nodeset_substract M R) \<subset> ns_elems M"
  using assms by (auto simp: round_ok_def nodeset_simps)

text \<open>The loop returns: every round removes at least one node, and the local node is only
  removed by the round that finds it. \<open>Q\<close> is any fact about the remaining nodes that the
  rounds keep.\<close>

lemma clique_loop_spec:
  assumes wf: "cluster_wf cl" and ss: "self_seeing cl" and sns: "set sns = known cl"
    and s: "self cl = Some s"
    and Q: "\<And>M R. Q M \<Longrightarrow> ns_elems M \<subseteq> known cl \<Longrightarrow> round_ok cl M R \<Longrightarrow> s \<notin> ns_elems R \<Longrightarrow>
      Q (exa_nodeset_substract M R)"
    and M: "ns_elems M \<subseteq> known cl" "s \<in> ns_elems M" "Q M"
  shows "\<exists>C M'. clique_loop cl sns M best = Some C \<and> s \<in> ns_elems C \<and> round_ok cl M' C \<and>
           ns_elems M' \<subseteq> ns_elems M \<and> Q M'"
  using M
proof (induction "card (ns_elems M)" arbitrary: M best rule: less_induct)
  case less
  have sk: "s \<in> known cl" using less.prems by auto
  have ids: "id (nodes cl ! s) = s" "s < EXA_MAX_NODES_NUMBER"
    using wf sk known_bounded by (auto simp: cluster_wf_id known_def)
  obtain R Im where R: "for_each (clique_step cl M) sns (exa_nodeset_reset, exa_nodeset_reset) = Some (R, Im)"
    "round_ok cl M R" using clique_round [OF wf ss less.prems(1) sns] by blast
  have ne: "ns_elems M \<noteq> {}" using less.prems by auto
  obtain best' where unf: "clique_loop cl sns M best =
      (if s \<in> ns_elems R then Some R else clique_loop cl sns (exa_nodeset_substract M R) best')"
    using clique_loop_unfold [OF R(1) s ids ne] by blast
  show ?case
  proof (cases "s \<in> ns_elems R")
    case True
    with unf R less.prems show ?thesis by auto
  next
    case False
    let ?M = "exa_nodeset_substract M R"
    have lt: "ns_elems ?M \<subset> ns_elems M" using R(2) ne by (rule round_ok_progress)
    have "\<exists>C M'. clique_loop cl sns ?M best' = Some C \<and> s \<in> ns_elems C \<and> round_ok cl M' C \<and>
        ns_elems M' \<subseteq> ns_elems ?M \<and> Q M'"
    proof (rule less.hyps)
      show "card (ns_elems ?M) < card (ns_elems M)" using lt by (simp add: psubset_card_mono)
      show "ns_elems ?M \<subseteq> known cl" using lt less.prems(1) by auto
      show "s \<in> ns_elems ?M" using False less.prems(2) by (simp add: nodeset_simps)
      show "Q ?M" using less.prems False R(2) by (intro Q)
    qed
    with unf False lt show ?thesis by auto
  qed
qed

lemma sorted_nodes_known: "set (qsort f (sorted_list_of_set (known cl))) = known cl"
  by (simp add: known_def)

lemma sup_clique_compute_unfold:
  "cluster_wf cl \<Longrightarrow> sup_clique_compute cl =
     clique_loop cl (qsort (node_mship_cmp cl) (sorted_list_of_set (known cl))) (known_nodes cl)
       exa_nodeset_reset"
  by (simp add: sup_clique_compute_def sorted_nodes_eq exa_nodeset_copy_def)

lemma sup_clique_compute_spec:
  assumes "cluster_wf cl" "self_seeing cl" "self cl = Some s" "s \<in> known cl"
  shows "\<exists>C. sup_clique_compute cl = Some C \<and> s \<in> ns_elems C \<and> ns_elems C \<subseteq> known cl \<and>
           mutual cl (ns_elems C)"
  using clique_loop_spec [OF assms(1,2) sorted_nodes_known assms(3), where Q = "\<lambda>_. True"] assms(4)
  by (fastforce simp: sup_clique_compute_unfold [OF assms(1)] known_def round_ok_def)

text \<open>Rounds do not depend on which node is the local one.\<close>

lemma clique_step_self [simp]: "clique_step (cl\<lparr>self := x\<rparr>) M = clique_step cl M"
  by (rule ext, rule ext) (auto simp: clique_step.simps sup_cluster_node_def cong: if_cong)

lemma self_update_simps [simp]:
  "cluster_wf (cl\<lparr>self := x\<rparr>) = cluster_wf cl" "known (cl\<lparr>self := x\<rparr>) = known cl"
  "sees (cl\<lparr>self := x\<rparr>) = sees cl" "self_seeing (cl\<lparr>self := x\<rparr>) = self_seeing cl"
  "node_mship_cmp (cl\<lparr>self := x\<rparr>) = node_mship_cmp cl"
  by (auto simp: cluster_wf_def known_def sees_def self_seeing_def node_mship_cmp_def fun_eq_iff)

lemma mutual_self [simp]: "mutual (cl\<lparr>self := x\<rparr>) = mutual cl"
  by (simp add: mutual_def fun_eq_iff)

lemma clique_loop_agree:
  assumes wf: "cluster_wf cl" and ss: "self_seeing cl" and sns: "set sns = known cl"
    and M: "ns_elems M \<subseteq> known cl" "s \<in> ns_elems M" "t \<in> ns_elems M"
    and C: "clique_loop (cl\<lparr>self := Some s\<rparr>) sns M best = Some C" "t \<in> ns_elems C"
  shows "clique_loop (cl\<lparr>self := Some t\<rparr>) sns M best' = Some C"
  using M C
proof (induction "card (ns_elems M)" arbitrary: M best best' rule: less_induct)
  case less
  have ids: "id (nodes cl ! x) = x" "x < EXA_MAX_NODES_NUMBER" if "x \<in> ns_elems M" for x
    using wf that less.prems(1) known_bounded by (auto simp: cluster_wf_id known_def)
  obtain R Im where R: "for_each (clique_step cl M) sns (exa_nodeset_reset, exa_nodeset_reset) = Some (R, Im)"
    "round_ok cl M R" using clique_round [OF wf ss less.prems(1) sns] by blast
  have ne: "ns_elems M \<noteq> {}" using less.prems by auto
  have unf: "\<exists>b'. clique_loop (cl\<lparr>self := Some x\<rparr>) sns M b =
      (if x \<in> ns_elems R then Some R else clique_loop (cl\<lparr>self := Some x\<rparr>) sns (exa_nodeset_substract M R) b')"
    if "x \<in> ns_elems M" for x b
    by (rule clique_loop_unfold [where s = x]) (use R ids that ne in auto)
  obtain bs where us: "clique_loop (cl\<lparr>self := Some s\<rparr>) sns M best =
      (if s \<in> ns_elems R then Some R else clique_loop (cl\<lparr>self := Some s\<rparr>) sns (exa_nodeset_substract M R) bs)"
    using unf [OF less.prems(2)] by blast
  obtain bt where ut: "clique_loop (cl\<lparr>self := Some t\<rparr>) sns M best' =
      (if t \<in> ns_elems R then Some R else clique_loop (cl\<lparr>self := Some t\<rparr>) sns (exa_nodeset_substract M R) bt)"
    using unf [OF less.prems(3)] by blast
  show ?case
  proof (cases "s \<in> ns_elems R")
    case True
    with us ut less.prems show ?thesis by auto
  next
    case False
    let ?M = "exa_nodeset_substract M R"
    have lt: "ns_elems ?M \<subset> ns_elems M" using R(2) ne by (rule round_ok_progress)
    have sM: "s \<in> ns_elems ?M" "ns_elems ?M \<subseteq> known cl"
      using False less.prems lt by (auto simp: nodeset_simps)
    have C': "clique_loop (cl\<lparr>self := Some s\<rparr>) sns ?M bs = Some C" using us False less.prems by simp
    with clique_loop_spec [of "cl\<lparr>self := Some s\<rparr>" sns s "\<lambda>_. True" ?M bs] wf ss sns sM
    have sub: "ns_elems C \<subseteq> ns_elems ?M" by (auto simp: round_ok_def)
    then have tM: "t \<in> ns_elems ?M" "t \<notin> ns_elems R" using less.prems by (auto simp: nodeset_simps)
    have "clique_loop (cl\<lparr>self := Some t\<rparr>) sns ?M bt = Some C"
      by (rule less.hyps [OF _ sM(2) sM(1) tM(1) C' less.prems(5)]) (use lt in \<open>simp add: psubset_card_mono\<close>)
    with ut tM show ?thesis by simp
  qed
qed

section \<open>Properties\<close>

text \<open>C2: on a well-formed table in which every known node sees itself, the computation of
  the clique returns, and its result contains the local node, consists of known nodes, and
  every two of its members see each other.\<close>

theorem clique_sound:
  assumes "cluster_wf cl" and "self_seeing cl" and "self cl = Some s" and "s \<in> known cl"
  shows "\<exists>C. sup_clique_compute cl = Some C \<and> s \<in> ns_elems C \<and> ns_elems C \<subseteq> known cl \<and>
           (\<forall>a \<in> ns_elems C. \<forall>b \<in> ns_elems C. sees cl a b)"
  using sup_clique_compute_spec [OF assms] by (simp add: mutual_def)

text \<open>C3: two nodes that hold the same views agree: the cliques they compute are equal or
  disjoint, so no node is claimed by two different cliques.\<close>

theorem clique_agreement:
  assumes "cluster_wf cl" and "self_seeing cl" and "s \<in> known cl" and "t \<in> known cl"
    and "sup_clique_compute (cl\<lparr>self := Some s\<rparr>) = Some C"
    and "sup_clique_compute (cl\<lparr>self := Some t\<rparr>) = Some D"
  shows "C = D \<or> ns_elems C \<inter> ns_elems D = {}"
proof (rule disjCI)
  assume "ns_elems C \<inter> ns_elems D \<noteq> {}"
  then obtain u where u: "u \<in> ns_elems C" "u \<in> ns_elems D" by auto
  have agree: "sup_clique_compute (cl\<lparr>self := Some u\<rparr>) = Some E"
    if "sup_clique_compute (cl\<lparr>self := Some x\<rparr>) = Some E" "u \<in> ns_elems E" "x \<in> known cl" for x E
  proof -
    have "u \<in> known cl"
      using sup_clique_compute_spec [of "cl\<lparr>self := Some x\<rparr>" x] assms(1,2) that by auto
    with that assms(1,2) clique_loop_agree [OF assms(1,2) sorted_nodes_known, of "known_nodes cl" x u]
    show ?thesis by (simp add: sup_clique_compute_unfold known_def)
  qed
  from agree [OF assms(5) u(1) assms(3)] agree [OF assms(6) u(2) assms(4)] show "C = D" by simp
qed

text \<open>C22: when visibility splits the known nodes into classes, each node seeing exactly its
  own class (one class when every node sees every other, several after a clean network
  split), the clique of a node is exactly its class.\<close>

theorem clique_of_partition:
  assumes wf: "cluster_wf cl" and s: "self cl = Some s" "s \<in> known cl"
    and part: "\<forall>a \<in> known cl. \<forall>b \<in> known cl. sees cl a b \<longleftrightarrow> cls a = cls b"
  shows "\<exists>C. sup_clique_compute cl = Some C \<and> ns_elems C = {x \<in> known cl. cls x = cls s}"
proof -
  have ss: "self_seeing cl" using part by (simp add: self_seeing_def)
  define closed where "closed M \<longleftrightarrow> (\<forall>a \<in> ns_elems M. \<forall>b \<in> known cl. cls a = cls b \<longrightarrow> b \<in> ns_elems M)"
    for M
  have whole: "ns_elems R = {x \<in> known cl. cls x = cls r}"
    if "round_ok cl M R" "closed M" "ns_elems M \<subseteq> known cl" "r \<in> ns_elems R" for M R r
  proof -
    have sub: "ns_elems R \<subseteq> known cl" using that(1,3) by (auto simp: round_ok_def)
    have same: "cls m = cls r" if "m \<in> ns_elems R" for m
      using \<open>round_ok cl M R\<close> \<open>r \<in> ns_elems R\<close> that sub part
      unfolding round_ok_def mutual_def by (metis subsetD)
    have "x \<in> ns_elems R" if "x \<in> known cl" "cls x = cls r" for x
    proof (rule ccontr)
      assume "x \<notin> ns_elems R"
      moreover have "r \<in> ns_elems M" using \<open>round_ok cl M R\<close> \<open>r \<in> ns_elems R\<close>
        by (auto simp: round_ok_def)
      with \<open>closed M\<close> that have "x \<in> ns_elems M" by (simp add: closed_def)
      ultimately obtain m where "m \<in> ns_elems R" "\<not> (sees cl x m \<and> sees cl m x)"
        using \<open>round_ok cl M R\<close> unfolding round_ok_def by blast
      with same sub part that show False by (metis subsetD)
    qed
    with sub same show ?thesis by blast
  qed
  have step: "closed (exa_nodeset_substract M R)"
    if "closed M" "ns_elems M \<subseteq> known cl" "round_ok cl M R" for M R
    unfolding closed_def
  proof (intro ballI impI)
    fix a b assume ab: "a \<in> ns_elems (exa_nodeset_substract M R)" "b \<in> known cl" "cls a = cls b"
    have "b \<notin> ns_elems R" using whole [OF that(3,1,2), of b] ab that(2) by (auto simp: nodeset_simps)
    with ab that(1) show "b \<in> ns_elems (exa_nodeset_substract M R)"
      by (auto simp: nodeset_simps closed_def)
  qed
  have "closed (known_nodes cl)" by (simp add: closed_def known_def)
  then have "\<exists>C M'. sup_clique_compute cl = Some C \<and> s \<in> ns_elems C \<and> round_ok cl M' C \<and>
      ns_elems M' \<subseteq> ns_elems (known_nodes cl) \<and> closed M'"
    unfolding sup_clique_compute_unfold [OF wf]
    by (intro clique_loop_spec [OF wf ss sorted_nodes_known s(1)]) (use step s(2) in \<open>auto simp: known_def\<close>)
  then obtain C M' where "sup_clique_compute cl = Some C" "s \<in> ns_elems C" "round_ok cl M' C" "closed M'"
    "ns_elems M' \<subseteq> known cl" by (auto simp: known_def)
  with whole show ?thesis by blast
qed

section \<open>A split cluster\<close>

text \<open>Three known nodes; nodes 0 and 1 see each other, node 2 is cut off.\<close>

definition split_seen :: "exa_nodeid \<Rightarrow> exa_nodeset" where
  "split_seen i = (if i < 2 then ns_ins (ns_ins exa_nodeset_reset 0) 1 else ns_ins exa_nodeset_reset 2)"

definition split_cluster :: "exa_nodeid \<Rightarrow> sup_cluster" where
  "split_cluster me =
     \<lparr> nodes = map (\<lambda>i. if i < 3 then sup_node_init\<lparr>id := i, view := sup_view_init\<lparr>nodes_seen := split_seen i\<rparr>\<rparr>
                         else sup_node_init) [0..<EXA_MAX_NODES_NUMBER],
       known_nodes = ns_ins (ns_ins (ns_ins exa_nodeset_reset 0) 1) 2,
       num_nodes = 3, self = Some me \<rparr>"

lemma small_ids: "0 < EXA_MAX_NODES_NUMBER" "Suc 0 < EXA_MAX_NODES_NUMBER" "1 < EXA_MAX_NODES_NUMBER"
    "2 < EXA_MAX_NODES_NUMBER" "3 < EXA_MAX_NODES_NUMBER"
  by (simp_all add: EXA_MAX_NODES_NUMBER_def)

lemma split_seen_elems: "ns_elems (split_seen i) = (if i < 2 then {0, 1} else {2})"
  by (simp add: split_seen_def nodeset_simps small_ids insert_commute)

lemma split_known: "known (split_cluster me) = {0, 1, 2}"
  by (simp add: known_def split_cluster_def nodeset_simps small_ids insert_commute)

lemma split_wf: "cluster_wf (split_cluster me)"
proof -
  have K: "ns_elems (known_nodes (split_cluster me)) = {0, 1, 2}"
    using split_known [of me] by (simp add: known_def)
  have "id (nodes (split_cluster me) ! i) = (if i < 3 then i else EXA_NODEID_NONE)"
    if "i < EXA_MAX_NODES_NUMBER" for i
    using that by (simp add: split_cluster_def sup_node_init_def)
  moreover have "i \<in> {0, 1, 2} \<longleftrightarrow> i < 3" for i :: nat by auto
  moreover have "length (nodes (split_cluster me)) = EXA_MAX_NODES_NUMBER" "num_nodes (split_cluster me) = 3"
    by (simp_all add: split_cluster_def)
  ultimately show ?thesis unfolding cluster_wf_def K by simp
qed

lemma split_sees: "i < 3 \<Longrightarrow> sees (split_cluster me) i j \<longleftrightarrow> j \<in> (if i < 2 then {0, 1} else {2})"
  using small_ids by (simp add: sees_def split_cluster_def split_seen_elems)

lemma split_self: "self (split_cluster me) = Some me" "(split_cluster me)\<lparr>self := Some i\<rparr> = split_cluster i"
  by (simp_all add: split_cluster_def)

lemma split_self_seeing: "self_seeing (split_cluster me)"
  by (auto simp: self_seeing_def split_known split_sees)

theorem clique_sound_witness:
  "\<exists>C. sup_clique_compute (split_cluster 0) = Some C \<and> 0 \<in> ns_elems C \<and> ns_elems C \<subseteq> {0, 1, 2}"
  using clique_sound [OF split_wf split_self_seeing split_self(1), of 0]
  by (auto simp: split_known)

theorem clique_of_partition_witness:
  "\<exists>C. sup_clique_compute (split_cluster 2) = Some C \<and> ns_elems C = {2}"
  using clique_of_partition [OF split_wf split_self(1), of 2 "\<lambda>i. i < 2"]
  by (auto simp: split_known split_sees)

text \<open>The cliques of the split cluster, for the agreement of its nodes.\<close>

lemma split_clique_some: "i \<in> {0, 1, 2} \<Longrightarrow> \<exists>C. sup_clique_compute (split_cluster i) = Some C \<and> i \<in> ns_elems C
    \<and> (\<forall>a \<in> ns_elems C. \<forall>b \<in> ns_elems C. sees (split_cluster i) a b) \<and> ns_elems C \<subseteq> {0, 1, 2}"
  using sup_clique_compute_spec [OF split_wf split_self_seeing split_self(1), of i]
  by (auto simp: split_known mutual_def)

theorem clique_agreement_witness:
  "\<exists>C D. sup_clique_compute (split_cluster 0) = Some C \<and> sup_clique_compute (split_cluster 2) = Some D
     \<and> ns_elems C \<inter> ns_elems D = {}"
proof -
  obtain C where C: "sup_clique_compute (split_cluster 0) = Some C" "0 \<in> ns_elems C"
    "\<forall>a \<in> ns_elems C. \<forall>b \<in> ns_elems C. sees (split_cluster 0) a b"
    using split_clique_some [of 0] by auto
  obtain D where D: "sup_clique_compute (split_cluster 2) = Some D" "2 \<in> ns_elems D"
    using split_clique_some [of 2] by auto
  have "2 \<notin> ns_elems C" using C(2,3) split_sees [of 0 0 2] by auto
  with D clique_agreement [OF split_wf [of 0] split_self_seeing [of 0], of 0 2 C D] C
  have "ns_elems C \<inter> ns_elems D = {}" by (auto simp: split_known split_self)
  with C D show ?thesis by blast
qed

end
