(* ===== verification/Sup_Daemon.thy ===== *)
theory Sup_Daemon
  imports Sup_Clique
begin

text \<open>
  The cluster supervision daemon (\<open>csupd/src/exa_csupd.c\<close> and the messaging glue of
  \<open>csupd/src/sup_examsg.c\<close>). The record \<open>sup_daemon\<close> holds the daemon's global variables;
  \<open>me\<close> is the pointer \<open>self\<close>. \<open>delivered\<close> is the log of the memberships handed to the event
  manager and \<open>pings_sent\<close> the log of the pings multicast, both newest first; the message
  transport itself is not part of this component and delivery to it succeeds.

  \<open>loop_body\<close> is one turn of the main loop, on the outcome of the wait for a message. None
  is the end of the process, by a failed assertion or because Admind is dead.
\<close>

record sup_ping =
  sender :: exa_nodeid
  ping_incarnation :: nat
  ping_view :: sup_view

record sup_daemon =
  cluster :: sup_cluster
  me :: exa_nodeid
  self_view_changed :: bool
  other_view_changed :: bool
  accepted_clique :: exa_nodeset
  do_ping :: bool
  ping_period :: int
  ping_timeout :: int
  pings_sent :: "sup_ping list"
  delivered :: "(sup_gen \<times> exa_nodeset) list"

definition node_of :: "sup_daemon \<Rightarrow> exa_nodeid \<Rightarrow> sup_node" where
  "node_of d i = nodes (cluster d) ! i"

definition put_node :: "exa_nodeid \<Rightarrow> sup_node \<Rightarrow> sup_daemon \<Rightarrow> sup_daemon" where
  "put_node i n d = d\<lparr>cluster := (cluster d)\<lparr>nodes := (nodes (cluster d))[i := n]\<rparr>\<rparr>"

definition self_view :: "sup_daemon \<Rightarrow> sup_view" where
  "self_view d = view (node_of d (me d))"

definition set_self_view :: "sup_view \<Rightarrow> sup_daemon \<Rightarrow> sup_daemon" where
  "set_self_view v d = put_node (me d) ((node_of d (me d))\<lparr>view := v\<rparr>) d"

definition self_is_coord :: "sup_daemon \<Rightarrow> bool" where
  "self_is_coord d \<longleftrightarrow> coord (self_view d) = id (node_of d (me d))"

definition self_sees :: "sup_daemon \<Rightarrow> exa_nodeid \<Rightarrow> bool option" where
  "self_sees d i = exa_nodeset_contains (nodes_seen (self_view d)) (id (node_of d i))"

definition self_highest_gen :: "sup_daemon \<Rightarrow> sup_gen" where
  "self_highest_gen d = max (accepted (self_view d)) (committed (self_view d))"

definition set_state :: "sup_state \<Rightarrow> sup_daemon \<Rightarrow> sup_daemon" where
  "set_state new_state d = set_self_view ((self_view d)\<lparr>state := new_state\<rparr>) d"

definition mark_alive :: "exa_nodeid \<Rightarrow> sup_daemon \<Rightarrow> sup_daemon option" where
  "mark_alive i d = do {
     let d = put_node i ((node_of d i)\<lparr>last_seen := 0\<rparr>) d;
     s \<leftarrow> self_sees d i;
     if \<not> s
     then do {
       v \<leftarrow> sup_view_add_node (self_view d) (id (node_of d i));
       Some ((set_self_view v d)\<lparr>self_view_changed := True\<rparr>) }
     else Some d }"

definition mark_dead :: "exa_nodeid \<Rightarrow> sup_daemon \<Rightarrow> sup_daemon option" where
  "mark_dead i d = do {
     exa_assert (id (node_of d i) \<noteq> id (node_of d (me d)));
     let n = node_of d i;
     let d = put_node i (n\<lparr>last_seen := ping_timeout d, view := (view n)\<lparr>state := SUP_STATE_UNKNOWN\<rparr>\<rparr>) d;
     s \<leftarrow> self_sees d i;
     if s
     then do {
       v \<leftarrow> sup_view_del_node (self_view d) (id (node_of d i));
       Some ((set_self_view v d)\<lparr>self_view_changed := True\<rparr>) }
     else Some d }"

text \<open>The loop of \<open>update_last_seen\<close> reads its bound again at every turn, since
  \<open>mark_dead\<close> may lower it.\<close>

definition last_seen_body :: "exa_nodeid \<Rightarrow> sup_daemon \<Rightarrow> sup_daemon option" where
  "last_seen_body node_id d = do {
     p \<leftarrow> sup_cluster_node (cluster d) node_id;
     case p of
       None \<Rightarrow> Some d
     | Some i \<Rightarrow>
         if i = me d then Some d
         else do {
           s \<leftarrow> self_sees d i;
           if \<not> s then Some d
           else do {
             let d = put_node i ((node_of d i)\<lparr>last_seen := last_seen (node_of d i) + ping_period d\<rparr>) d;
             if last_seen (node_of d i) \<ge> ping_timeout d then mark_dead i d else Some d } } }"

function last_seen_loop :: "exa_nodeid \<Rightarrow> sup_daemon \<Rightarrow> sup_daemon option" where
  "last_seen_loop node_id d =
     (if \<not> node_id < num_seen (self_view d) then Some d
      else if \<not> node_id < EXA_MAX_NODES_NUMBER then None
      else do { d \<leftarrow> last_seen_body node_id d; last_seen_loop (node_id + 1) d })"
  by pat_completeness auto
termination
  by (relation "measure (\<lambda>(node_id, d). EXA_MAX_NODES_NUMBER - node_id)") auto

declare last_seen_loop.simps [simp del]

definition update_last_seen :: "sup_daemon \<Rightarrow> sup_daemon option" where
  "update_last_seen d = do {
     d \<leftarrow> last_seen_loop 0 d;
     exa_assert (last_seen (node_of d (me d)) = 0);
     Some d }"

definition clique_sees_self_as_coord :: "sup_daemon \<Rightarrow> bool option" where
  "clique_sees_self_as_coord d =
     for_all (\<lambda>node_id. do {
       c \<leftarrow> exa_nodeset_contains (clique (self_view d)) node_id;
       if \<not> c then Some True
       else do {
         p \<leftarrow> sup_cluster_node (cluster d) node_id;
         i \<leftarrow> p;
         s \<leftarrow> self_sees d i;
         Some (if \<not> s then False
               else if \<not> exa_nodeset_equals (clique (view (node_of d i))) (clique (self_view d)) then False
               else if coord (view (node_of d i)) \<noteq> coord (self_view d) then False
               else True) } }) [0..<num_seen (self_view d)]"

definition clique_has_accepted :: "sup_gen \<Rightarrow> sup_daemon \<Rightarrow> bool option" where
  "clique_has_accepted gen d =
     for_all (\<lambda>node_id. do {
       c \<leftarrow> exa_nodeset_contains (clique (self_view d)) node_id;
       if \<not> c then Some True
       else do {
         p \<leftarrow> sup_cluster_node (cluster d) node_id;
         i \<leftarrow> p;
         s \<leftarrow> self_sees d i;
         Some (if \<not> s then False
               else if \<not> exa_nodeset_equals (clique (view (node_of d i))) (clique (self_view d)) then False
               else if accepted (view (node_of d i)) \<noteq> gen then False
               else True) } }) [0..<num_seen (self_view d)]"

definition next_gen :: "sup_daemon \<Rightarrow> sup_gen option" where
  "next_gen d = do {
     max_gen \<leftarrow> for_each (\<lambda>node_id max_gen. do {
       p \<leftarrow> sup_cluster_node (cluster d) node_id;
       case p of
         None \<Rightarrow> Some max_gen
       | Some i \<Rightarrow> do {
           s \<leftarrow> self_sees d i;
           Some (if s then max max_gen (max (accepted (view (node_of d i))) (committed (view (node_of d i))))
                 else max_gen) } }) [0..<num_seen (self_view d)] 0;
     Some (max_gen + 1) }"

definition accept_clique :: "sup_gen \<Rightarrow> sup_daemon \<Rightarrow> sup_daemon" where
  "accept_clique gen d =
     (let d = set_state SUP_STATE_ACCEPT d;
          d = set_self_view ((self_view d)\<lparr>accepted := gen\<rparr>) d
      in d\<lparr>accepted_clique := exa_nodeset_copy (clique (self_view d))\<rparr>)"

definition sup_deliver :: "sup_gen \<Rightarrow> exa_nodeset \<Rightarrow> sup_daemon \<Rightarrow> sup_daemon" where
  "sup_deliver gen mship d = d\<lparr>delivered := (gen, exa_nodeset_copy mship) # delivered d\<rparr>"

definition commit_clique :: "sup_daemon \<Rightarrow> sup_daemon option" where
  "commit_clique d = do {
     s \<leftarrow> self_sees d (me d);
     exa_assert s;
     let d = sup_deliver (accepted (self_view d)) (accepted_clique d) d;
     let d = set_state SUP_STATE_COMMIT d;
     Some (set_self_view ((self_view d)\<lparr>committed := accepted (self_view d)\<rparr>) d) }"

definition state_change_process_ping :: "sup_ping \<Rightarrow> sup_daemon \<Rightarrow> sup_daemon option" where
  "state_change_process_ping ping d =
     (case state (ping_view ping) of
        SUP_STATE_UNKNOWN \<Rightarrow> Some d
      | SUP_STATE_CHANGE \<Rightarrow>
          if self_is_coord d
          then do {
            ok \<leftarrow> clique_sees_self_as_coord d;
            if ok then do { gen \<leftarrow> next_gen d; Some (accept_clique gen d) } else Some d }
          else Some d
      | SUP_STATE_ACCEPT \<Rightarrow>
          if \<not> self_is_coord d
          then if sender ping = coord (self_view d)
                  \<and> exa_nodeset_equals (clique (ping_view ping)) (clique (self_view d))
                  \<and> accepted (ping_view ping) > self_highest_gen d
               then Some (accept_clique (accepted (ping_view ping)) d)
               else Some d
          else Some d
      | SUP_STATE_COMMIT \<Rightarrow>
          if \<not> self_is_coord d
          then if exa_nodeset_equals (clique (ping_view ping)) (accepted_clique d)
                  \<and> committed (ping_view ping) = accepted (self_view d)
                  \<and> committed (ping_view ping) > committed (self_view d)
               then commit_clique d
               else Some d
          else Some d)"

definition state_accept_process_ping :: "sup_ping \<Rightarrow> sup_daemon \<Rightarrow> sup_daemon option" where
  "state_accept_process_ping ping d =
     (case state (ping_view ping) of
        SUP_STATE_UNKNOWN \<Rightarrow> Some d
      | SUP_STATE_CHANGE \<Rightarrow> Some d
      | SUP_STATE_ACCEPT \<Rightarrow>
          if self_is_coord d
          then if coord (ping_view ping) = id (node_of d (me d))
                  \<and> accepted (ping_view ping) = accepted (self_view d)
               then do {
                 ok \<leftarrow> clique_has_accepted (accepted (self_view d)) d;
                 if ok then commit_clique d else Some d }
               else Some d
          else Some d
      | SUP_STATE_COMMIT \<Rightarrow>
          if \<not> self_is_coord d
          then if exa_nodeset_equals (clique (ping_view ping)) (accepted_clique d)
                  \<and> committed (ping_view ping) = accepted (self_view d)
                  \<and> committed (ping_view ping) > committed (self_view d)
               then commit_clique d
               else Some d
          else Some d)"

definition state_commit_process_ping :: "sup_ping \<Rightarrow> sup_daemon \<Rightarrow> sup_daemon option" where
  "state_commit_process_ping ping d =
     (case state (ping_view ping) of
        SUP_STATE_UNKNOWN \<Rightarrow> Some d
      | SUP_STATE_CHANGE \<Rightarrow> Some d
      | SUP_STATE_ACCEPT \<Rightarrow> Some d
      | SUP_STATE_COMMIT \<Rightarrow> Some d)"

definition update_node_info :: "exa_nodeid \<Rightarrow> sup_ping \<Rightarrow> sup_daemon \<Rightarrow> sup_daemon option" where
  "update_node_info i ping d = do {
     let inca_changed = (ping_incarnation ping \<noteq> incarnation (node_of d i));
     let view_changed = (\<not> sup_view_equals (ping_view ping) (view (node_of d i)));
     s \<leftarrow> self_sees d i;
     let rebooted_too_fast = (s \<and> inca_changed);
     let d = put_node i ((node_of d i)\<lparr>incarnation := ping_incarnation ping,
                                       view := sup_view_copy (ping_view ping)\<rparr>) d;
     d \<leftarrow> (if rebooted_too_fast then mark_dead i d else mark_alive i d);
     Some (if inca_changed \<or> view_changed then d\<lparr>other_view_changed := True\<rparr> else d) }"

text \<open>The state of a ping is one of the four states by its type.\<close>

definition sup_check_ping :: "sup_ping \<Rightarrow> bool option" where
  "sup_check_ping ping = do {
     c \<leftarrow> exa_nodeset_contains (nodes_seen (ping_view ping)) (sender ping);
     Some (ping_incarnation ping \<noteq> 0 \<and> state (ping_view ping) \<noteq> SUP_STATE_UNKNOWN
           \<and> num_seen (ping_view ping) \<noteq> 0 \<and> c) }"

definition sup_process_ping :: "sup_ping \<Rightarrow> sup_daemon \<Rightarrow> sup_daemon option" where
  "sup_process_ping ping d = do {
     ok \<leftarrow> sup_check_ping ping;
     exa_assert ok;
     p \<leftarrow> sup_cluster_node (cluster d) (sender ping);
     (i, d) \<leftarrow> (case p of
         Some i \<Rightarrow> Some (i, d)
       | None \<Rightarrow> do {
           r \<leftarrow> sup_cluster_add_node (cluster d) (sender ping);
           let d = (case r of Inr cl \<Rightarrow> d\<lparr>cluster := cl\<rparr> | Inl _ \<Rightarrow> d);
           p \<leftarrow> sup_cluster_node (cluster d) (sender ping);
           i \<leftarrow> p;
           Some (i, d) });
     d \<leftarrow> (if i \<noteq> me d then update_node_info i ping d else Some d);
     case state (self_view d) of
       SUP_STATE_UNKNOWN \<Rightarrow> None
     | SUP_STATE_CHANGE \<Rightarrow> state_change_process_ping ping d
     | SUP_STATE_ACCEPT \<Rightarrow> state_accept_process_ping ping d
     | SUP_STATE_COMMIT \<Rightarrow> state_commit_process_ping ping d }"

definition sup_pre_ping :: "sup_daemon \<Rightarrow> sup_daemon option" where
  "sup_pre_ping d = do {
     d \<leftarrow> update_last_seen d;
     d \<leftarrow> (if self_view_changed d \<or> other_view_changed d
       then do {
         new_clique \<leftarrow> sup_clique_compute (cluster d);
         if \<not> exa_nodeset_equals new_clique (clique (self_view d))
         then do {
           let d = set_self_view ((self_view d)\<lparr>clique := exa_nodeset_copy new_clique\<rparr>) d;
           c \<leftarrow> exa_nodeset_first (clique (self_view d));
           Some (if c \<noteq> coord (self_view d)
                 then set_self_view ((self_view d)\<lparr>coord := c\<rparr>) d else d) }
         else Some d }
       else Some d);
     Some (if self_view_changed d \<or> other_view_changed d then set_state SUP_STATE_CHANGE d else d) }"

definition sup_post_ping :: "sup_daemon \<Rightarrow> sup_daemon" where
  "sup_post_ping d = d\<lparr>self_view_changed := False, other_view_changed := False\<rparr>"

definition sup_send_ping :: "sup_daemon \<Rightarrow> sup_daemon option" where
  "sup_send_ping d = do {
     s \<leftarrow> self (cluster d);
     let ping = \<lparr> sender = id (node_of d s), ping_incarnation = incarnation (node_of d s),
                  ping_view = sup_view_copy (self_view d) \<rparr>;
     ok \<leftarrow> sup_check_ping ping;
     exa_assert ok;
     Some (d\<lparr>pings_sent := ping # pings_sent d\<rparr>) }"

text \<open>What the wait for a message gives: an error, a timeout, no message after all, a
  message of another size or type, or a ping.\<close>

datatype sup_event = WaitError | WaitTimeout | NoMessage | OtherMessage | PingMessage sup_ping

fun sup_recv_ping :: "sup_event \<Rightarrow> sup_daemon \<Rightarrow> (sup_ping option \<times> sup_daemon) option" where
  "sup_recv_ping WaitError d = Some (None, d)"
| "sup_recv_ping WaitTimeout d = Some (None, d\<lparr>do_ping := True\<rparr>)"
| "sup_recv_ping NoMessage d = Some (None, d)"
| "sup_recv_ping OtherMessage d = None"
| "sup_recv_ping (PingMessage ping) d = Some (Some ping, d)"

definition loop_ping :: "bool \<Rightarrow> sup_daemon \<Rightarrow> sup_daemon option" where
  "loop_ping admind_exists d =
     (if do_ping d
      then do {
        let d = d\<lparr>do_ping := False\<rparr>;
        exa_assert admind_exists;
        d \<leftarrow> sup_pre_ping d;
        d \<leftarrow> sup_send_ping d;
        Some (sup_post_ping d) }
      else Some d)"

definition loop_body :: "int \<Rightarrow> bool \<Rightarrow> sup_event \<Rightarrow> sup_daemon \<Rightarrow> sup_daemon option" where
  "loop_body elapsed admind_exists ev d = do {
     exa_assert (elapsed \<le> (ping_timeout d + 1) div 2);
     d \<leftarrow> loop_ping admind_exists d;
     (p, d) \<leftarrow> sup_recv_ping ev d;
     case p of None \<Rightarrow> Some d | Some ping \<Rightarrow> sup_process_ping ping d }"

text \<open>\<open>sup_init\<close> is \<open>init\<close>: None is the failed assertion, \<open>Inl\<close> the result \<open>false\<close>.\<close>

definition sup_init :: "exa_nodeid \<Rightarrow> nat \<Rightarrow> int \<Rightarrow> int \<Rightarrow> (errcode + sup_daemon) option" where
  "sup_init local_id inca period timeout = do {
     r \<leftarrow> sup_cluster_add_node sup_cluster_init local_id;
     case r of
       Inl e \<Rightarrow> Some (Inl e)
     | Inr cl \<Rightarrow> do {
         p \<leftarrow> sup_cluster_node cl local_id;
         i \<leftarrow> p;
         let d = \<lparr> cluster = cl\<lparr>self := Some i\<rparr>, me = i, self_view_changed = False,
                   other_view_changed = False, accepted_clique = exa_nodeset_reset, do_ping = False,
                   ping_period = period, ping_timeout = timeout, pings_sent = [], delivered = [] \<rparr>;
         Some (Inr (put_node i ((node_of d i)\<lparr>incarnation := inca\<rparr>) d)) } }"

text \<open>The entry of \<open>loop\<close>: the local node always sees itself, and the first ping is due.\<close>

definition loop_start :: "sup_daemon \<Rightarrow> sup_daemon option" where
  "loop_start d = do { d \<leftarrow> mark_alive (me d) d; Some (d\<lparr>do_ping := True\<rparr>) }"

text \<open>The \<open>while\<close> loop of \<open>loop\<close>, turn by turn on its inputs: the seconds since the last turn,
  whether Admind exists, the outcome of the wait.\<close>

definition loop_run :: "(int \<times> bool \<times> sup_event) list \<Rightarrow> sup_daemon \<Rightarrow> sup_daemon option" where
  "loop_run = for_each (\<lambda>(elapsed, admind_exists, ev). loop_body elapsed admind_exists ev)"

text \<open>The checks \<open>daemon_init\<close> makes on its parsed options before it calls \<open>init\<close>.\<close>

definition daemon_options_ok :: "exa_nodeid \<Rightarrow> nat \<Rightarrow> int \<Rightarrow> int \<Rightarrow> bool" where
  "daemon_options_ok local_id inca period timeout \<longleftrightarrow>
     local_id < EXA_MAX_NODES_NUMBER \<and> local_id \<noteq> EXA_NODEID_NONE \<and> period > 0 \<and> timeout > 0
     \<and> timeout > period \<and> inca \<noteq> 0"

end
