(* ===== verification/Sup_Agreement.thy ===== *)
theory Sup_Agreement
  imports Sup_Daemon
begin

text \<open>
  What the supervision daemon guarantees. \<open>daemon_base\<close> is what its table and pointers keep,
  \<open>view_ok\<close> what its own view keeps, \<open>gen_ok\<close> what its generations and the log of delivered
  memberships keep; \<open>frame\<close> says that an operation touches neither the agreement state nor
  the configuration. No operation reaches a failed assertion from a state of the invariant,
  for pings the transport may deliver.
\<close>

definition kn :: "sup_daemon \<Rightarrow> exa_nodeid set" where
  "kn d = known (cluster d)"

text \<open>\<open>X\<close> is the set of nodes that were just added and whose view was not received yet.\<close>

definition daemon_base :: "exa_nodeid set \<Rightarrow> sup_daemon \<Rightarrow> bool" where
  "daemon_base X d \<longleftrightarrow>
     cluster_wf (cluster d) \<and> self (cluster d) = Some (me d) \<and> me d \<in> kn d \<and>
     last_seen (node_of d (me d)) = 0 \<and> incarnation (node_of d (me d)) \<noteq> 0 \<and> 0 < ping_timeout d \<and>
     (\<forall>a \<in> kn d - insert (me d) X. sees (cluster d) a a)"

definition view_ok :: "sup_daemon \<Rightarrow> bool" where
  "view_ok d \<longleftrightarrow>
     view_wf (self_view d) \<and> me d \<in> ns_elems (nodes_seen (self_view d)) \<and>
     ns_elems (nodes_seen (self_view d)) \<subseteq> kn d \<and> ns_elems (clique (self_view d)) \<subseteq> kn d \<and>
     (state (self_view d) \<noteq> SUP_STATE_UNKNOWN \<longrightarrow> me d \<in> ns_elems (clique (self_view d))) \<and>
     (ns_elems (clique (self_view d)) \<noteq> {} \<longrightarrow> coord (self_view d) = Min (ns_elems (clique (self_view d))))"

definition node_gen :: "sup_daemon \<Rightarrow> exa_nodeid \<Rightarrow> sup_gen" where
  "node_gen d i = max (accepted (view (node_of d i))) (committed (view (node_of d i)))"

definition frame :: "sup_daemon \<Rightarrow> sup_daemon \<Rightarrow> bool" where
  "frame d d' \<longleftrightarrow>
     me d' = me d \<and> kn d' = kn d \<and> accepted_clique d' = accepted_clique d \<and>
     delivered d' = delivered d \<and> do_ping d' = do_ping d \<and>
     ping_period d' = ping_period d \<and> ping_timeout d' = ping_timeout d \<and>
     (self_view_changed d \<longrightarrow> self_view_changed d') \<and>
     state (self_view d') = state (self_view d) \<and> clique (self_view d') = clique (self_view d) \<and>
     coord (self_view d') = coord (self_view d) \<and>
     accepted (self_view d') = accepted (self_view d) \<and> committed (self_view d') = committed (self_view d) \<and>
     (\<forall>j. node_gen d' j = node_gen d j)"

lemma frame_refl [simp]: "frame d d"
  by (simp add: frame_def)

lemma frame_trans: "frame a b \<Longrightarrow> frame b c \<Longrightarrow> frame a c"
  by (simp add: frame_def)

section \<open>Updating one node\<close>

lemma put_node_simps [simp]:
  "me (put_node i n d) = me d" "self (cluster (put_node i n d)) = self (cluster d)"
  "accepted_clique (put_node i n d) = accepted_clique d" "delivered (put_node i n d) = delivered d"
  "do_ping (put_node i n d) = do_ping d" "self_view_changed (put_node i n d) = self_view_changed d"
  "other_view_changed (put_node i n d) = other_view_changed d"
  "ping_timeout (put_node i n d) = ping_timeout d" "ping_period (put_node i n d) = ping_period d"
  "pings_sent (put_node i n d) = pings_sent d" "kn (put_node i n d) = kn d"
  "known_nodes (cluster (put_node i n d)) = known_nodes (cluster d)"
  by (simp_all add: put_node_def kn_def known_def)

lemma flag_simps [simp]:
  "node_of (d\<lparr>self_view_changed := b\<rparr>) = node_of d" "node_of (d\<lparr>other_view_changed := b\<rparr>) = node_of d"
  "node_of (d\<lparr>do_ping := b\<rparr>) = node_of d" "node_of (d\<lparr>accepted_clique := s\<rparr>) = node_of d"
  "node_of (d\<lparr>delivered := l\<rparr>) = node_of d" "node_of (d\<lparr>pings_sent := q\<rparr>) = node_of d"
  "self_view (d\<lparr>self_view_changed := b\<rparr>) = self_view d" "self_view (d\<lparr>other_view_changed := b\<rparr>) = self_view d"
  "self_view (d\<lparr>do_ping := b\<rparr>) = self_view d" "self_view (d\<lparr>accepted_clique := s\<rparr>) = self_view d"
  "self_view (d\<lparr>delivered := l\<rparr>) = self_view d" "self_view (d\<lparr>pings_sent := q\<rparr>) = self_view d"
  "kn (d\<lparr>self_view_changed := b\<rparr>) = kn d" "kn (d\<lparr>other_view_changed := b\<rparr>) = kn d"
  "kn (d\<lparr>do_ping := b\<rparr>) = kn d" "kn (d\<lparr>accepted_clique := s\<rparr>) = kn d"
  "kn (d\<lparr>delivered := l\<rparr>) = kn d" "kn (d\<lparr>pings_sent := q\<rparr>) = kn d"
  by (simp_all add: node_of_def self_view_def kn_def fun_eq_iff)

lemma node_of_put_node:
  assumes "cluster_wf (cluster d)" "i < EXA_MAX_NODES_NUMBER"
  shows "node_of (put_node i n d) j = (if j = i then n else node_of d j)"
  using assms by (simp add: node_of_def put_node_def cluster_wf_length)

lemma cluster_wf_put_node:
  assumes "cluster_wf (cluster d)" "id n = id (node_of d i)"
  shows "cluster_wf (cluster (put_node i n d))"
  using cluster_wf_update_node [OF assms(1), of n i] assms(2) by (simp add: put_node_def node_of_def)

lemma sees_node_of: "sees (cluster d) a b \<longleftrightarrow> b \<in> ns_elems (nodes_seen (view (node_of d a)))"
  by (simp add: sees_def node_of_def)

lemma kn_bounded: "i \<in> kn d \<Longrightarrow> i < EXA_MAX_NODES_NUMBER"
  by (simp add: kn_def known_bounded)

lemma base_wf: "daemon_base X d \<Longrightarrow> cluster_wf (cluster d)"
  by (simp add: daemon_base_def)

lemma base_me: "daemon_base X d \<Longrightarrow> me d \<in> kn d"
  by (simp add: daemon_base_def)

lemma base_id: "daemon_base X d \<Longrightarrow> i \<in> kn d \<Longrightarrow> id (node_of d i) = i"
  by (simp add: daemon_base_def cluster_wf_id node_of_def kn_def known_def)

lemma base_me_id [simp]: "daemon_base X d \<Longrightarrow> id (node_of d (me d)) = me d"
  by (blast intro: base_id base_me)

lemma base_sees: "daemon_base X d \<Longrightarrow> i \<in> kn d \<Longrightarrow>
    self_sees d i = Some (i \<in> ns_elems (nodes_seen (self_view d)))"
  by (simp add: self_sees_def base_id kn_bounded)

lemma base_node: "daemon_base X d \<Longrightarrow> i < EXA_MAX_NODES_NUMBER \<Longrightarrow>
    sup_cluster_node (cluster d) i = Some (if i \<in> kn d then Some i else None)"
  by (simp add: base_wf sup_cluster_node_eq kn_def known_def)

lemma base_put_other:
  assumes b: "daemon_base X d" and i: "i \<in> kn d" "i \<noteq> me d" and n: "id n = i"
    and s: "i \<in> ns_elems (nodes_seen (view n)) \<or> i \<in> Y" "X \<subseteq> insert i Y"
  shows "daemon_base Y (put_node i n d)"
  using assms base_id [OF b i(1)] kn_bounded [OF i(1)]
  by (auto simp: daemon_base_def cluster_wf_put_node node_of_put_node sees_node_of)

lemma self_view_put_other:
  assumes "daemon_base X d" "i \<in> kn d" "i \<noteq> me d"
  shows "self_view (put_node i n d) = self_view d"
  using assms kn_bounded [OF assms(2)] by (simp add: self_view_def base_wf node_of_put_node)

lemma self_view_set [simp]: "daemon_base X d \<Longrightarrow> self_view (set_self_view v d) = v"
  using kn_bounded [OF base_me]
  by (simp add: set_self_view_def self_view_def base_wf node_of_put_node)

lemma node_of_set: "daemon_base X d \<Longrightarrow>
    node_of (set_self_view v d) j = (if j = me d then (node_of d (me d))\<lparr>view := v\<rparr> else node_of d j)"
  using kn_bounded [OF base_me] by (simp add: set_self_view_def base_wf node_of_put_node)

lemma set_self_view_simps [simp]:
  "me (set_self_view v d) = me d" "kn (set_self_view v d) = kn d"
  "accepted_clique (set_self_view v d) = accepted_clique d" "delivered (set_self_view v d) = delivered d"
  "do_ping (set_self_view v d) = do_ping d" "self_view_changed (set_self_view v d) = self_view_changed d"
  "other_view_changed (set_self_view v d) = other_view_changed d"
  "ping_timeout (set_self_view v d) = ping_timeout d" "ping_period (set_self_view v d) = ping_period d"
  "pings_sent (set_self_view v d) = pings_sent d"
  by (simp_all add: set_self_view_def)

lemma base_set [simp]:
  assumes b: "daemon_base X d"
  shows "daemon_base X (set_self_view v d)"
proof -
  have "cluster_wf (cluster (set_self_view v d))"
    using b by (simp add: set_self_view_def cluster_wf_put_node base_wf)
  with b show ?thesis
    by (auto simp: daemon_base_def sees_node_of node_of_set [OF b]) (simp add: set_self_view_def)
qed

lemma base_flags [simp]:
  "daemon_base X (d\<lparr>self_view_changed := b\<rparr>) = daemon_base X d"
  "daemon_base X (d\<lparr>other_view_changed := b\<rparr>) = daemon_base X d"
  "daemon_base X (d\<lparr>do_ping := b\<rparr>) = daemon_base X d"
  "daemon_base X (d\<lparr>accepted_clique := s\<rparr>) = daemon_base X d"
  "daemon_base X (d\<lparr>delivered := l\<rparr>) = daemon_base X d"
  "daemon_base X (d\<lparr>pings_sent := q\<rparr>) = daemon_base X d"
  by (simp_all add: daemon_base_def)

lemma set_state_simps [simp]:
  "me (set_state s d) = me d" "kn (set_state s d) = kn d"
  "accepted_clique (set_state s d) = accepted_clique d" "delivered (set_state s d) = delivered d"
  "do_ping (set_state s d) = do_ping d" "self_view_changed (set_state s d) = self_view_changed d"
  "daemon_base X d \<Longrightarrow> self_view (set_state s d) = (self_view d)\<lparr>state := s\<rparr>"
  "daemon_base X d \<Longrightarrow> daemon_base X (set_state s d)"
  by (simp_all add: set_state_def)

lemma node_gen_put:
  assumes "daemon_base X d" "i \<in> kn d"
  shows "node_gen (put_node i n d) j =
    (if j = i then max (accepted (view n)) (committed (view n)) else node_gen d j)"
  using assms kn_bounded [OF assms(2)] by (simp add: node_gen_def base_wf node_of_put_node)

lemma node_gen_set:
  assumes "daemon_base X d"
  shows "node_gen (set_self_view v d) j = (if j = me d then max (accepted v) (committed v) else node_gen d j)"
  using assms by (simp add: node_gen_def node_of_set)

lemma node_gen_flags [simp]:
  "node_gen (d\<lparr>self_view_changed := b\<rparr>) = node_gen d" "node_gen (d\<lparr>other_view_changed := b\<rparr>) = node_gen d"
  "node_gen (d\<lparr>do_ping := b\<rparr>) = node_gen d" "node_gen (d\<lparr>accepted_clique := s\<rparr>) = node_gen d"
  "node_gen (d\<lparr>delivered := l\<rparr>) = node_gen d" "node_gen (d\<lparr>pings_sent := q\<rparr>) = node_gen d"
  by (simp_all add: node_gen_def fun_eq_iff)

lemma node_gen_me: "node_gen d (me d) = max (accepted (self_view d)) (committed (self_view d))"
  by (simp add: node_gen_def self_view_def)

section \<open>Marking nodes\<close>

lemma mark_dead_spec:
  assumes b: "daemon_base X d" and v: "view_ok d" and i: "i \<in> kn d" "i \<noteq> me d"
  shows "\<exists>d'. mark_dead i d = Some d' \<and> daemon_base X d' \<and> view_ok d' \<and> frame d d' \<and>
    ns_elems (nodes_seen (self_view d')) = ns_elems (nodes_seen (self_view d)) - {i} \<and>
    (\<forall>j. j \<noteq> i \<longrightarrow> last_seen (node_of d' j) = last_seen (node_of d j)) \<and>
    (\<forall>j. j \<noteq> i \<longrightarrow> j \<noteq> me d \<longrightarrow> node_of d' j = node_of d j)"
proof -
  let ?n = "(node_of d i)\<lparr>last_seen := ping_timeout d, view := (view (node_of d i))\<lparr>state := SUP_STATE_UNKNOWN\<rparr>\<rparr>"
  let ?d = "put_node i ?n d"
  have b1: "daemon_base X ?d"
    by (rule base_put_other [OF b i]) (use b i in \<open>auto simp: base_id daemon_base_def sees_node_of\<close>)
  have sv: "self_view ?d = self_view d" using b i by (rule self_view_put_other)
  have n: "node_of ?d i = ?n" "id ?n = i"
    using b i kn_bounded [OF i(1)] by (simp_all add: base_wf node_of_put_node base_id)
  have s: "self_sees ?d i = Some (i \<in> ns_elems (nodes_seen (self_view d)))"
    using base_sees [OF b1] i sv by simp
  have ids: "id (node_of d i) \<noteq> id (node_of d (me d))" using b i by (simp add: base_id)
  have g: "node_gen ?d j = node_gen d j" for j
    using b i(1) by (simp add: node_gen_put) (simp add: node_gen_def)
  then have g': "node_gen (set_self_view ((self_view d)\<lparr>nodes_seen := ns, num_seen := m\<rparr>) ?d) j = node_gen d j" for ns m j
    using node_gen_me [of d] by (simp add: node_gen_set [OF b1])
  have others: "j \<noteq> i \<Longrightarrow> node_of ?d j = node_of d j" for j
    using b kn_bounded [OF i(1)] by (simp add: base_wf node_of_put_node)
  show ?thesis
  proof (cases "i \<in> ns_elems (nodes_seen (self_view d))")
    case True
    from sup_view_del_node_spec [of "self_view d" i] v kn_bounded [OF i(1)]
    obtain m where m: "sup_view_del_node (self_view d) i =
        Some ((self_view d)\<lparr>nodes_seen := ns_rem (nodes_seen (self_view d)) i, num_seen := m\<rparr>)"
      "view_wf ((self_view d)\<lparr>nodes_seen := ns_rem (nodes_seen (self_view d)) i, num_seen := m\<rparr>)"
      by (auto simp: view_ok_def)
    with True b1 v i n s ids sv kn_bounded [OF i(1)] show ?thesis
      by (auto simp: mark_dead_def Let_def view_ok_def frame_def nodeset_simps node_of_set [OF b1] others g')
  next
    case False
    with b1 v n s ids sv others g show ?thesis by (simp add: mark_dead_def Let_def view_ok_def frame_def)
  qed
qed

lemma mark_alive_spec:
  assumes b: "daemon_base X d" and v: "view_ok d" and i: "i \<in> kn d" "i \<noteq> me d"
  shows "\<exists>d'. mark_alive i d = Some d' \<and> daemon_base X d' \<and> view_ok d' \<and> frame d d' \<and>
    ns_elems (nodes_seen (self_view d')) = insert i (ns_elems (nodes_seen (self_view d)))"
proof -
  let ?n = "(node_of d i)\<lparr>last_seen := 0\<rparr>"
  let ?d = "put_node i ?n d"
  have b1: "daemon_base X ?d"
    by (rule base_put_other [OF b i]) (use b i in \<open>auto simp: base_id daemon_base_def sees_node_of\<close>)
  have sv: "self_view ?d = self_view d" using b i by (rule self_view_put_other)
  have n: "node_of ?d i = ?n" "id ?n = i"
    using b i kn_bounded [OF i(1)] by (simp_all add: base_wf node_of_put_node base_id)
  have s: "self_sees ?d i = Some (i \<in> ns_elems (nodes_seen (self_view d)))"
    using base_sees [OF b1] i sv by simp
  have lt: "i < EXA_MAX_NODES_NUMBER" using i by (simp add: kn_bounded)
  have g: "node_gen ?d j = node_gen d j" for j
    using b i(1) by (simp add: node_gen_put) (simp add: node_gen_def)
  then have g': "node_gen (set_self_view ((self_view d)\<lparr>nodes_seen := ns, num_seen := m\<rparr>) ?d) j = node_gen d j" for ns m j
    using node_gen_me [of d] by (simp add: node_gen_set [OF b1])
  show ?thesis
  proof (cases "i \<in> ns_elems (nodes_seen (self_view d))")
    case True
    with b1 v n s sv g show ?thesis by (auto simp: mark_alive_def Let_def view_ok_def frame_def)
  next
    case False
    with b1 v i n s sv lt view_wf_add [of "self_view d" i] show ?thesis
      by (auto simp: mark_alive_def Let_def view_ok_def frame_def nodeset_simps sup_view_add_node_eq g')
  qed
qed

section \<open>Ageing the nodes\<close>

definition seen :: "sup_daemon \<Rightarrow> exa_nodeid set" where
  "seen d = ns_elems (nodes_seen (self_view d))"

definition expired :: "sup_daemon \<Rightarrow> exa_nodeid \<Rightarrow> bool" where
  "expired d j \<longleftrightarrow> j \<noteq> me d \<and> last_seen (node_of d j) + ping_period d \<ge> ping_timeout d"

text \<open>The state \<open>d'\<close> of the loop that started in \<open>d\<close>, before the turn \<open>k\<close>.\<close>

definition ageing :: "exa_nodeid set \<Rightarrow> exa_nodeid \<Rightarrow> sup_daemon \<Rightarrow> sup_daemon \<Rightarrow> bool" where
  "ageing X k d d' \<longleftrightarrow>
     daemon_base X d' \<and> view_ok d' \<and> frame d d' \<and>
     seen d' = {j \<in> seen d. j < k \<longrightarrow> \<not> expired d j} \<and>
     (\<forall>j \<in> seen d'. last_seen (node_of d' j) =
        last_seen (node_of d j) + (if j < k \<and> j \<noteq> me d then ping_period d else 0))"

lemma ageingI:
  assumes "daemon_base X d'" "view_ok d'" "frame d d'" "seen d' = {j \<in> seen d. j < k \<longrightarrow> \<not> expired d j}"
    and "\<And>j. j \<in> seen d' \<Longrightarrow> last_seen (node_of d' j) =
        last_seen (node_of d j) + (if j < k \<and> j \<noteq> me d then ping_period d else 0)"
  shows "ageing X k d d'"
  using assms unfolding ageing_def by blast

lemma ageing_start: "daemon_base X d \<Longrightarrow> view_ok d \<Longrightarrow> ageing X 0 d d"
  by (simp add: ageing_def)

lemma seen_kn: "view_ok d \<Longrightarrow> seen d \<subseteq> kn d"
  by (simp add: view_ok_def seen_def)

lemma ageing_skip:
  assumes a: "ageing X k d e" and k: "k \<notin> seen e \<or> k = me d"
  shows "ageing X (Suc k) d e"
proof -
  have "seen e = {j \<in> seen d. j < Suc k \<longrightarrow> \<not> expired d j}"
    using assms by (auto simp: ageing_def less_Suc_eq expired_def)
  moreover have "last_seen (node_of e j) =
      last_seen (node_of d j) + (if j < Suc k \<and> j \<noteq> me d then ping_period d else 0)" if "j \<in> seen e" for j
    using assms that by (auto simp: ageing_def less_Suc_eq)
  moreover have "daemon_base X e" "view_ok e" "frame d e" using a by (simp_all add: ageing_def)
  ultimately show ?thesis by (intro ageingI)
qed

lemma ageing_count:
  assumes a: "ageing X k d e" and k: "k \<in> seen e" "k \<noteq> me d"
  shows "\<exists>e'. (let e1 = put_node k ((node_of e k)\<lparr>last_seen := last_seen (node_of e k) + ping_period e\<rparr>) e
      in if last_seen (node_of e1 k) \<ge> ping_timeout e1 then mark_dead k e1 else Some e1) = Some e'
    \<and> ageing X (Suc k) d e'"
proof -
  let ?n = "(node_of e k)\<lparr>last_seen := last_seen (node_of e k) + ping_period e\<rparr>"
  let ?e = "put_node k ?n e"
  have b: "daemon_base X e" and v: "view_ok e" and f: "frame d e" using a by (simp_all add: ageing_def)
  have i: "k \<in> kn e" "k \<noteq> me e" using v k f seen_kn by (auto simp: frame_def)
  have b1: "daemon_base X ?e"
    by (rule base_put_other [OF b i]) (use b i in \<open>auto simp: base_id daemon_base_def sees_node_of\<close>)
  have sv: "self_view ?e = self_view e" using b i by (rule self_view_put_other)
  have v1: "view_ok ?e" using v by (simp add: view_ok_def sv)
  have "node_gen ?e j = node_gen e j" for j
    using b i(1) by (simp add: node_gen_put) (simp add: node_gen_def)
  then have "frame e ?e" by (simp add: frame_def sv)
  with f have f1: "frame d ?e" by (rule frame_trans)
  have nd: "node_of ?e j = (if j = k then ?n else node_of e j)" for j
    using b kn_bounded [OF i(1)] by (simp add: base_wf node_of_put_node)
  have same: "ping_period e = ping_period d" "ping_timeout e = ping_timeout d" "me e = me d"
    using f by (simp_all add: frame_def)
  have sd: "seen e = {j \<in> seen d. j < k \<longrightarrow> \<not> expired d j}"
    and ls: "\<And>j. j \<in> seen e \<Longrightarrow> last_seen (node_of e j) =
      last_seen (node_of d j) + (if j < k \<and> j \<noteq> me d then ping_period d else 0)"
    using a by (simp_all add: ageing_def)
  have last: "last_seen (node_of e k) = last_seen (node_of d k)" using ls [OF k(1)] by simp
  have kd: "k \<in> seen d" using k(1) sd by simp
  show ?thesis
  proof (cases "last_seen ?n \<ge> ping_timeout e")
    case True
    with last same k have ex: "expired d k" by (simp add: expired_def)
    from mark_dead_spec [OF b1 v1, of k] i
    obtain e' where e': "mark_dead k ?e = Some e'" "daemon_base X e'" "view_ok e'" "frame ?e e'"
      "ns_elems (nodes_seen (self_view e')) = ns_elems (nodes_seen (self_view ?e)) - {k}"
      "\<forall>j. j \<noteq> k \<longrightarrow> last_seen (node_of e' j) = last_seen (node_of ?e j)" by auto
    have "seen e' = {j \<in> seen d. j < Suc k \<longrightarrow> \<not> expired d j}"
    proof -
      have "seen e' = seen e - {k}" using e'(5) by (simp add: seen_def sv)
      with sd ex show ?thesis by (auto simp: less_Suc_eq)
    qed
    moreover have "last_seen (node_of e' j) =
        last_seen (node_of d j) + (if j < Suc k \<and> j \<noteq> me d then ping_period d else 0)" if "j \<in> seen e'" for j
    proof -
      have j: "j \<in> seen e" "j \<noteq> k" using that e'(5) by (auto simp: seen_def sv)
      with e'(6) nd have "last_seen (node_of e' j) = last_seen (node_of e j)" by simp
      with ls [OF j(1)] j(2) show ?thesis by (simp add: less_Suc_eq)
    qed
    ultimately have "ageing X (Suc k) d e'"
      using e'(2,3) frame_trans [OF f1 e'(4)] by (intro ageingI)
    with True e'(1) show ?thesis by (simp add: nd Let_def)
  next
    case False
    with last same k have ex: "\<not> expired d k" by (simp add: expired_def)
    have se: "seen ?e = seen e" by (simp add: seen_def sv)
    have "seen ?e = {j \<in> seen d. j < Suc k \<longrightarrow> \<not> expired d j}"
      unfolding se sd using ex by (auto simp: less_Suc_eq)
    moreover have "last_seen (node_of ?e j) =
        last_seen (node_of d j) + (if j < Suc k \<and> j \<noteq> me d then ping_period d else 0)" if "j \<in> seen ?e" for j
    proof (cases "j = k")
      case True
      have "last_seen (node_of ?e k) = last_seen (node_of e k) + ping_period e" by (simp add: nd)
      with True last k(2) same(1) show ?thesis by simp
    next
      case False
      then have "node_of ?e j = node_of e j" by (simp add: nd)
      with ls [of j] that se False show ?thesis by (simp add: less_Suc_eq)
    qed
    ultimately have "ageing X (Suc k) d ?e" using b1 v1 f1 by (intro ageingI)
    with False show ?thesis by (simp add: nd Let_def)
  qed
qed

lemma last_seen_body_spec:
  assumes a: "ageing X k d e" and k: "k < EXA_MAX_NODES_NUMBER"
  shows "\<exists>e'. last_seen_body k e = Some e' \<and> ageing X (Suc k) d e'"
proof -
  have b: "daemon_base X e" and v: "view_ok e" and me: "me e = me d"
    using a by (simp_all add: ageing_def frame_def)
  have node: "sup_cluster_node (cluster e) k = Some (if k \<in> kn e then Some k else None)"
    using b k by (rule base_node)
  show ?thesis
  proof (cases "k \<in> seen e \<and> k \<noteq> me e")
    case True
    then have "k \<in> kn e" using seen_kn [OF v] by auto
    with True node base_sees [OF b] ageing_count [OF a] me show ?thesis
      by (simp add: last_seen_body_def seen_def)
  next
    case False
    then have "last_seen_body k e = Some e"
      using node base_sees [OF b, of k] by (auto simp: last_seen_body_def seen_def)
    with False ageing_skip [OF a] me show ?thesis by auto
  qed
qed

lemma last_seen_loop_spec:
  assumes "ageing X k d e"
  shows "\<exists>e' k'. last_seen_loop k e = Some e' \<and> ageing X k' d e' \<and> num_seen (self_view e') \<le> k'"
  using assms
proof (induction k e rule: last_seen_loop.induct)
  case (1 k e)
  have le: "num_seen (self_view e) \<le> EXA_MAX_NODES_NUMBER"
    using 1(2) view_wf_num_seen by (simp add: ageing_def view_ok_def)
  show ?case
  proof (cases "k < num_seen (self_view e)")
    case True
    with le have k: "k < EXA_MAX_NODES_NUMBER" by simp
    from last_seen_body_spec [OF 1(2) k]
    obtain e' where e': "last_seen_body k e = Some e'" "ageing X (Suc k) d e'" by blast
    from 1(1) [of e'] True k e' show ?thesis by (simp add: last_seen_loop.simps [of k e])
  next
    case False
    with 1(2) show ?thesis by (auto simp: last_seen_loop.simps [of k e])
  qed
qed

text \<open>All the nodes are aged, although the bound of the loop moves while it runs.\<close>

lemma update_last_seen_spec:
  assumes b: "daemon_base X d" and v: "view_ok d"
  shows "\<exists>d'. update_last_seen d = Some d' \<and> daemon_base X d' \<and> view_ok d' \<and> frame d d' \<and>
    seen d' = {j \<in> seen d. \<not> expired d j} \<and>
    (\<forall>j \<in> seen d' - {me d}. last_seen (node_of d' j) = last_seen (node_of d j) + ping_period d)"
proof -
  from last_seen_loop_spec [OF ageing_start [OF b v]]
  obtain e k where e: "last_seen_loop 0 d = Some e" "ageing X k d e" "num_seen (self_view e) \<le> k" by blast
  have below: "j < k" if "j \<in> seen e" for j
    using e that view_wf_bound [of "self_view e" j] by (auto simp: ageing_def view_ok_def seen_def)
  then have sd: "seen e = {j \<in> seen d. \<not> expired d j}" using e(2) by (auto simp: ageing_def)
  have ls: "last_seen (node_of e j) = last_seen (node_of d j) + ping_period d" if "j \<in> seen e - {me d}" for j
    using e(2) below that by (simp add: ageing_def)
  have inv: "daemon_base X e" "view_ok e" "frame d e" using e(2) by (simp_all add: ageing_def)
  then have "update_last_seen d = Some e" using e(1) by (simp add: update_last_seen_def daemon_base_def)
  with inv sd ls show ?thesis by blast
qed

section \<open>Reading the views of the clique\<close>

definition daemon_inv :: "sup_daemon \<Rightarrow> bool" where
  "daemon_inv d \<longleftrightarrow> daemon_base {} d \<and> view_ok d"

lemma num_seen_bounded: "view_ok d \<Longrightarrow> i < num_seen (self_view d) \<Longrightarrow> i < EXA_MAX_NODES_NUMBER"
  using view_wf_num_seen [of "self_view d"] by (simp add: view_ok_def)

lemma clique_member_known: "view_ok d \<Longrightarrow> i \<in> ns_elems (clique (self_view d)) \<Longrightarrow> i \<in> kn d"
  by (auto simp: view_ok_def)

lemma clique_sees_self_as_coord_eq:
  assumes b: "daemon_base X d" and v: "view_ok d"
  shows "clique_sees_self_as_coord d = Some (\<forall>i \<in> set [0..<num_seen (self_view d)].
    i \<in> ns_elems (clique (self_view d)) \<longrightarrow> i \<in> seen d \<and>
      clique (view (node_of d i)) = clique (self_view d) \<and>
      coord (view (node_of d i)) = coord (self_view d))"
  unfolding clique_sees_self_as_coord_def
proof (rule for_all_eq)
  fix i assume "i \<in> set [0..<num_seen (self_view d)]"
  then have "i < EXA_MAX_NODES_NUMBER" using v num_seen_bounded by simp
  with b v base_node [OF b] base_sees [OF b, of i] clique_member_known [OF v, of i]
  show "(do {
       c \<leftarrow> exa_nodeset_contains (clique (self_view d)) i;
       if \<not> c then Some True
       else do {
         p \<leftarrow> sup_cluster_node (cluster d) i;
         i \<leftarrow> p;
         s \<leftarrow> self_sees d i;
         Some (if \<not> s then False
               else if \<not> exa_nodeset_equals (clique (view (node_of d i))) (clique (self_view d)) then False
               else if coord (view (node_of d i)) \<noteq> coord (self_view d) then False
               else True) } }) =
    Some (i \<in> ns_elems (clique (self_view d)) \<longrightarrow> i \<in> seen d \<and>
      clique (view (node_of d i)) = clique (self_view d) \<and>
      coord (view (node_of d i)) = coord (self_view d))"
    by (auto simp: seen_def nodeset_simps ns_elems_inject)
qed

lemma clique_has_accepted_eq:
  assumes b: "daemon_base X d" and v: "view_ok d"
  shows "clique_has_accepted gen d = Some (\<forall>i \<in> set [0..<num_seen (self_view d)].
    i \<in> ns_elems (clique (self_view d)) \<longrightarrow> i \<in> seen d \<and>
      clique (view (node_of d i)) = clique (self_view d) \<and> accepted (view (node_of d i)) = gen)"
  unfolding clique_has_accepted_def
proof (rule for_all_eq)
  fix i assume "i \<in> set [0..<num_seen (self_view d)]"
  then have "i < EXA_MAX_NODES_NUMBER" using v num_seen_bounded by simp
  with b v base_node [OF b] base_sees [OF b, of i] clique_member_known [OF v, of i]
  show "(do {
       c \<leftarrow> exa_nodeset_contains (clique (self_view d)) i;
       if \<not> c then Some True
       else do {
         p \<leftarrow> sup_cluster_node (cluster d) i;
         i \<leftarrow> p;
         s \<leftarrow> self_sees d i;
         Some (if \<not> s then False
               else if \<not> exa_nodeset_equals (clique (view (node_of d i))) (clique (self_view d)) then False
               else if accepted (view (node_of d i)) \<noteq> gen then False
               else True) } }) =
    Some (i \<in> ns_elems (clique (self_view d)) \<longrightarrow> i \<in> seen d \<and>
      clique (view (node_of d i)) = clique (self_view d) \<and> accepted (view (node_of d i)) = gen)"
    by (auto simp: seen_def nodeset_simps ns_elems_inject)
qed

text \<open>The next generation is one more than the highest a seen node knows of.\<close>

lemma next_gen_spec:
  assumes b: "daemon_base X d" and v: "view_ok d"
  shows "\<exists>g. next_gen d = Some (g + 1) \<and> (\<forall>i \<in> seen d. node_gen d i \<le> g) \<and>
    (g = 0 \<or> (\<exists>i \<in> seen d. g = node_gen d i))"
proof -
  let ?body = "\<lambda>node_id max_gen. do {
       p \<leftarrow> sup_cluster_node (cluster d) node_id;
       case p of
         None \<Rightarrow> Some max_gen
       | Some i \<Rightarrow> do {
           s \<leftarrow> self_sees d i;
           Some (if s then max max_gen (max (accepted (view (node_of d i))) (committed (view (node_of d i))))
                 else max_gen) } }"
  have body: "?body i g = Some (if i \<in> seen d then max g (node_gen d i) else g)"
    if "i < num_seen (self_view d)" for i g
  proof -
    have "i < EXA_MAX_NODES_NUMBER" using v that by (rule num_seen_bounded)
    then show ?thesis using base_node [OF b, of i] base_sees [OF b, of i] seen_kn [OF v]
      by (auto simp: seen_def node_gen_def)
  qed
  have "\<exists>g. for_each ?body [0..<num_seen (self_view d)] 0 = Some g \<and>
      (\<forall>i \<in> seen d \<inter> set [0..<num_seen (self_view d)]. node_gen d i \<le> g) \<and>
      (g = 0 \<or> (\<exists>i \<in> seen d. g = node_gen d i))"
  proof (rule for_each_invariant [where P = "\<lambda>ds g. (\<forall>i \<in> seen d \<inter> set ds. node_gen d i \<le> g) \<and>
      (g = 0 \<or> (\<exists>i \<in> seen d. g = node_gen d i))"], simp)
    fix ds i is' g
    assume "[0..<num_seen (self_view d)] = ds @ i # is'"
    then have "i \<in> set [0..<num_seen (self_view d)]" by simp
    then have "i < num_seen (self_view d)" by simp
    note bi = body [OF this]
    assume inv: "(\<forall>i \<in> seen d \<inter> set ds. node_gen d i \<le> g) \<and> (g = 0 \<or> (\<exists>i \<in> seen d. g = node_gen d i))"
    show "\<exists>g'. ?body i g = Some g' \<and> (\<forall>j \<in> seen d \<inter> set (ds @ [i]). node_gen d j \<le> g') \<and>
        (g' = 0 \<or> (\<exists>j \<in> seen d. g' = node_gen d j))"
      unfolding bi using inv by (auto simp: max_def intro: order_trans)
  qed
  moreover have "seen d \<inter> set [0..<num_seen (self_view d)] = seen d"
    using v view_wf_bound [of "self_view d"] by (auto simp: view_ok_def seen_def)
  ultimately show ?thesis unfolding next_gen_def by auto
qed

lemma word_less_plus_1: "y \<le> g \<Longrightarrow> g \<noteq> - 1 \<Longrightarrow> y < g + 1" for y g :: sup_gen
proof -
  assume "y \<le> g" "g \<noteq> - 1"
  then have "1 + g \<noteq> 0" by (simp add: add_eq_0_iff)
  then have "unat (g + 1) = Suc (unat g)" unfolding add.commute [of g 1] by (rule unatSuc)
  with \<open>y \<le> g\<close> show "y < g + 1" unfolding word_less_nat_alt word_le_nat_alt by linarith
qed

section \<open>Accepting and committing\<close>

lemma put_node_twice: "put_node i n (put_node i m d) = put_node i n d"
  by (simp add: put_node_def)

lemma set_self_view_twice: "daemon_base X d \<Longrightarrow> set_self_view v (set_self_view w d) = set_self_view v d"
  by (simp add: set_self_view_def [of v] node_of_set put_node_twice) (simp add: set_self_view_def put_node_twice)

lemma accept_clique_simps:
  assumes b: "daemon_base X d"
  shows "self_view (accept_clique g d) = (self_view d)\<lparr>state := SUP_STATE_ACCEPT, accepted := g\<rparr>"
    and "daemon_base X (accept_clique g d)" "kn (accept_clique g d) = kn d" "me (accept_clique g d) = me d"
    and "accepted_clique (accept_clique g d) = clique (self_view d)"
    and "delivered (accept_clique g d) = delivered d" "do_ping (accept_clique g d) = do_ping d"
    and "self_view_changed (accept_clique g d) = self_view_changed d"
    and "ping_timeout (accept_clique g d) = ping_timeout d"
  using b by (simp_all add: accept_clique_def Let_def exa_nodeset_copy_def set_state_def
      set_self_view_twice [of X])

definition committed_daemon :: "sup_daemon \<Rightarrow> sup_daemon" where
  "committed_daemon d =
     set_self_view ((self_view d)\<lparr>state := SUP_STATE_COMMIT, committed := accepted (self_view d)\<rparr>)
       (d\<lparr>delivered := (accepted (self_view d), accepted_clique d) # delivered d\<rparr>)"

lemma commit_clique_eq:
  assumes "daemon_base X d" "view_ok d"
  shows "commit_clique d = Some (committed_daemon d)"
proof -
  let ?e = "d\<lparr>delivered := (accepted (self_view d), accepted_clique d) # delivered d\<rparr>"
  have "self_sees d (me d) = Some True"
    using base_sees [OF assms(1)] base_me [OF assms(1)] assms(2) by (simp add: view_ok_def)
  moreover have "daemon_base X ?e" using assms(1) by simp
  ultimately show ?thesis
    by (simp add: commit_clique_def sup_deliver_def exa_nodeset_copy_def committed_daemon_def set_state_def
        set_self_view_twice [of X])
qed

lemma committed_daemon_simps:
  assumes b: "daemon_base X d"
  shows "self_view (committed_daemon d) =
      (self_view d)\<lparr>state := SUP_STATE_COMMIT, committed := accepted (self_view d)\<rparr>"
    and "daemon_base X (committed_daemon d)" "kn (committed_daemon d) = kn d" "me (committed_daemon d) = me d"
    and "accepted_clique (committed_daemon d) = accepted_clique d"
    and "delivered (committed_daemon d) = (accepted (self_view d), accepted_clique d) # delivered d"
    and "do_ping (committed_daemon d) = do_ping d"
    and "self_view_changed (committed_daemon d) = self_view_changed d"
    and "ping_timeout (committed_daemon d) = ping_timeout d"
proof -
  have b1: "daemon_base X (d\<lparr>delivered := (accepted (self_view d), accepted_clique d) # delivered d\<rparr>)"
    using b by simp
  show "self_view (committed_daemon d) =
      (self_view d)\<lparr>state := SUP_STATE_COMMIT, committed := accepted (self_view d)\<rparr>"
    "daemon_base X (committed_daemon d)" "kn (committed_daemon d) = kn d" "me (committed_daemon d) = me d"
    "accepted_clique (committed_daemon d) = accepted_clique d"
    "delivered (committed_daemon d) = (accepted (self_view d), accepted_clique d) # delivered d"
    "do_ping (committed_daemon d) = do_ping d" "self_view_changed (committed_daemon d) = self_view_changed d"
    "ping_timeout (committed_daemon d) = ping_timeout d"
    using b1 by (simp_all add: committed_daemon_def)
qed

text \<open>The three things a ping can do to the agreement, whatever the state: nothing, accept the
  work clique, or commit the accepted one.\<close>

definition outcome :: "sup_daemon \<Rightarrow> sup_daemon \<Rightarrow> bool" where
  "outcome d d' \<longleftrightarrow>
     d' = d \<or>
     (\<exists>g. d' = accept_clique g d \<and> (self_highest_gen d < g \<or> next_gen d = Some g)) \<or>
     d' = committed_daemon d \<and>
       (committed (self_view d) < accepted (self_view d) \<or> state (self_view d) = SUP_STATE_ACCEPT)"

lemma state_change_outcome:
  assumes b: "daemon_base X d" and v: "view_ok d"
  shows "\<exists>d'. state_change_process_ping ping d = Some d' \<and> outcome d d'"
proof -
  obtain g where "next_gen d = Some g" using next_gen_spec [OF b v] by blast
  with commit_clique_eq [OF b v] clique_sees_self_as_coord_eq [OF b v] show ?thesis
    by (auto simp: state_change_process_ping_def outcome_def split: sup_state.split)
qed

lemma state_accept_outcome:
  assumes b: "daemon_base X d" and v: "view_ok d" and s: "state (self_view d) = SUP_STATE_ACCEPT"
  shows "\<exists>d'. state_accept_process_ping ping d = Some d' \<and> outcome d d'"
  using commit_clique_eq [OF b v] clique_has_accepted_eq [OF b v] s
  by (auto simp: state_accept_process_ping_def outcome_def split: sup_state.split)

lemma state_commit_outcome: "\<exists>d'. state_commit_process_ping ping d = Some d' \<and> outcome d d'"
  by (auto simp: state_commit_process_ping_def outcome_def split: sup_state.split)

lemma outcome_inv:
  assumes b: "daemon_base X d" and v: "view_ok d" and s: "state (self_view d) \<noteq> SUP_STATE_UNKNOWN"
    and o: "outcome d d'"
  shows "daemon_base X d' \<and> view_ok d' \<and> kn d' = kn d \<and> me d' = me d \<and> ping_timeout d' = ping_timeout d \<and>
    state (self_view d') \<noteq> SUP_STATE_UNKNOWN"
proof -
  from o consider "d' = d" | g where "d' = accept_clique g d" | "d' = committed_daemon d"
    unfolding outcome_def by blast
  then show ?thesis
  proof cases
    case 1
    with assms show ?thesis by simp
  next
    case (2 g)
    with accept_clique_simps [OF b, of g] v s show ?thesis by (simp add: view_ok_def view_wf_def)
  next
    case 3
    with committed_daemon_simps [OF b] v s show ?thesis by (simp add: view_ok_def view_wf_def)
  qed
qed

section \<open>Processing a ping\<close>

definition ping_ok :: "sup_ping \<Rightarrow> bool" where
  "ping_ok ping \<longleftrightarrow> sender ping < EXA_MAX_NODES_NUMBER \<and> sup_check_ping ping = Some True"

lemma ping_ok_sees: "ping_ok ping \<Longrightarrow> sender ping \<in> ns_elems (nodes_seen (ping_view ping))"
  by (auto simp: ping_ok_def sup_check_ping_def bind_eq_Some_conv)

definition ping_gen :: "sup_ping \<Rightarrow> sup_gen" where
  "ping_gen ping = max (accepted (ping_view ping)) (committed (ping_view ping))"

text \<open>What a ping's first half, the update of the sender's entry, keeps.\<close>

definition received :: "sup_ping \<Rightarrow> sup_daemon \<Rightarrow> sup_daemon \<Rightarrow> bool" where
  "received ping d d' \<longleftrightarrow>
     daemon_base {} d' \<and> view_ok d' \<and> me d' = me d \<and> kn d' = insert (sender ping) (kn d) \<and>
     accepted_clique d' = accepted_clique d \<and> delivered d' = delivered d \<and> do_ping d' = do_ping d \<and>
     ping_timeout d' = ping_timeout d \<and>
     state (self_view d') = state (self_view d) \<and> clique (self_view d') = clique (self_view d) \<and>
     coord (self_view d') = coord (self_view d) \<and>
     accepted (self_view d') = accepted (self_view d) \<and> committed (self_view d') = committed (self_view d) \<and>
     (\<forall>j. j \<noteq> me d \<longrightarrow> node_gen d' j = (if j = sender ping then ping_gen ping else node_gen d j))"

lemma update_node_info_spec:
  assumes b: "daemon_base {i} d" and v: "view_ok d" and i: "i \<in> kn d" "i \<noteq> me d"
    and ping: "ping_ok ping" "sender ping = i"
  shows "\<exists>d'. update_node_info i ping d = Some d' \<and> received ping d d'"
proof -
  let ?n = "(node_of d i)\<lparr>incarnation := ping_incarnation ping, view := sup_view_copy (ping_view ping)\<rparr>"
  let ?d = "put_node i ?n d"
  have b1: "daemon_base {} ?d"
    by (rule base_put_other [OF b i]) (use b i ping ping_ok_sees in \<open>auto simp: base_id sup_view_copy_def\<close>)
  have sv: "self_view ?d = self_view d" using b i by (rule self_view_put_other)
  have v1: "view_ok ?d" using v by (simp add: view_ok_def sv)
  have g1: "node_gen ?d j = (if j = i then ping_gen ping else node_gen d j)" for j
    using b i by (simp add: node_gen_put ping_gen_def sup_view_copy_def)
  have s: "\<exists>r. self_sees d i = Some r" using base_sees [OF b i(1)] by blast
  have rec: "received ping d e" "received ping d (e\<lparr>other_view_changed := True\<rparr>)"
    if "daemon_base {} e" "view_ok e" "frame ?d e" for e
    using that i(1) ping(2) by (auto simp: received_def frame_def sv g1 view_ok_def)
  obtain e where "mark_dead i ?d = Some e" "daemon_base {} e" "view_ok e" "frame ?d e"
    using mark_dead_spec [OF b1 v1, of i] i by auto
  moreover obtain f where "mark_alive i ?d = Some f" "daemon_base {} f" "view_ok f" "frame ?d f"
    using mark_alive_spec [OF b1 v1, of i] i by auto
  ultimately show ?thesis using s rec unfolding update_node_info_def by (auto simp: Let_def)
qed

text \<open>The generations: the committed one never passes the accepted one, what was delivered is
  in strictly increasing order and consists of memberships of known nodes with the local node.\<close>

definition gen_ok :: "sup_daemon \<Rightarrow> bool" where
  "gen_ok d \<longleftrightarrow>
     committed (self_view d) \<le> accepted (self_view d) \<and>
     (state (self_view d) = SUP_STATE_ACCEPT \<longrightarrow> committed (self_view d) < accepted (self_view d)) \<and>
     (accepted (self_view d) \<noteq> 0 \<longrightarrow>
        me d \<in> ns_elems (accepted_clique d) \<and> ns_elems (accepted_clique d) \<subseteq> kn d) \<and>
     sorted_wrt (>) (map fst (delivered d)) \<and>
     (\<forall>(g, m) \<in> set (delivered d). g \<noteq> 0 \<and> g \<le> committed (self_view d) \<and>
        me d \<in> ns_elems m \<and> ns_elems m \<subseteq> kn d)"

definition gen_room :: "sup_daemon \<Rightarrow> bool" where
  "gen_room d \<longleftrightarrow> (\<forall>j \<in> kn d. node_gen d j \<noteq> - 1)"

lemma outcome_gen:
  assumes b: "daemon_base X d" and v: "view_ok d" and s: "state (self_view d) \<noteq> SUP_STATE_UNKNOWN"
    and g: "gen_ok d" and room: "gen_room d" and o: "outcome d d'"
  shows "gen_ok d'"
proof -
  from o consider "d' = d"
    | g where "d' = accept_clique g d" "self_highest_gen d < g \<or> next_gen d = Some g"
    | "d' = committed_daemon d" "committed (self_view d) < accepted (self_view d)"
    unfolding outcome_def using g by (auto simp: gen_ok_def)
  then show ?thesis
  proof cases
    case 1
    with g show ?thesis by simp
  next
    case (2 n)
    have me: "me d \<in> seen d" "seen d \<subseteq> kn d" using v by (auto simp: view_ok_def seen_def)
    have "node_gen d (me d) < n"
    proof (cases "self_highest_gen d < n")
      case True
      then show ?thesis by (simp add: node_gen_me self_highest_gen_def)
    next
      case False
      with 2(2) next_gen_spec [OF b v] obtain m where m: "n = m + 1" "\<forall>i \<in> seen d. node_gen d i \<le> m"
        "m = 0 \<or> (\<exists>i \<in> seen d. m = node_gen d i)" by auto
      then have "m \<noteq> - 1" using room me by (auto simp: gen_room_def)
      with m me show ?thesis by (auto intro: word_less_plus_1)
    qed
    then have "committed (self_view d) < n" "n \<noteq> 0" by (auto simp: node_gen_me)
    with 2(1) accept_clique_simps [OF b, of n] g v s show ?thesis by (auto simp: gen_ok_def view_ok_def)
  next
    case 3
    have "accepted (self_view d) \<noteq> 0" using 3(2) by auto
    moreover have "g' < accepted (self_view d)" if "(g', m) \<in> set (delivered d)" for g' m
      using g that 3(2) by (auto simp: gen_ok_def intro: le_less_trans)
    ultimately show ?thesis using 3 committed_daemon_simps [OF b] g by (force simp: gen_ok_def)
  qed
qed

lemma received_gen:
  assumes "received ping d d'" "gen_ok d"
  shows "gen_ok d'"
  using assms by (auto simp: received_def gen_ok_def)

lemma received_room:
  assumes r: "received ping d d'" and room: "gen_room d" and p: "ping_gen ping \<noteq> - 1" and me: "me d \<in> kn d"
  shows "gen_room d'"
  unfolding gen_room_def
proof
  fix j assume j: "j \<in> kn d'"
  show "node_gen d' j \<noteq> - 1"
  proof (cases "j = me d")
    case True
    have "node_gen d' (me d') = node_gen d (me d)" unfolding node_gen_me using r by (simp add: received_def)
    with True r room me show ?thesis by (simp add: received_def gen_room_def)
  next
    case False
    with r room p j show ?thesis by (auto simp: received_def gen_room_def)
  qed
qed

end
