(* ===== verification/Sup_Loop.thy ===== *)
theory Sup_Loop
  imports Sup_Agreement
begin

text \<open>
  The main loop of the supervision daemon keeps its invariant and never reaches a failed
  assertion, from the state \<open>init\<close> and the entry of \<open>loop\<close> build, for any sequence of events.
  The memberships it delivers come in strictly increasing generations.
\<close>

section \<open>A received ping\<close>

lemma add_sender:
  assumes b: "daemon_base {} d" and v: "view_ok d" and i: "i < EXA_MAX_NODES_NUMBER" "i \<notin> kn d"
  shows "\<exists>cl. sup_cluster_add_node (cluster d) i = Some (Inr cl) \<and>
    daemon_base {i} (d\<lparr>cluster := cl\<rparr>) \<and> view_ok (d\<lparr>cluster := cl\<rparr>) \<and>
    kn (d\<lparr>cluster := cl\<rparr>) = insert i (kn d) \<and> self_view (d\<lparr>cluster := cl\<rparr>) = self_view d \<and>
    (\<forall>j. j \<noteq> i \<longrightarrow> node_gen (d\<lparr>cluster := cl\<rparr>) j = node_gen d j)"
proof -
  let ?cl = "(cluster d)\<lparr>nodes := (nodes (cluster d))[i := sup_node_init\<lparr>id := i\<rparr>],
      known_nodes := ns_ins (known_nodes (cluster d)) i, num_nodes := Suc (num_nodes (cluster d))\<rparr>"
  let ?d = "d\<lparr>cluster := ?cl\<rparr>"
  have wf: "cluster_wf (cluster d)" and ni: "i \<notin> ns_elems (known_nodes (cluster d))"
    using b i by (simp_all add: base_wf kn_def known_def)
  have kn: "kn ?d = insert i (kn d)" using i by (simp add: kn_def known_def nodeset_simps)
  have nd: "j \<noteq> i \<Longrightarrow> node_of ?d j = node_of d j" for j by (simp add: node_of_def)
  have me: "me d \<noteq> i" using base_me [OF b] i by auto
  then have sv: "self_view ?d = self_view d" by (simp add: self_view_def nd)
  have se: "a \<noteq> i \<Longrightarrow> sees ?cl a a = sees (cluster d) a a" for a by (simp add: sees_def)
  have "daemon_base {i} ?d"
    unfolding daemon_base_def
    using cluster_wf_add [OF wf i(1) ni] b kn me by (auto simp: daemon_base_def se nd)
  moreover have "view_ok ?d" using v kn sv by (auto simp: view_ok_def)
  ultimately show ?thesis
    using sup_cluster_add_node_new [OF wf i(1) ni] kn sv by (auto simp: node_gen_def nd)
qed

lemma receive_spec:
  assumes b: "daemon_base {} d" and v: "view_ok d" and p: "ping_ok ping"
  shows "\<exists>d' i e. sup_cluster_node (cluster d) (sender ping) \<bind> (\<lambda>p. case p of
         Some i \<Rightarrow> Some (i, d)
       | None \<Rightarrow> do {
           r \<leftarrow> sup_cluster_add_node (cluster d) (sender ping);
           let d = (case r of Inr cl \<Rightarrow> d\<lparr>cluster := cl\<rparr> | Inl _ \<Rightarrow> d);
           p \<leftarrow> sup_cluster_node (cluster d) (sender ping);
           i \<leftarrow> p;
           Some (i, d) }) = Some (i, e) \<and>
    (if i \<noteq> me e then update_node_info i ping e else Some e) = Some d' \<and> received ping d d'"
proof (cases "sender ping \<in> kn d")
  case True
  have lt: "sender ping < EXA_MAX_NODES_NUMBER" using p by (simp add: ping_ok_def)
  note node = base_node [OF b lt]
  show ?thesis
  proof (cases "sender ping = me d")
    case True
    have "received ping d d" using b v base_me [OF b] True by (auto simp: received_def)
    with True \<open>sender ping \<in> kn d\<close> node show ?thesis by simp
  next
    case False
    have "daemon_base {sender ping} d" using b by (auto simp: daemon_base_def)
    from update_node_info_spec [OF this v True False p refl] True False node show ?thesis by auto
  qed
next
  case False
  have lt: "sender ping < EXA_MAX_NODES_NUMBER" using p by (simp add: ping_ok_def)
  note node = base_node [OF b lt]
  from add_sender [OF b v lt False] obtain cl where
    cl: "sup_cluster_add_node (cluster d) (sender ping) = Some (Inr cl)"
      "daemon_base {sender ping} (d\<lparr>cluster := cl\<rparr>)" "view_ok (d\<lparr>cluster := cl\<rparr>)"
      "kn (d\<lparr>cluster := cl\<rparr>) = insert (sender ping) (kn d)" "self_view (d\<lparr>cluster := cl\<rparr>) = self_view d"
      "\<forall>j. j \<noteq> sender ping \<longrightarrow> node_gen (d\<lparr>cluster := cl\<rparr>) j = node_gen d j" by blast
  have ne: "sender ping \<noteq> me d" using base_me [OF b] False by auto
  have node': "sup_cluster_node cl (sender ping) = Some (Some (sender ping))"
    using base_node [OF cl(2) lt] cl(4) by simp
  from update_node_info_spec [OF cl(2,3) _ _ p refl] cl(4) ne
  obtain d' where d': "update_node_info (sender ping) ping (d\<lparr>cluster := cl\<rparr>) = Some d'"
    "received ping (d\<lparr>cluster := cl\<rparr>) d'" by auto
  have "received ping d d'" using d'(2) cl(4,5,6) by (auto simp: received_def)
  with False cl(1) ne node node' d'(1) show ?thesis by (simp add: Let_def)
qed

lemma sup_process_ping_spec:
  assumes b: "daemon_base {} d" and v: "view_ok d" and p: "ping_ok ping"
    and s: "state (self_view d) \<noteq> SUP_STATE_UNKNOWN"
  shows "\<exists>e d'. sup_process_ping ping d = Some d' \<and> received ping d e \<and> outcome e d'"
proof -
  obtain e i e' where r: "sup_cluster_node (cluster d) (sender ping) \<bind> (\<lambda>p. case p of
         Some i \<Rightarrow> Some (i, d)
       | None \<Rightarrow> do {
           r \<leftarrow> sup_cluster_add_node (cluster d) (sender ping);
           let d = (case r of Inr cl \<Rightarrow> d\<lparr>cluster := cl\<rparr> | Inl _ \<Rightarrow> d);
           p \<leftarrow> sup_cluster_node (cluster d) (sender ping);
           i \<leftarrow> p;
           Some (i, d) }) = Some (i, e')"
    "(if i \<noteq> me e' then update_node_info i ping e' else Some e') = Some e" "received ping d e"
    using receive_spec [OF b v p] by blast
  have e: "daemon_base {} e" "view_ok e" "state (self_view e) \<noteq> SUP_STATE_UNKNOWN"
    using r(3) s by (simp_all add: received_def)
  obtain d' where d': "(case state (self_view e) of
       SUP_STATE_UNKNOWN \<Rightarrow> None
     | SUP_STATE_CHANGE \<Rightarrow> state_change_process_ping ping e
     | SUP_STATE_ACCEPT \<Rightarrow> state_accept_process_ping ping e
     | SUP_STATE_COMMIT \<Rightarrow> state_commit_process_ping ping e) = Some d'" "outcome e d'"
    using state_change_outcome [OF e(1,2), of ping] state_accept_outcome [OF e(1,2), of ping]
      state_commit_outcome [of ping e] e(3)
    by (cases "state (self_view e)") auto
  have "sup_check_ping ping = Some True" using p by (simp add: ping_ok_def)
  with r(1,2) d' have "sup_process_ping ping d = Some d'"
    unfolding sup_process_ping_def by (simp add: bind_assoc [symmetric] del: bind_assoc)
  with r(3) d'(2) show ?thesis by blast
qed

section \<open>Before and after a ping is sent\<close>

lemma recompute_clique:
  assumes b: "daemon_base {} d" and v: "view_ok d"
  shows "\<exists>C. sup_clique_compute (cluster d) = Some C \<and> me d \<in> ns_elems C \<and> ns_elems C \<subseteq> kn d \<and>
    mutual (cluster d) (ns_elems C)"
proof -
  have "self_seeing (cluster d)"
    using b v by (auto simp: self_seeing_def daemon_base_def view_ok_def kn_def sees_node_of self_view_def)
  with sup_clique_compute_spec [of "cluster d" "me d"] b show ?thesis
    by (simp add: daemon_base_def kn_def)
qed

text \<open>The work clique and the coordinator after \<open>sup_pre_ping\<close>, when views changed.\<close>

lemma install_clique:
  assumes b: "daemon_base {} d" and v: "view_ok d" and C: "me d \<in> ns_elems C" "ns_elems C \<subseteq> kn d"
  shows "\<exists>d'. (if \<not> exa_nodeset_equals C (clique (self_view d))
       then do {
         let d = set_self_view ((self_view d)\<lparr>clique := exa_nodeset_copy C\<rparr>) d;
         c \<leftarrow> exa_nodeset_first (clique (self_view d));
         Some (if c \<noteq> coord (self_view d)
               then set_self_view ((self_view d)\<lparr>coord := c\<rparr>) d else d) }
       else Some d) = Some d' \<and>
     daemon_base {} d' \<and> self_view d' = (self_view d)\<lparr>clique := C, coord := Min (ns_elems C)\<rparr> \<and>
     me d' = me d \<and> kn d' = kn d \<and> accepted_clique d' = accepted_clique d \<and> delivered d' = delivered d \<and>
     do_ping d' = do_ping d \<and> ping_timeout d' = ping_timeout d \<and>
     self_view_changed d' = self_view_changed d \<and> other_view_changed d' = other_view_changed d \<and>
     (\<forall>j. node_gen d' j = node_gen d j)"
proof (cases "C = clique (self_view d)")
  case True
  then have "self_view d = (self_view d)\<lparr>clique := C, coord := Min (ns_elems C)\<rparr>"
    using v C by (cases "self_view d") (auto simp: view_ok_def)
  with True b show ?thesis by (auto simp: nodeset_simps)
next
  case False
  let ?e = "set_self_view ((self_view d)\<lparr>clique := C\<rparr>) d"
  have be: "daemon_base {} ?e" using b by simp
  have sv: "self_view ?e = (self_view d)\<lparr>clique := C\<rparr>" using b by simp
  have ge: "node_gen (set_self_view ((self_view d)\<lparr>clique := C, coord := c\<rparr>) d) j = node_gen d j"
    "node_gen ?e j = node_gen d j" for c j
    using node_gen_me [of d] by (simp_all add: node_gen_set [OF b])
  have first: "exa_nodeset_first C = Some (Min (ns_elems C))"
    using C by (intro exa_nodeset_first_nonempty) auto
  have upd: "(self_view d)\<lparr>clique := C, coord := coord (self_view d)\<rparr> = (self_view d)\<lparr>clique := C\<rparr>"
    by (cases "self_view d") simp
  from False b sv be first ge show ?thesis
    by (auto simp: nodeset_simps ns_elems_inject exa_nodeset_copy_def Let_def upd
        set_self_view_twice [OF b])
qed

lemma sup_pre_ping_spec:
  assumes b: "daemon_base {} d" and v: "view_ok d"
    and u: "state (self_view d) = SUP_STATE_UNKNOWN \<longrightarrow> self_view_changed d"
  shows "\<exists>d'. sup_pre_ping d = Some d' \<and> daemon_base {} d' \<and> view_ok d' \<and>
     me d' = me d \<and> kn d' = kn d \<and> accepted_clique d' = accepted_clique d \<and> delivered d' = delivered d \<and>
     do_ping d' = do_ping d \<and> ping_timeout d' = ping_timeout d \<and>
     accepted (self_view d') = accepted (self_view d) \<and> committed (self_view d') = committed (self_view d) \<and>
     state (self_view d') \<noteq> SUP_STATE_UNKNOWN \<and>
     (state (self_view d') = SUP_STATE_CHANGE \<or> state (self_view d') = state (self_view d)) \<and>
     (\<forall>j. node_gen d' j = node_gen d j)"
proof -
  obtain e where e: "update_last_seen d = Some e" "daemon_base {} e" "view_ok e" "frame d e"
    using update_last_seen_spec [OF b v] by blast
  show ?thesis
  proof (cases "self_view_changed e \<or> other_view_changed e")
    case False
    then have "state (self_view e) \<noteq> SUP_STATE_UNKNOWN" using e(4) u by (auto simp: frame_def)
    with False e show ?thesis by (auto simp: sup_pre_ping_def frame_def)
  next
    case True
    obtain C where C: "sup_clique_compute (cluster e) = Some C" "me e \<in> ns_elems C" "ns_elems C \<subseteq> kn e"
      using recompute_clique [OF e(2,3)] by blast
    obtain f where f: "(if \<not> exa_nodeset_equals C (clique (self_view e))
       then do {
         let d = set_self_view ((self_view e)\<lparr>clique := exa_nodeset_copy C\<rparr>) e;
         c \<leftarrow> exa_nodeset_first (clique (self_view d));
         Some (if c \<noteq> coord (self_view d)
               then set_self_view ((self_view d)\<lparr>coord := c\<rparr>) d else d) }
       else Some e) = Some f"
      and bf: "daemon_base {} f" and svf: "self_view f = (self_view e)\<lparr>clique := C, coord := Min (ns_elems C)\<rparr>"
      and same: "me f = me e" "kn f = kn e" "accepted_clique f = accepted_clique e" "delivered f = delivered e"
        "do_ping f = do_ping e" "ping_timeout f = ping_timeout e"
        "self_view_changed f = self_view_changed e" "other_view_changed f = other_view_changed e"
        "\<forall>j. node_gen f j = node_gen e j"
      using install_clique [OF e(2,3) C(2,3)] by blast
    let ?g = "set_state SUP_STATE_CHANGE f"
    have pre: "sup_pre_ping d = Some ?g"
      using True e(1) C(1) f same by (simp add: sup_pre_ping_def)
    have sv: "self_view ?g = (self_view f)\<lparr>state := SUP_STATE_CHANGE\<rparr>" using bf by simp
    have ng: "node_gen ?g j = node_gen f j" for j
      using node_gen_me [of f] by (simp add: set_state_def node_gen_set [OF bf])
    have vg: "view_ok ?g" using e(3) C(2,3) sv svf same by (simp add: view_ok_def view_wf_def)
    show ?thesis using pre bf vg sv svf same ng e(4) by (auto simp: frame_def set_state_def)
  qed
qed

lemma sup_send_ping_spec:
  assumes b: "daemon_base {} d" and v: "view_ok d" and s: "state (self_view d) \<noteq> SUP_STATE_UNKNOWN"
  shows "\<exists>p. sup_send_ping d = Some (d\<lparr>pings_sent := p # pings_sent d\<rparr>) \<and> ping_ok p \<and>
    sender p = me d \<and> ping_view p = self_view d"
proof -
  have me: "me d < EXA_MAX_NODES_NUMBER" using kn_bounded [OF base_me [OF b]] .
  have "me d < num_seen (self_view d)" using v view_wf_bound by (simp add: view_ok_def)
  moreover have "self (cluster d) = Some (me d)" "incarnation (node_of d (me d)) \<noteq> 0"
    using b by (simp_all add: daemon_base_def)
  ultimately show ?thesis
    using b v s me
    by (intro exI [of _ "\<lparr> sender = me d, ping_incarnation = incarnation (node_of d (me d)),
        ping_view = self_view d \<rparr>"])
       (simp add: sup_send_ping_def sup_check_ping_def ping_ok_def sup_view_copy_def view_ok_def)
qed

section \<open>The main loop\<close>

text \<open>The invariant of the loop: as long as the state is unknown, the first ping is due.\<close>

definition loop_inv :: "sup_daemon \<Rightarrow> bool" where
  "loop_inv d \<longleftrightarrow> daemon_base {} d \<and> view_ok d \<and>
     (state (self_view d) = SUP_STATE_UNKNOWN \<longrightarrow> do_ping d \<and> self_view_changed d)"

lemma view_ok_flags [simp]:
  "view_ok (d\<lparr>self_view_changed := b\<rparr>) = view_ok d" "view_ok (d\<lparr>other_view_changed := b\<rparr>) = view_ok d"
  "view_ok (d\<lparr>do_ping := b\<rparr>) = view_ok d" "view_ok (d\<lparr>pings_sent := q\<rparr>) = view_ok d"
  by (simp_all add: view_ok_def)

lemma gen_ok_flags [simp]:
  "gen_ok (d\<lparr>self_view_changed := b\<rparr>) = gen_ok d" "gen_ok (d\<lparr>other_view_changed := b\<rparr>) = gen_ok d"
  "gen_ok (d\<lparr>do_ping := b\<rparr>) = gen_ok d" "gen_ok (d\<lparr>pings_sent := q\<rparr>) = gen_ok d"
  by (simp_all add: gen_ok_def)

lemma loop_ping_spec:
  assumes inv: "loop_inv d"
  shows "\<exists>d'. loop_ping True d = Some d' \<and> daemon_base {} d' \<and> view_ok d' \<and>
     state (self_view d') \<noteq> SUP_STATE_UNKNOWN \<and> me d' = me d \<and> kn d' = kn d \<and>
     ping_timeout d' = ping_timeout d \<and> (gen_ok d \<longrightarrow> gen_ok d') \<and> (\<forall>j. node_gen d' j = node_gen d j) \<and>
     delivered d' = delivered d \<and> committed (self_view d') = committed (self_view d) \<and>
     (state (self_view d') = SUP_STATE_CHANGE \<or> state (self_view d') = state (self_view d)) \<and> \<not> do_ping d'"
proof (cases "do_ping d")
  case False
  with inv show ?thesis by (auto simp: loop_ping_def loop_inv_def)
next
  case True
  let ?d = "d\<lparr>do_ping := False\<rparr>"
  have "daemon_base {} ?d" "view_ok ?d" "state (self_view ?d) = SUP_STATE_UNKNOWN \<longrightarrow> self_view_changed ?d"
    using inv by (simp_all add: loop_inv_def)
  from sup_pre_ping_spec [OF this] obtain e where e: "sup_pre_ping ?d = Some e" "daemon_base {} e" "view_ok e"
    "me e = me d" "kn e = kn d" "accepted_clique e = accepted_clique d" "delivered e = delivered d"
    "ping_timeout e = ping_timeout d"
    "accepted (self_view e) = accepted (self_view d)" "committed (self_view e) = committed (self_view d)"
    "state (self_view e) \<noteq> SUP_STATE_UNKNOWN"
    "state (self_view e) = SUP_STATE_CHANGE \<or> state (self_view e) = state (self_view d)"
    "\<forall>j. node_gen e j = node_gen d j" "\<not> do_ping e" by auto
  have gen: "gen_ok d \<longrightarrow> gen_ok e" using e by (auto simp: gen_ok_def)
  from sup_send_ping_spec [OF e(2,3,11)]
  obtain p where "sup_send_ping e = Some (e\<lparr>pings_sent := p # pings_sent e\<rparr>)" by blast
  with True e gen show ?thesis by (auto simp: loop_ping_def sup_post_ping_def)
qed

definition event_ok :: "sup_event \<Rightarrow> bool" where
  "event_ok ev \<longleftrightarrow> ev \<noteq> OtherMessage \<and> (\<forall>ping. ev = PingMessage ping \<longrightarrow> ping_ok ping)"

definition event_room :: "sup_event \<Rightarrow> bool" where
  "event_room ev \<longleftrightarrow> (\<forall>ping. ev = PingMessage ping \<longrightarrow> ping_gen ping \<noteq> - 1)"

lemma outcome_grows:
  assumes b: "daemon_base X d" and o: "outcome d d'"
  shows "\<exists>l. delivered d' = l @ delivered d"
    and "gen_ok d \<Longrightarrow> committed (self_view d) \<le> committed (self_view d')"
  using o accept_clique_simps [OF b] committed_daemon_simps [OF b]
  by (auto simp: outcome_def gen_ok_def)

lemma loop_body_spec:
  assumes inv: "loop_inv d" and ev: "event_ok ev" and el: "elapsed \<le> (ping_timeout d + 1) div 2"
  shows "\<exists>d'. loop_body elapsed True ev d = Some d' \<and> loop_inv d' \<and> ping_timeout d' = ping_timeout d \<and>
     me d' = me d \<and> kn d \<subseteq> kn d' \<and> state (self_view d') \<noteq> SUP_STATE_UNKNOWN \<and>
     (\<exists>l. delivered d' = l @ delivered d) \<and>
     (gen_ok d \<longrightarrow> gen_room d \<longrightarrow> event_room ev \<longrightarrow>
        gen_ok d' \<and> committed (self_view d) \<le> committed (self_view d'))"
proof -
  obtain e where e: "loop_ping True d = Some e" "daemon_base {} e" "view_ok e"
    "state (self_view e) \<noteq> SUP_STATE_UNKNOWN" "me e = me d" "kn e = kn d" "ping_timeout e = ping_timeout d"
    "gen_ok d \<longrightarrow> gen_ok e" "\<forall>j. node_gen e j = node_gen d j" "delivered e = delivered d"
    "committed (self_view e) = committed (self_view d)"
    using loop_ping_spec [OF inv] by blast
  show ?thesis
  proof (cases ev)
    case (PingMessage ping)
    with ev have p: "ping_ok ping" by (simp add: event_ok_def)
    obtain f d' where f: "sup_process_ping ping e = Some d'" "received ping e f" "outcome f d'"
      using sup_process_ping_spec [OF e(2,3) p e(4)] by blast
    have fi: "daemon_base {} f" "view_ok f" "state (self_view f) \<noteq> SUP_STATE_UNKNOWN"
      using f(2) e(4) by (simp_all add: received_def)
    have d': "daemon_base {} d'" "view_ok d'" "kn d' = kn f" "me d' = me f" "ping_timeout d' = ping_timeout f"
      "state (self_view d') \<noteq> SUP_STATE_UNKNOWN"
      using outcome_inv [OF fi f(3)] by simp_all
    have grow: "\<exists>l. delivered d' = l @ delivered d"
      using outcome_grows(1) [OF fi(1) f(3)] f(2) e(10) by (simp add: received_def)
    have "gen_ok d \<longrightarrow> gen_room d \<longrightarrow> event_room ev \<longrightarrow>
        gen_ok d' \<and> committed (self_view d) \<le> committed (self_view d')"
    proof (intro impI)
      assume g: "gen_ok d" "gen_room d" "event_room ev"
      have "gen_room e" using g(2) e(6,9) by (simp add: gen_room_def)
      then have "gen_room f"
        using received_room [OF f(2)] g(3) PingMessage base_me [OF e(2)] by (simp add: event_room_def)
      moreover have gf: "gen_ok f" using received_gen [OF f(2)] e(8) g(1) by simp
      moreover have "committed (self_view d) \<le> committed (self_view d')"
        using outcome_grows(2) [OF fi(1) f(3) gf] f(2) e(11) by (simp add: received_def)
      ultimately show "gen_ok d' \<and> committed (self_view d) \<le> committed (self_view d')"
        using outcome_gen [OF fi _ _ f(3)] by simp
    qed
    with grow f d' e el PingMessage show ?thesis by (auto simp: loop_body_def loop_inv_def received_def)
  qed (use e el ev in \<open>auto simp: loop_body_def loop_inv_def event_ok_def\<close>)
qed

lemma put_node_same: "put_node i (node_of d i) d = d"
  by (simp add: put_node_def node_of_def)

lemma sup_init_spec:
  assumes lt: "local_id < EXA_MAX_NODES_NUMBER" and o: "0 < timeout" "inca \<noteq> 0"
  shows "\<exists>d. sup_init local_id inca period timeout = Some (Inr d) \<and> daemon_base {} d \<and> me d = local_id \<and>
    kn d = {local_id} \<and> self_view d = sup_view_init \<and> delivered d = [] \<and> ping_timeout d = timeout"
proof -
  let ?cl = "sup_cluster_init\<lparr> nodes := (nodes sup_cluster_init)[local_id := sup_node_init\<lparr>id := local_id\<rparr>],
      known_nodes := ns_ins (known_nodes sup_cluster_init) local_id, num_nodes := num_nodes sup_cluster_init + 1\<rparr>"
  let ?d = "\<lparr> cluster = ?cl\<lparr>self := Some local_id\<rparr>, me = local_id, self_view_changed = False,
      other_view_changed = False, accepted_clique = exa_nodeset_reset, do_ping = False,
      ping_period = period, ping_timeout = timeout, pings_sent = [], delivered = [] \<rparr>"
  let ?e = "put_node local_id ((node_of ?d local_id)\<lparr>incarnation := inca\<rparr>) ?d"
  have ni: "local_id \<notin> ns_elems (known_nodes sup_cluster_init)"
    by (simp add: sup_cluster_init_def nodeset_simps)
  have wf: "cluster_wf ?cl" by (rule cluster_wf_add [OF cluster_wf_init lt ni])
  have kn: "ns_elems (known_nodes ?cl) = {local_id}" using lt by (simp add: sup_cluster_init_def nodeset_simps)
  have node: "sup_cluster_node ?cl local_id = Some (Some local_id)"
    using sup_cluster_node_eq [OF wf lt] kn by simp
  have init: "sup_init local_id inca period timeout = Some (Inr ?e)"
    using node by (simp add: sup_init_def sup_cluster_add_node_new [OF cluster_wf_init lt ni] Let_def)
  have wfd: "cluster_wf (cluster ?d)" using wf by simp
  have "nodes (cluster ?d) ! local_id = sup_node_init\<lparr>id := local_id\<rparr>"
    using lt by (simp add: sup_cluster_init_def)
  then have n: "node_of ?d local_id = sup_node_init\<lparr>id := local_id\<rparr>" by (simp add: node_of_def)
  have ne: "node_of ?e local_id = sup_node_init\<lparr>id := local_id, incarnation := inca\<rparr>"
    using node_of_put_node [OF wfd lt] n by simp
  have kne: "kn ?e = {local_id}" using kn by (simp add: kn_def known_def)
  have "cluster_wf (cluster ?e)" by (rule cluster_wf_put_node [OF wfd]) simp
  then have "daemon_base {} ?e" using o ne kne by (simp add: daemon_base_def sup_node_init_def)
  with init kne ne show ?thesis by (simp add: self_view_def sup_node_init_def)
qed

lemma loop_start_spec:
  assumes "daemon_options_ok local_id inca period timeout"
  shows "\<exists>d d'. sup_init local_id inca period timeout = Some (Inr d) \<and> loop_start d = Some d' \<and>
    loop_inv d' \<and> gen_ok d' \<and> me d' = local_id \<and> ping_timeout d' = timeout \<and> kn d' = {local_id} \<and>
    delivered d' = [] \<and> node_gen d' local_id = 0 \<and> state (self_view d') = SUP_STATE_UNKNOWN"
proof -
  have lt: "local_id < EXA_MAX_NODES_NUMBER" and o: "0 < timeout" "inca \<noteq> 0"
    using assms by (simp_all add: daemon_options_ok_def)
  from sup_init_spec [OF lt o, of period] obtain d where
    d: "sup_init local_id inca period timeout = Some (Inr d)" "daemon_base {} d" "me d = local_id"
      "kn d = {local_id}" "self_view d = sup_view_init" "delivered d = []" "ping_timeout d = timeout" by blast
  have "(node_of d (me d))\<lparr>last_seen := 0\<rparr> = node_of d (me d)"
    using d(2) by (cases "node_of d (me d)") (auto simp: daemon_base_def)
  then have same: "put_node (me d) ((node_of d (me d))\<lparr>last_seen := 0\<rparr>) d = d" by (simp add: put_node_same)
  have unseen: "self_sees d (me d) = Some False"
    using base_sees [OF d(2) base_me [OF d(2)]] d(5) by (simp add: sup_view_init_def nodeset_simps)
  let ?v = "sup_view_init\<lparr>nodes_seen := ns_ins (nodes_seen sup_view_init) local_id,
      num_seen := max (num_seen sup_view_init) (Suc local_id)\<rparr>"
  let ?e = "(set_self_view ?v d)\<lparr>self_view_changed := True, do_ping := True\<rparr>"
  have start: "loop_start d = Some ?e"
    using same unseen base_me_id [OF d(2)] d(3,5) sup_view_add_node_eq [OF lt, of sup_view_init]
    by (simp add: loop_start_def mark_alive_def Let_def)
  have sv: "self_view ?e = ?v" using d(2) by simp
  have "loop_inv ?e \<and> gen_ok ?e"
    using d lt sv view_wf_add [OF view_wf_init lt]
    by (simp add: loop_inv_def view_ok_def gen_ok_def) (simp add: sup_view_init_def nodeset_simps)
  moreover have "node_gen ?e local_id = 0" "state (self_view ?e) = SUP_STATE_UNKNOWN"
    using node_gen_me [of ?e] sv d(3) by (simp_all add: sup_view_init_def)
  ultimately show ?thesis using d(1,3,4,6,7) start by auto
qed

section \<open>Runs\<close>

definition input_ok :: "int \<Rightarrow> int \<times> bool \<times> sup_event \<Rightarrow> bool" where
  "input_ok timeout i \<longleftrightarrow>
     fst i \<le> (timeout + 1) div 2 \<and> fst (snd i) \<and> event_ok (snd (snd i))"

lemma loop_run_spec:
  assumes "loop_inv d" and "list_all (input_ok (ping_timeout d)) inputs"
  shows "\<exists>d'. loop_run inputs d = Some d' \<and> loop_inv d' \<and> me d' = me d"
  using assms
proof (induction inputs arbitrary: d)
  case (Cons i inputs)
  obtain elapsed admind ev where i: "i = (elapsed, admind, ev)" by (cases i) auto
  with Cons.prems loop_body_spec [of d ev elapsed] obtain e where
    e: "loop_body elapsed True ev d = Some e" "loop_inv e" "ping_timeout e = ping_timeout d" "me e = me d"
    by (auto simp: input_ok_def)
  from Cons.IH [of e] Cons.prems e i show ?case by (auto simp: loop_run_def input_ok_def)
qed (simp add: loop_run_def)


definition hello :: "exa_nodeid \<Rightarrow> sup_ping" where
  "hello i = \<lparr> sender = i, ping_incarnation = 1,
     ping_view = sup_view_init\<lparr>state := SUP_STATE_CHANGE, num_seen := Suc i,
       nodes_seen := ns_ins exa_nodeset_reset i\<rparr> \<rparr>"

lemma hello_ok: "i < EXA_MAX_NODES_NUMBER \<Longrightarrow> ping_ok (hello i)"
  by (simp add: ping_ok_def sup_check_ping_def hello_def nodeset_simps)


text \<open>The steps of a run in which no generation counter is exhausted.\<close>

inductive daemon_step :: "sup_daemon \<Rightarrow> sup_daemon \<Rightarrow> bool" where
  turn: "loop_body elapsed True ev d = Some d' \<Longrightarrow> event_ok ev \<Longrightarrow> event_room ev \<Longrightarrow>
    elapsed \<le> (ping_timeout d + 1) div 2 \<Longrightarrow> gen_room d \<Longrightarrow> daemon_step d d'"

inductive_cases daemon_stepE: "daemon_step d d'"

definition daemon_started :: "exa_nodeid \<Rightarrow> nat \<Rightarrow> int \<Rightarrow> int \<Rightarrow> sup_daemon \<Rightarrow> bool" where
  "daemon_started local_id inca period timeout d \<longleftrightarrow>
     daemon_options_ok local_id inca period timeout \<and>
     (\<exists>d0. sup_init local_id inca period timeout = Some (Inr d0) \<and> loop_start d0 = Some d)"

lemma daemon_started_spec:
  assumes "daemon_started local_id inca period timeout d"
  shows "loop_inv d \<and> gen_ok d \<and> me d = local_id \<and> ping_timeout d = timeout \<and> kn d = {local_id} \<and>
    delivered d = [] \<and> node_gen d local_id = 0 \<and> state (self_view d) = SUP_STATE_UNKNOWN"
proof -
  have opts: "daemon_options_ok local_id inca period timeout" using assms by (simp add: daemon_started_def)
  from loop_start_spec [OF opts] obtain d0 d' where
    "sup_init local_id inca period timeout = Some (Inr d0)" "loop_start d0 = Some d'"
    and d': "loop_inv d' \<and> gen_ok d' \<and> me d' = local_id \<and> ping_timeout d' = timeout \<and> kn d' = {local_id} \<and>
      delivered d' = [] \<and> node_gen d' local_id = 0 \<and> state (self_view d') = SUP_STATE_UNKNOWN" by blast
  with assms have "d' = d" unfolding daemon_started_def by (elim conjE exE) simp
  with d' show ?thesis by blast
qed

lemma daemon_step_spec:
  assumes "loop_inv d" "gen_ok d" "daemon_step d d'"
  shows "loop_inv d' \<and> gen_ok d' \<and> me d' = me d \<and> (\<exists>l. delivered d' = l @ delivered d) \<and>
    committed (self_view d) \<le> committed (self_view d')"
  using assms(3)
proof (cases rule: daemon_step.cases)
  case (turn elapsed ev)
  with loop_body_spec [OF assms(1), of ev elapsed] assms(2) show ?thesis by auto
qed

interpretation daemon: invariant_system "daemon_started local_id inca period timeout" daemon_step
  "\<lambda>d. loop_inv d \<and> gen_ok d \<and> me d = local_id" for local_id inca period timeout
proof
  show "loop_inv d \<and> gen_ok d \<and> me d = local_id" if "daemon_started local_id inca period timeout d" for d
    using daemon_started_spec [OF that] by blast
  show "loop_inv t \<and> gen_ok t \<and> me t = local_id"
    if "loop_inv s \<and> gen_ok s \<and> me s = local_id" "daemon_step s t" for s t
    using that daemon_step_spec [of s t] by auto
qed



section \<open>A node alone\<close>

lemma process_own_ping:
  assumes "daemon_base {} d" "ping_ok ping" "sender ping = me d"
  shows "sup_process_ping ping d =
    (case state (self_view d) of
       SUP_STATE_UNKNOWN \<Rightarrow> None
     | SUP_STATE_CHANGE \<Rightarrow> state_change_process_ping ping d
     | SUP_STATE_ACCEPT \<Rightarrow> state_accept_process_ping ping d
     | SUP_STATE_COMMIT \<Rightarrow> state_commit_process_ping ping d)"
  using assms base_node [OF assms(1), of "me d"] base_me [OF assms(1)]
  by (simp add: sup_process_ping_def ping_ok_def)

lemma alone_clique:
  assumes "view_ok d" "kn d = {me d}" "state (self_view d) \<noteq> SUP_STATE_UNKNOWN"
  shows "ns_elems (clique (self_view d)) = {me d}" "coord (self_view d) = me d" "seen d = {me d}"
proof -
  show c: "ns_elems (clique (self_view d)) = {me d}" using assms by (auto simp: view_ok_def)
  show "coord (self_view d) = me d" using assms(1) by (simp add: view_ok_def c)
  show "seen d = {me d}" using assms by (auto simp: view_ok_def seen_def)
qed

lemma alone_accepts:
  assumes b: "daemon_base {} d" and v: "view_ok d" and kn: "kn d = {me d}" and g: "node_gen d (me d) = 0"
    and s: "state (self_view d) = SUP_STATE_CHANGE" and p: "state (ping_view ping) = SUP_STATE_CHANGE"
  shows "state_change_process_ping ping d = Some (accept_clique 1 d)"
proof -
  have "state (self_view d) \<noteq> SUP_STATE_UNKNOWN" using s by simp
  note alone = alone_clique [OF v kn this]
  have "next_gen d = Some 1" using next_gen_spec [OF b v] alone(3) g by auto
  moreover have "clique_sees_self_as_coord d = Some True"
    using clique_sees_self_as_coord_eq [OF b v] alone by (auto simp: self_view_def)
  ultimately show ?thesis using b p alone(2) by (simp add: state_change_process_ping_def self_is_coord_def)
qed

lemma alone_commits:
  assumes b: "daemon_base {} d" and v: "view_ok d" and kn: "kn d = {me d}"
    and s: "state (self_view d) = SUP_STATE_ACCEPT"
    and p: "state (ping_view ping) = SUP_STATE_ACCEPT" "coord (ping_view ping) = me d"
      "accepted (ping_view ping) = accepted (self_view d)"
  shows "state_accept_process_ping ping d = Some (committed_daemon d)"
proof -
  have "state (self_view d) \<noteq> SUP_STATE_UNKNOWN" using s by simp
  note alone = alone_clique [OF v kn this]
  have "clique_has_accepted (accepted (self_view d)) d = Some True"
    using clique_has_accepted_eq [OF b v] alone by (auto simp: self_view_def)
  with b p alone(2) commit_clique_eq [OF b v] show ?thesis
    by (simp add: state_accept_process_ping_def self_is_coord_def)
qed

lemma lone_run:
  assumes start: "daemon_started local_id inca period timeout d"
    and p1: "ping_ok p1" "sender p1 = local_id" "state (ping_view p1) = SUP_STATE_CHANGE"
    and p2: "ping_ok p2" "sender p2 = local_id" "state (ping_view p2) = SUP_STATE_ACCEPT"
      "coord (ping_view p2) = local_id" "accepted (ping_view p2) = 1"
  shows "\<exists>f d' m. loop_body 0 True (PingMessage p1) d = Some f \<and> loop_body 0 True (PingMessage p2) f = Some d' \<and>
    gen_room d \<and> gen_room f \<and> 0 < ping_timeout d \<and> 0 < ping_timeout f \<and> daemon_base {} f \<and> view_ok f \<and>
    state (self_view f) = SUP_STATE_ACCEPT \<and> self_is_coord f \<and>
    state_accept_process_ping p2 f = Some d' \<and> delivered f = [] \<and>
    delivered d' = [(1, m)] \<and> ns_elems m = {local_id} \<and> state (self_view d') = SUP_STATE_COMMIT"
proof -
  have "loop_inv d" using daemon_started_spec [OF start] by blast
  then have "ping_timeout d > 0" by (simp add: loop_inv_def daemon_base_def)
  then have d: "loop_inv d" "me d = local_id" "kn d = {local_id}" "ping_timeout d > 0"
    "delivered d = []" "node_gen d local_id = 0" "state (self_view d) = SUP_STATE_UNKNOWN"
    using daemon_started_spec [OF start] by blast+
  obtain e where e: "loop_ping True d = Some e" "daemon_base {} e" "view_ok e"
    "state (self_view e) = SUP_STATE_CHANGE" "me e = me d" "kn e = kn d" "ping_timeout e = ping_timeout d"
    "\<forall>j. node_gen e j = node_gen d j" "delivered e = delivered d" "\<not> do_ping e"
    using loop_ping_spec [OF d(1)] d(7) by auto
  let ?f = "accept_clique 1 e"
  note acc = accept_clique_simps [OF e(2), of 1]
  have t1: "loop_body 0 True (PingMessage p1) d = Some ?f"
    using e d p1 alone_accepts [OF e(2,3)] process_own_ping [OF e(2) p1(1)] by (simp add: loop_body_def)
  have vf: "view_ok ?f" using e(3,4) acc by (simp add: view_ok_def view_wf_def)
  have c: "state_accept_process_ping p2 ?f = Some (committed_daemon ?f)"
    using e d p2 acc alone_commits [OF acc(2) vf] by simp
  then have t2: "loop_body 0 True (PingMessage p2) ?f = Some (committed_daemon ?f)"
    using e d p2 acc process_own_ping [OF acc(2) p2(1)] by (simp add: loop_body_def loop_ping_def)
  have alone: "ns_elems (clique (self_view e)) = {local_id}" "coord (self_view e) = local_id"
    using alone_clique(1,2) [OF e(3)] e d by simp_all
  have "max (accepted (self_view e)) (committed (self_view e)) = 0"
    using node_gen_me [of e] e(5,8) d(2,6) by simp
  then have "committed (self_view e) = 0" by (simp add: max_def split: if_splits)
  then have "node_gen ?f local_id = 1" using node_gen_me [of ?f] acc e(5) d(2) by (simp add: max_def)
  then have room: "gen_room d" "gen_room ?f" using d e acc by (simp_all add: gen_room_def)
  have "self_is_coord ?f" using acc base_me_id [OF acc(2)] alone(2) e(5) d(2) by (simp add: self_is_coord_def)
  with room t1 t2 c vf acc committed_daemon_simps [OF acc(2)] alone(1) d e show ?thesis
    by (intro exI [of _ ?f] exI [of _ "committed_daemon ?f"] exI [of _ "clique (self_view e)"]) simp
qed


text \<open>The pings a lone node 0 sends itself.\<close>

definition own_ping :: "sup_state \<Rightarrow> sup_gen \<Rightarrow> sup_ping" where
  "own_ping s g = (hello 0)\<lparr>ping_view := (ping_view (hello 0))\<lparr>state := s, coord := 0, accepted := g\<rparr>\<rparr>"

lemma own_ping_simps [simp]:
  "s \<noteq> SUP_STATE_UNKNOWN \<Longrightarrow> ping_ok (own_ping s g)" "sender (own_ping s g) = 0"
  "state (ping_view (own_ping s g)) = s" "coord (ping_view (own_ping s g)) = 0"
  "accepted (ping_view (own_ping s g)) = g" "ping_gen (own_ping s g) = g"
  using hello_ok [of 0]
  by (auto simp: own_ping_def hello_def ping_ok_def sup_check_ping_def nodeset_simps ping_gen_def
      sup_view_init_def max_def)

lemma lone_start: "\<exists>d. daemon_started 0 1 1 5 d"
proof -
  have "daemon_options_ok 0 1 1 5" by (simp add: daemon_options_ok_def EXA_NODEID_NONE_def)
  with loop_start_spec [OF this] show ?thesis unfolding daemon_started_def by blast
qed


lemma lone_reach:
  "\<exists>f d m. reach (daemon_started 0 1 1 5) daemon_step f \<and> daemon_step f d \<and>
     delivered d = [(1, m)] \<and> ns_elems m = {0} \<and> daemon_base {} f \<and> view_ok f \<and> self_is_coord f \<and>
     state (self_view f) = SUP_STATE_ACCEPT \<and> delivered f = [] \<and>
     state_accept_process_ping (own_ping SUP_STATE_ACCEPT 1) f = Some d"
proof -
  obtain d where d: "daemon_started 0 1 1 5 d" using lone_start by blast
  from lone_run [OF d, of "own_ping SUP_STATE_CHANGE 0" "own_ping SUP_STATE_ACCEPT 1"]
  obtain f e m where r: "loop_body 0 True (PingMessage (own_ping SUP_STATE_CHANGE 0)) d = Some f"
    "loop_body 0 True (PingMessage (own_ping SUP_STATE_ACCEPT 1)) f = Some e"
    "gen_room d" "gen_room f" "0 < ping_timeout d" "0 < ping_timeout f" "daemon_base {} f" "view_ok f"
    "state (self_view f) = SUP_STATE_ACCEPT" "self_is_coord f" "delivered f = []"
    "state_accept_process_ping (own_ping SUP_STATE_ACCEPT 1) f = Some e"
    "delivered e = [(1, m)]" "ns_elems m = {0}" by auto
  have "daemon_step d f"
    by (rule daemon_step.turn [OF r(1)]) (use r in \<open>auto simp: event_ok_def event_room_def\<close>)
  moreover have "daemon_step f e"
    by (rule daemon_step.turn [OF r(2)]) (use r in \<open>auto simp: event_ok_def event_room_def\<close>)
  ultimately show ?thesis
    using reach_step [OF reach_init [of "daemon_started 0 1 1 5" d daemon_step, OF d]] r by blast
qed



section \<open>Who must have accepted\<close>



end
