(* ===== verification/Sup_Failures.thy ===== *)
theory Sup_Failures
  imports Sup_Loop
begin

text \<open>
  How the supervision daemon handles nodes that fail: the ageing of silent nodes, and what
  happens to the check of the acceptance when a node reboots faster than the ping timeout.
\<close>

text \<open>C39: the commit rule stops at the bound of the seen set, which is not the bound of the
  clique. When the highest node seen reboots, its ping marks it dead and lowers the bound,
  while the clique keeps it until the next computation. Until then the check of the
  acceptance skips that member: it succeeds as soon as the other members have accepted.\<close>

theorem reboot_escapes_acceptance:
  assumes b: "daemon_base {} d" and v: "view_ok d"
    and n: "n + 1 = num_seen (self_view d)" "n \<noteq> me d" "n \<in> ns_elems (clique (self_view d))"
    and p: "ping_ok ping" "sender ping = n" "ping_incarnation ping \<noteq> incarnation (node_of d n)"
    and others: "\<forall>i \<in> ns_elems (clique (self_view d)) - {n}. i \<in> ns_elems (nodes_seen (self_view d)) \<and>
      clique (view (node_of d i)) = clique (self_view d) \<and> accepted (view (node_of d i)) = gen"
  shows "\<exists>d'. update_node_info n ping d = Some d' \<and> n \<in> ns_elems (clique (self_view d')) \<and>
    n \<notin> ns_elems (nodes_seen (self_view d')) \<and> clique_has_accepted gen d' = Some True"
proof -
  have kn: "n \<in> kn d" using clique_member_known [OF v n(3)] .
  have ns: "n \<in> seen d"
  proof -
    have "view_wf (self_view d)" using v by (simp add: view_ok_def)
    then have "n = Max (seen d)" "seen d \<noteq> {}"
      using n(1) by (simp_all add: view_wf_def seen_def split: if_splits)
    then show ?thesis using Max_in [of "seen d"] by (simp add: seen_def)
  qed
  let ?n = "(node_of d n)\<lparr>incarnation := ping_incarnation ping, view := sup_view_copy (ping_view ping)\<rparr>"
  let ?d = "put_node n ?n d"
  have b1: "daemon_base {} ?d"
    by (rule base_put_other [OF b kn n(2)]) (use b kn p ping_ok_sees in \<open>auto simp: base_id sup_view_copy_def\<close>)
  have sv: "self_view ?d = self_view d" using b kn n(2) by (rule self_view_put_other)
  have v1: "view_ok ?d" using v by (simp add: view_ok_def sv)
  have "n \<in> kn ?d" "n \<noteq> me ?d" using kn n(2) by simp_all
  from mark_dead_spec [OF b1 v1 this] obtain e where
    e: "mark_dead n ?d = Some e" "daemon_base {} e" "view_ok e" "frame ?d e"
      "seen e = seen ?d - {n}" "\<forall>j. j \<noteq> n \<longrightarrow> j \<noteq> me ?d \<longrightarrow> node_of e j = node_of ?d j"
    unfolding seen_def by blast
  have sd: "seen ?d = seen d" by (simp add: seen_def sv)
  note e = e(1-4) e(5) [unfolded sd] e(6)
  have nd: "j \<noteq> n \<Longrightarrow> node_of ?d j = node_of d j" for j
    using b kn_bounded [OF kn] by (simp add: base_wf node_of_put_node)
  have same: "clique (self_view e) = clique (self_view d)" "accepted (self_view e) = accepted (self_view d)" "me e = me d"
    using e(4) by (simp_all add: frame_def sv)
  have views: "clique (view (node_of e i)) = clique (self_view d) \<and> accepted (view (node_of e i)) = gen"
    if "i \<in> ns_elems (clique (self_view d)) - {n}" for i
  proof (cases "i = me d")
    case True
    have "view (node_of e i) = self_view e" using True same(3) by (simp add: self_view_def)
    moreover have "accepted (view (node_of d i)) = gen" using others that by blast
    then have "accepted (self_view d) = gen" using True unfolding self_view_def by simp
    ultimately show ?thesis using same by simp
  next
    case False
    then have "node_of e i = node_of d i" using e(6) nd that by simp
    moreover have "clique (view (node_of d i)) = clique (self_view d) \<and> accepted (view (node_of d i)) = gen"
      using others that by blast
    ultimately show ?thesis by simp
  qed
  have "num_seen (self_view e) \<le> n"
  proof (cases "seen e = {}")
    case True
    then show ?thesis using e(3) by (simp add: view_ok_def view_wf_def seen_def)
  next
    case False
    have fin: "finite (seen e)" by (simp add: seen_def)
    have max: "Max (seen e) \<in> seen d" "Max (seen e) \<noteq> n" using Max_in [OF fin False] e(5) by auto
    then have "Max (seen e) < num_seen (self_view d)" using v view_wf_bound by (simp add: view_ok_def seen_def)
    with max n(1) have "Max (seen e) < n" by simp
    moreover have "num_seen (self_view e) = Max (seen e) + 1"
      using False e(3) by (simp add: view_ok_def view_wf_def seen_def)
    ultimately show ?thesis by simp
  qed
  then have "\<forall>i \<in> set [0..<num_seen (self_view e)]. i \<in> ns_elems (clique (self_view e)) \<longrightarrow> i \<in> seen e \<and>
      clique (view (node_of e i)) = clique (self_view e) \<and> accepted (view (node_of e i)) = gen"
    using others views e(5) unfolding same(1) seen_def by simp
  then have acc: "clique_has_accepted gen e = Some True"
    unfolding clique_has_accepted_eq [OF e(2,3)] by blast
  have "clique_has_accepted gen (e\<lparr>other_view_changed := True\<rparr>) = clique_has_accepted gen e"
    by (simp add: clique_has_accepted_def self_sees_def cong: if_cong)
  moreover have "update_node_info n ping d = Some (e\<lparr>other_view_changed := True\<rparr>)"
    using e(1) p(3) ns base_sees [OF b kn] by (simp add: update_node_info_def Let_def seen_def)
  moreover have "n \<notin> ns_elems (nodes_seen (self_view e))" using e(5) unfolding seen_def by blast
  ultimately show ?thesis using acc same n(3) by simp
qed

text \<open>Nodes 0 and 1 see each other and have accepted the generation 1 of their clique.\<close>

definition pair_view :: sup_view where
  "pair_view = \<lparr> state = SUP_STATE_ACCEPT, num_seen = 2, nodes_seen = ns_ins (ns_ins exa_nodeset_reset 0) 1,
     clique = ns_ins (ns_ins exa_nodeset_reset 0) 1, coord = 0, accepted = 1, committed = 0 \<rparr>"

definition pair_daemon :: sup_daemon where
  "pair_daemon =
     \<lparr> cluster =
         \<lparr> nodes = map (\<lambda>i. if i < 2 then sup_node_init\<lparr>id := i, incarnation := 1, view := pair_view\<rparr>
                             else sup_node_init) [0..<EXA_MAX_NODES_NUMBER],
           known_nodes = ns_ins (ns_ins exa_nodeset_reset 0) 1, num_nodes = 2, self = Some 0 \<rparr>,
       me = 0, self_view_changed = False, other_view_changed = False,
       accepted_clique = ns_ins (ns_ins exa_nodeset_reset 0) 1, do_ping = False, ping_period = 1,
       ping_timeout = 5, pings_sent = [], delivered = [] \<rparr>"

lemma pair_elems: "ns_elems (ns_ins (ns_ins exa_nodeset_reset 0) 1) = {0, 1}"
  by (simp add: nodeset_simps small_ids insert_commute)

lemma pair_node: "i < 2 \<Longrightarrow> node_of pair_daemon i = sup_node_init\<lparr>id := i, incarnation := 1, view := pair_view\<rparr>"
  using small_ids by (simp add: node_of_def pair_daemon_def)

lemma pair_kn: "kn pair_daemon = {0, 1}"
  unfolding kn_def known_def using pair_elems by (simp add: pair_daemon_def)

lemma pair_view_self: "self_view pair_daemon = pair_view"
  using pair_node [of 0] by (simp add: self_view_def pair_daemon_def)

lemma pair_wf: "cluster_wf (cluster pair_daemon)"
proof -
  have K: "ns_elems (known_nodes (cluster pair_daemon)) = {0, 1}"
    using pair_kn by (simp add: kn_def known_def)
  have "id (nodes (cluster pair_daemon) ! i) = (if i < 2 then i else EXA_NODEID_NONE)"
    if "i < EXA_MAX_NODES_NUMBER" for i
    using that by (simp add: pair_daemon_def sup_node_init_def)
  moreover have "i \<in> {0, 1} \<longleftrightarrow> i < 2" for i :: nat by auto
  moreover have "length (nodes (cluster pair_daemon)) = EXA_MAX_NODES_NUMBER" "num_nodes (cluster pair_daemon) = 2"
    by (simp_all add: pair_daemon_def)
  ultimately show ?thesis unfolding cluster_wf_def K by simp
qed

lemma pair_flat: "me pair_daemon = 0" "self (cluster pair_daemon) = Some 0" "0 < ping_timeout pair_daemon"
  by (simp_all add: pair_daemon_def)

lemma pair_base: "daemon_base {} pair_daemon"
  using pair_wf pair_node [of 0] pair_node [of 1] pair_elems
  by (simp add: daemon_base_def pair_kn pair_flat sees_node_of sup_node_init_def pair_view_def)

lemma pair_view_ok: "view_ok pair_daemon"
proof -
  have "view_wf pair_view" unfolding view_wf_def using pair_elems by (simp add: pair_view_def)
  with pair_elems show ?thesis
    unfolding view_ok_def pair_view_self pair_kn pair_flat by (simp add: pair_view_def)
qed

theorem reboot_escapes_acceptance_witness:
  "\<exists>d'. update_node_info 1 ((hello 1)\<lparr>ping_incarnation := 2\<rparr>) pair_daemon = Some d' \<and>
     1 \<in> ns_elems (clique (self_view d')) \<and> 1 \<notin> ns_elems (nodes_seen (self_view d')) \<and>
     clique_has_accepted 1 d' = Some True"
proof (rule reboot_escapes_acceptance [OF pair_base pair_view_ok])
  show "1 + 1 = num_seen (self_view pair_daemon)" "1 \<noteq> me pair_daemon"
    "1 \<in> ns_elems (clique (self_view pair_daemon))"
    using pair_elems unfolding pair_view_self pair_flat by (simp_all add: pair_view_def)
  show "ping_ok ((hello 1)\<lparr>ping_incarnation := 2\<rparr>)" "sender ((hello 1)\<lparr>ping_incarnation := 2\<rparr>) = 1"
    using small_ids by (simp_all add: ping_ok_def sup_check_ping_def hello_def nodeset_simps)
  show "ping_incarnation ((hello 1)\<lparr>ping_incarnation := 2\<rparr>) \<noteq> incarnation (node_of pair_daemon 1)"
    using pair_node [of 1] by simp
  show "\<forall>i \<in> ns_elems (clique (self_view pair_daemon)) - {1}. i \<in> ns_elems (nodes_seen (self_view pair_daemon)) \<and>
      clique (view (node_of pair_daemon i)) = clique (self_view pair_daemon) \<and>
      accepted (view (node_of pair_daemon i)) = 1"
  proof
    fix i assume "i \<in> ns_elems (clique (self_view pair_daemon)) - {1}"
    then have "i = 0" unfolding pair_view_self using pair_elems by (auto simp: pair_view_def)
    then show "i \<in> ns_elems (nodes_seen (self_view pair_daemon)) \<and>
        clique (view (node_of pair_daemon i)) = clique (self_view pair_daemon) \<and>
        accepted (view (node_of pair_daemon i)) = 1"
      unfolding pair_view_self using pair_elems pair_node [of 0] by (simp add: pair_view_def)
  qed
qed



end
