(* ===== verification/Vrt_Stream.thy ===== *)
theory Vrt_Stream
  imports Exa_Checksum
begin

text \<open>
  The streams of the virtualizer (\<open>vrt/common/src/vrt_stream.c\<close> and the memory, null, stat, tee,
  narrowed and checksum streams beside it). A stream is a context with its operations and an
  access mode; some contexts are streams over one or two base streams. The constructor of
  \<open>stream_context\<close> stands for the table of operations, the base streams are part of the value
  (a base stream is only used through the stream opened on it), and each operation returns the
  stream it leaves. The operations of the streams over another stream are given what the
  call on the base returned, and use it only where the code makes that call.

  Sizes are those of objects in memory and are naturals; positions are \<open>uint64_t\<close> and offsets
  \<open>int64_t\<close>, and \<open>u64\<close> and \<open>s64\<close> write out their wrap-around where a computation on them can
  leave the range. Allocation does not fail.
\<close>

datatype stream_access = STREAM_ACCESS_READ | STREAM_ACCESS_WRITE | STREAM_ACCESS_RW

datatype stream_seek_mode = STREAM_SEEK_FROM_BEGINNING | STREAM_SEEK_FROM_END | STREAM_SEEK_FROM_POS

record stream_op_stats =
  op_count :: "32 word"
  error_count :: "32 word"
  total_bytes :: "64 word"

record stream_stats =
  read_stats :: stream_op_stats
  write_stats :: stream_op_stats
  flush_stats :: stream_op_stats
  seek_stats :: stream_op_stats
  tell_stats :: stream_op_stats

datatype stream = Stream (stream_context: stream_context) (stream_access: stream_access)
and stream_context =
    Memory_Stream "byte list" nat
  | Null_Stream
  | Stat_Stream stream stream_stats
  | Tee_Stream stream stream
  | Narrowed_Stream stream nat nat nat
  | Checksum_Stream stream checksum_context

definition u64 :: "int \<Rightarrow> nat" where
  "u64 x = nat (x mod 2 ^ 64)"

definition s64 :: "nat \<Rightarrow> int" where
  "s64 x = (if x < 2 ^ 63 then int x else int x - 2 ^ 64)"

definition STREAM_TELL_ERROR :: nat where
  "STREAM_TELL_ERROR = 2 ^ 64 - 1"

section \<open>Opening\<close>

text \<open>Tee and null streams have no read operation; all the other operations exist in every
  context.\<close>

fun has_read_op :: "stream_context \<Rightarrow> bool" where
  "has_read_op Null_Stream = False"
| "has_read_op (Tee_Stream _ _) = False"
| "has_read_op _ = True"

definition stream_open :: "stream_context \<Rightarrow> stream_access \<Rightarrow> errcode + stream" where
  "stream_open context access =
     (if (access = STREAM_ACCESS_READ \<or> access = STREAM_ACCESS_RW) \<and> \<not> has_read_op context
      then Inl EINVAL else Inr (Stream context access))"

definition memory_stream_open :: "byte list \<Rightarrow> stream_access \<Rightarrow> errcode + stream" where
  "memory_stream_open bytes access = stream_open (Memory_Stream bytes 0) access"

definition null_stream_open :: "errcode + stream" where
  "null_stream_open = stream_open Null_Stream STREAM_ACCESS_WRITE"

definition op_stats_init :: stream_op_stats where
  "op_stats_init = \<lparr> op_count = 0, error_count = 0, total_bytes = 0 \<rparr>"

definition init_stats :: stream_stats where
  "init_stats = \<lparr> read_stats = op_stats_init, write_stats = op_stats_init, flush_stats = op_stats_init,
     seek_stats = op_stats_init, tell_stats = op_stats_init \<rparr>"

definition stat_stream_open :: "stream \<Rightarrow> errcode + stream" where
  "stat_stream_open base = stream_open (Stat_Stream base init_stats) (stream_access base)"

definition tee_stream_open :: "stream \<Rightarrow> stream \<Rightarrow> errcode + stream" where
  "tee_stream_open stream1 stream2 =
     (if stream_access stream1 = STREAM_ACCESS_READ \<or> stream_access stream2 = STREAM_ACCESS_READ
      then Inl EPERM
      else stream_open (Tee_Stream stream1 stream2) STREAM_ACCESS_WRITE)"

definition narrowed_stream_open :: "stream \<Rightarrow> nat \<Rightarrow> nat \<Rightarrow> stream_access \<Rightarrow> errcode + stream" where
  "narrowed_stream_open base start end' access = stream_open (Narrowed_Stream base start end' start) access"

definition checksum_stream_open :: "stream \<Rightarrow> errcode + stream" where
  "checksum_stream_open base = stream_open (Checksum_Stream base checksum_reset) (stream_access base)"

section \<open>Position\<close>

definition count_op :: "bool \<Rightarrow> nat \<Rightarrow> stream_op_stats \<Rightarrow> stream_op_stats" where
  "count_op failed bytes st =
     (let st = st\<lparr>op_count := op_count st + 1\<rparr> in
      if failed then st\<lparr>error_count := error_count st + 1\<rparr>
      else st\<lparr>total_bytes := total_bytes st + of_nat bytes\<rparr>)"

definition stat_stream_tell :: "stream_stats \<Rightarrow> nat \<times> stream \<Rightarrow> nat \<times> stream_context" where
  [simp]: "stat_stream_tell st res =
     (let (pos, base') = res in
      (pos, Stat_Stream base' (st\<lparr>tell_stats := count_op (pos = STREAM_TELL_ERROR) 0 (tell_stats st)\<rparr>)))"

definition tee_stream_tell :: "nat \<times> stream \<Rightarrow> stream \<Rightarrow> nat \<times> stream_context" where
  [simp]: "tee_stream_tell res1 s2 = (let (pos, s1') = res1 in (pos, Tee_Stream s1' s2))"

definition checksum_stream_tell :: "checksum_context \<Rightarrow> nat \<times> stream \<Rightarrow> nat \<times> stream_context" where
  [simp]: "checksum_stream_tell ck res = (let (pos, base') = res in (pos, Checksum_Stream base' ck))"

fun stream_tell :: "stream \<Rightarrow> nat \<times> stream"
  and tell_op :: "stream_context \<Rightarrow> nat \<times> stream_context" where
  "stream_tell (Stream c a) = (let (pos, c') = tell_op c in (pos, Stream c' a))"
| "tell_op (Memory_Stream bytes ofs) = (ofs, Memory_Stream bytes ofs)"
| "tell_op Null_Stream = (0, Null_Stream)"
| "tell_op (Stat_Stream base st) =
     stat_stream_tell st (stream_tell base)"
| "tell_op (Tee_Stream s1 s2) = tee_stream_tell (stream_tell s1) s2"
| "tell_op (Narrowed_Stream base start end' ofs) =
     (u64 (int ofs - int start), Narrowed_Stream base start end' ofs)"
| "tell_op (Checksum_Stream base ck) = checksum_stream_tell ck (stream_tell base)"

text \<open>The nesting of a stream, for the termination of the operations.\<close>

primrec stream_depth :: "stream \<Rightarrow> nat" and context_depth :: "stream_context \<Rightarrow> nat" where
  "stream_depth (Stream c a) = Suc (context_depth c)"
| "context_depth (Memory_Stream bytes ofs) = 0"
| "context_depth Null_Stream = 0"
| "context_depth (Stat_Stream base st) = Suc (stream_depth base)"
| "context_depth (Tee_Stream s1 s2) = Suc (stream_depth s1 + stream_depth s2)"
| "context_depth (Narrowed_Stream base start end' ofs) = Suc (stream_depth base)"
| "context_depth (Checksum_Stream base ck) = Suc (stream_depth base)"

lemma depth_tell [simp]:
  "stream_depth (snd (stream_tell s)) = stream_depth s"
  "context_depth (snd (tell_op c)) = context_depth c"
  by (induction s and c rule: stream_tell_tell_op.induct) (auto simp: Let_def split: prod.splits)

text \<open>\<open>stream_seek\<close> checks the sign of the offset against the mode before it calls the context.\<close>

definition seek_args_ok :: "int \<Rightarrow> stream_seek_mode \<Rightarrow> bool" where
  "seek_args_ok offset mode \<longleftrightarrow>
     (case mode of
        STREAM_SEEK_FROM_BEGINNING \<Rightarrow> \<not> offset < 0
      | STREAM_SEEK_FROM_END \<Rightarrow> \<not> offset > 0
      | STREAM_SEEK_FROM_POS \<Rightarrow> True)"

definition memory_stream_seek :: "byte list \<Rightarrow> nat \<Rightarrow> int \<Rightarrow> stream_seek_mode \<Rightarrow> (errcode + unit) \<times> nat" where
  "memory_stream_seek bytes ofs offset mode =
     (let new_ofs = (case mode of
            STREAM_SEEK_FROM_BEGINNING \<Rightarrow> u64 offset
          | STREAM_SEEK_FROM_END \<Rightarrow> u64 (int (length bytes) + offset)
          | STREAM_SEEK_FROM_POS \<Rightarrow> u64 (int ofs + offset))
      in if new_ofs > length bytes then (Inl EINVAL, ofs) else (Inr (), new_ofs))"

definition stat_stream_seek :: "stream_stats \<Rightarrow> int \<Rightarrow> (errcode + unit) \<times> stream \<Rightarrow> (errcode + unit) \<times> stream_context" where
  [simp]: "stat_stream_seek st offset res =
     (let (r, base') = res in
      (r, Stat_Stream base' (st\<lparr>seek_stats := count_op (isl r) (nat \<bar>offset\<bar>) (seek_stats st)\<rparr>)))"

definition tee_stream_seek ::
  "stream \<Rightarrow> (errcode + unit) \<times> stream \<Rightarrow> (errcode + unit) \<times> stream \<Rightarrow> (errcode + unit) \<times> stream_context" where
  [simp]: "tee_stream_seek s2 res1 res2 =
     (let (r1, s1') = res1 in
      if isl r1 then (r1, Tee_Stream s1' s2)
      else let (r2, s2') = res2 in (r2, Tee_Stream s1' s2'))"

definition checksum_stream_seek ::
  "stream \<Rightarrow> checksum_context \<Rightarrow> int \<Rightarrow> stream_seek_mode \<Rightarrow> (errcode + unit) \<times> stream \<Rightarrow> (errcode + unit) \<times> stream_context" where
  [simp]: "checksum_stream_seek base ck offset mode res =
     (if offset \<noteq> 0 \<or> mode \<noteq> STREAM_SEEK_FROM_BEGINNING then (Inl EINVAL, Checksum_Stream base ck)
      else let (r, base') = res in (r, Checksum_Stream base' checksum_reset))"

function (sequential) stream_seek :: "stream \<Rightarrow> int \<Rightarrow> stream_seek_mode \<Rightarrow> (errcode + unit) \<times> stream"
  and seek_op :: "stream_context \<Rightarrow> int \<Rightarrow> stream_seek_mode \<Rightarrow> (errcode + unit) \<times> stream_context" where
  "stream_seek (Stream c a) offset mode =
     (if \<not> seek_args_ok offset mode then (Inl EINVAL, Stream c a)
      else (let (r, c') = seek_op c offset mode in (r, Stream c' a)))"
| "seek_op (Memory_Stream bytes ofs) offset mode =
     (let (r, ofs') = memory_stream_seek bytes ofs offset mode in (r, Memory_Stream bytes ofs'))"
| "seek_op Null_Stream offset mode = (Inr (), Null_Stream)"
| "seek_op (Stat_Stream base st) offset mode =
     stat_stream_seek st offset (stream_seek base offset mode)"
| "seek_op (Tee_Stream s1 s2) offset mode =
     tee_stream_seek s2 (stream_seek s1 offset mode) (stream_seek s2 offset mode)"
| "seek_op (Narrowed_Stream base start end' ofs) offset mode =
     (let (new_ofs, base1) = (case mode of
            STREAM_SEEK_FROM_BEGINNING \<Rightarrow> (u64 (int start + offset), base)
          | STREAM_SEEK_FROM_END \<Rightarrow> (u64 (int end' + offset), base)
          | STREAM_SEEK_FROM_POS \<Rightarrow>
              (u64 (int (fst (stream_tell base)) + offset), snd (stream_tell base)))
      in if new_ofs < start \<or> new_ofs > end' then (Inl EINVAL, Narrowed_Stream base1 start end' ofs)
         else let (r, base2) = stream_seek base1 (s64 new_ofs) STREAM_SEEK_FROM_BEGINNING in
           (r, Narrowed_Stream base2 start end' (if isl r then ofs else new_ofs)))"
| "seek_op (Checksum_Stream base ck) offset mode =
     checksum_stream_seek base ck offset mode (stream_seek base offset mode)"
  by pat_completeness auto
termination
  by (relation "measure (\<lambda>x. case x of Inl (s, _) \<Rightarrow> stream_depth s | Inr (c, _) \<Rightarrow> context_depth c)")
     (auto split: stream_seek_mode.splits)

lemma depth_seek [simp]:
  "stream_depth (snd (stream_seek s offset mode)) = stream_depth s"
  "context_depth (snd (seek_op c offset mode)) = context_depth c"
  by (induction s offset mode and c offset mode rule: stream_seek_seek_op.induct)
     (auto simp: Let_def split: prod.splits stream_seek_mode.splits)

definition stream_rewind :: "stream \<Rightarrow> (errcode + unit) \<times> stream" where
  "stream_rewind s = stream_seek s 0 STREAM_SEEK_FROM_BEGINNING"

section \<open>Reading, writing, flushing\<close>

text \<open>\<open>__adjust_offset\<close> of a narrowed stream.\<close>

definition adjust_offset :: "stream \<Rightarrow> nat \<Rightarrow> (errcode + unit) \<times> stream" where
  "adjust_offset base ofs =
     (let (pos, base') = stream_tell base in
      if pos = ofs then (Inr (), base')
      else stream_seek base' (s64 ofs) STREAM_SEEK_FROM_BEGINNING)"

lemma depth_adjust [simp]: "stream_depth (snd (adjust_offset base ofs)) = stream_depth base"
  using depth_tell(1) [of base] by (auto simp: adjust_offset_def split: prod.splits simp del: depth_tell)

lemma depth_adjustD: "(e, base1) = adjust_offset base ofs \<Longrightarrow> stream_depth base1 = stream_depth base"
  using depth_adjust [of base ofs] by (metis snd_conv)

definition memory_stream_read :: "byte list \<Rightarrow> nat \<Rightarrow> nat \<Rightarrow> byte list \<times> nat" where
  "memory_stream_read bytes ofs n =
     (let r = (if ofs + n > length bytes then length bytes - ofs else n)
      in (take r (drop ofs bytes), ofs + r))"

definition stat_stream_read ::
  "stream_stats \<Rightarrow> (errcode + byte list) \<times> stream \<Rightarrow> (errcode + byte list) \<times> stream_context" where
  [simp]: "stat_stream_read st res =
     (let (r, base') = res in
      (r, Stat_Stream base' (st\<lparr>read_stats :=
            count_op (isl r) (case r of Inr b \<Rightarrow> length b | Inl _ \<Rightarrow> 0) (read_stats st)\<rparr>)))"

definition checksum_stream_read ::
  "checksum_context \<Rightarrow> (errcode + byte list) \<times> stream \<Rightarrow> (errcode + byte list) \<times> stream_context" where
  [simp]: "checksum_stream_read ck res =
     (let (r, base') = res in
      (r, Checksum_Stream base' (case r of Inr b \<Rightarrow> checksum_feed ck b | Inl _ \<Rightarrow> ck)))"

text \<open>What is read is the list of bytes, whose length is the C result. The equation for a context
  without a read operation is never reached: \<open>stream_open\<close> refuses to open such a stream for
  reading.\<close>

function (sequential) stream_read :: "stream \<Rightarrow> nat \<Rightarrow> (errcode + byte list) \<times> stream"
  and read_op :: "stream_context \<Rightarrow> nat \<Rightarrow> (errcode + byte list) \<times> stream_context" where
  "stream_read (Stream c a) n =
     (if n = 0 then (Inr [], Stream c a)
      else if a \<noteq> STREAM_ACCESS_READ \<and> a \<noteq> STREAM_ACCESS_RW then (Inl EOPNOTSUPP, Stream c a)
      else (let (r, c') = read_op c n in (r, Stream c' a)))"
| "read_op (Memory_Stream bytes ofs) n =
     (let (r, ofs') = memory_stream_read bytes ofs n in (Inr r, Memory_Stream bytes ofs'))"
| "read_op (Stat_Stream base st) n =
     stat_stream_read st (stream_read base n)"
| "read_op (Narrowed_Stream base start end' ofs) n =
     (let (e, base1) = adjust_offset base ofs in
      case e of
        Inl err \<Rightarrow> (Inl err, Narrowed_Stream base1 start end' ofs)
      | Inr _ \<Rightarrow>
          (let base_size = (if ofs + n - 1 > end' then u64 (int end' - int ofs + 1) else n);
               (r, base2) = stream_read base1 base_size
           in (r, Narrowed_Stream base2 start end' (case r of Inr b \<Rightarrow> ofs + length b | Inl _ \<Rightarrow> ofs))))"
| "read_op (Checksum_Stream base ck) n =
     checksum_stream_read ck (stream_read base n)"
| "read_op c n = (Inl EOPNOTSUPP, c)"
  by pat_completeness auto
termination
proof (relation "measure (\<lambda>x. case x of Inl (s, _) \<Rightarrow> stream_depth s | Inr (c, _) \<Rightarrow> context_depth c)", goal_cases)
  case (4 base start end' ofs n x e base1 u base_size)
  then show ?case by (auto dest: depth_adjustD)
qed auto

definition overwrite :: "byte list \<Rightarrow> nat \<Rightarrow> byte list \<Rightarrow> byte list" where
  "overwrite bytes ofs buf = take ofs bytes @ buf @ drop (ofs + length buf) bytes"

definition memory_stream_write :: "byte list \<Rightarrow> nat \<Rightarrow> byte list \<Rightarrow> (errcode + nat) \<times> stream_context" where
  [simp]: "memory_stream_write bytes ofs buf =
     (if ofs + length buf > length bytes then (Inl ENOSPC, Memory_Stream bytes ofs)
      else (Inr (length buf), Memory_Stream (overwrite bytes ofs buf) (ofs + length buf)))"

definition stat_stream_write :: "stream_stats \<Rightarrow> (errcode + nat) \<times> stream \<Rightarrow> (errcode + nat) \<times> stream_context" where
  [simp]: "stat_stream_write st res =
     (let (r, base') = res in
      (r, Stat_Stream base' (st\<lparr>write_stats :=
            count_op (isl r) (case r of Inr w \<Rightarrow> w | Inl _ \<Rightarrow> 0) (write_stats st)\<rparr>)))"

definition tee_stream_write ::
  "stream \<Rightarrow> nat \<Rightarrow> (errcode + nat) \<times> stream \<Rightarrow> (errcode + nat) \<times> stream \<Rightarrow> (errcode + nat) \<times> stream_context" where
  [simp]: "tee_stream_write s2 size' res1 res2 =
     (let (r1, s1') = res1 in
      case r1 of
        Inl err \<Rightarrow> (Inl err, Tee_Stream s1' s2)
      | Inr w1 \<Rightarrow>
          if w1 \<noteq> size' then (Inl EIO, Tee_Stream s1' s2)
          else (let (r2, s2') = res2 in
            case r2 of
              Inl err \<Rightarrow> (Inl err, Tee_Stream s1' s2')
            | Inr w2 \<Rightarrow>
                if w2 \<noteq> size' then (Inl EIO, Tee_Stream s1' s2')
                else (Inr size', Tee_Stream s1' s2')))"

definition checksum_stream_write ::
  "checksum_context \<Rightarrow> byte list \<Rightarrow> (errcode + nat) \<times> stream \<Rightarrow> (errcode + nat) \<times> stream_context" where
  [simp]: "checksum_stream_write ck buf res =
     (let (r, base') = res in
      (r, Checksum_Stream base' (case r of Inr w \<Rightarrow> checksum_feed ck (take w buf) | Inl _ \<Rightarrow> ck)))"

function (sequential) stream_write :: "stream \<Rightarrow> byte list \<Rightarrow> (errcode + nat) \<times> stream"
  and write_op :: "stream_context \<Rightarrow> byte list \<Rightarrow> (errcode + nat) \<times> stream_context" where
  "stream_write (Stream c a) buf =
     (if length buf = 0 then (Inr 0, Stream c a)
      else if a \<noteq> STREAM_ACCESS_WRITE \<and> a \<noteq> STREAM_ACCESS_RW then (Inl EOPNOTSUPP, Stream c a)
      else (let (r, c') = write_op c buf in (r, Stream c' a)))"
| "write_op (Memory_Stream bytes ofs) buf = memory_stream_write bytes ofs buf"
| "write_op Null_Stream buf = (Inr (length buf), Null_Stream)"
| "write_op (Stat_Stream base st) buf =
     stat_stream_write st (stream_write base buf)"
| "write_op (Tee_Stream s1 s2) buf =
     tee_stream_write s2 (length buf) (stream_write s1 buf) (stream_write s2 buf)"
| "write_op (Narrowed_Stream base start end' ofs) buf =
     (let (e, base1) = adjust_offset base ofs in
      case e of
        Inl err \<Rightarrow> (Inl err, Narrowed_Stream base1 start end' ofs)
      | Inr _ \<Rightarrow>
          if ofs + length buf - 1 > end' then (Inl ENOSPC, Narrowed_Stream base1 start end' ofs)
          else (let (r, base2) = stream_write base1 buf in
            (r, Narrowed_Stream base2 start end' (case r of Inr w \<Rightarrow> ofs + w | Inl _ \<Rightarrow> ofs))))"
| "write_op (Checksum_Stream base ck) buf =
     checksum_stream_write ck buf (stream_write base buf)"
  by pat_completeness auto
termination
proof (relation "measure (\<lambda>x. case x of Inl (s, _) \<Rightarrow> stream_depth s | Inr (c, _) \<Rightarrow> context_depth c)", goal_cases)
  case (6 base start end' ofs buf x e base1 u)
  then show ?case by (auto dest: depth_adjustD)
qed simp_all

definition stat_stream_flush :: "stream_stats \<Rightarrow> (errcode + unit) \<times> stream \<Rightarrow> (errcode + unit) \<times> stream_context" where
  [simp]: "stat_stream_flush st res =
     (let (r, base') = res in
      (r, Stat_Stream base' (st\<lparr>flush_stats := count_op (isl r) 0 (flush_stats st)\<rparr>)))"

definition tee_stream_flush ::
  "(errcode + unit) \<times> stream \<Rightarrow> (errcode + unit) \<times> stream \<Rightarrow> (errcode + unit) \<times> stream_context" where
  [simp]: "tee_stream_flush res1 res2 =
     (let (r1, s1') = res1; (r2, s2') = res2 in
      (if isl r1 then r1 else r2, Tee_Stream s1' s2'))"

definition checksum_stream_flush :: "checksum_context \<Rightarrow> (errcode + unit) \<times> stream \<Rightarrow> (errcode + unit) \<times> stream_context" where
  [simp]: "checksum_stream_flush ck res = (let (r, base') = res in (r, Checksum_Stream base' ck))"

fun stream_flush :: "stream \<Rightarrow> (errcode + unit) \<times> stream"
  and flush_op :: "stream_context \<Rightarrow> (errcode + unit) \<times> stream_context" where
  "stream_flush (Stream c a) =
     (if a \<noteq> STREAM_ACCESS_WRITE \<and> a \<noteq> STREAM_ACCESS_RW then (Inl EOPNOTSUPP, Stream c a)
      else (let (r, c') = flush_op c in (r, Stream c' a)))"
| "flush_op (Memory_Stream bytes ofs) = (Inr (), Memory_Stream bytes ofs)"
| "flush_op Null_Stream = (Inr (), Null_Stream)"
| "flush_op (Stat_Stream base st) = stat_stream_flush st (stream_flush base)"
| "flush_op (Tee_Stream s1 s2) = tee_stream_flush (stream_flush s1) (stream_flush s2)"
| "flush_op (Narrowed_Stream base start end' ofs) =
     (let (r, base') = stream_flush base in (r, Narrowed_Stream base' start end' ofs))"
| "flush_op (Checksum_Stream base ck) = checksum_stream_flush ck (stream_flush base)"

text \<open>Closing flushes the stream, ignores the result, and frees it; the value is the state in which
  its bases are left. Formatted printing writes what \<open>vsnprintf\<close> produces, whose own error is
  returned.\<close>

definition stream_close :: "stream \<Rightarrow> stream" where
  "stream_close s = snd (stream_flush s)"

definition stream_vprintf :: "stream \<Rightarrow> errcode + byte list \<Rightarrow> (errcode + nat) \<times> stream" where
  "stream_vprintf s formatted =
     (case formatted of
        Inl err \<Rightarrow> (Inl err, s)
      | Inr buf \<Rightarrow> stream_write s buf)"

text \<open>The checksum of a stream; the magic number of the context is its constructor.\<close>

fun checksum_stream_get_value :: "stream \<Rightarrow> 16 word option" where
  "checksum_stream_get_value (Stream (Checksum_Stream base ck) a) = checksum_get_value ck"
| "checksum_stream_get_value s = None"

fun checksum_stream_get_size :: "stream \<Rightarrow> nat option" where
  "checksum_stream_get_size (Stream (Checksum_Stream base ck) a) = Some (checksum_get_size ck)"
| "checksum_stream_get_size s = None"

fun checksum_stream_reset :: "stream \<Rightarrow> stream option" where
  "checksum_stream_reset (Stream (Checksum_Stream base ck) a) = Some (Stream (Checksum_Stream base checksum_reset) a)"
| "checksum_stream_reset s = None"

section \<open>Transfers of a whole buffer\<close>

text \<open>The serialisers of the virtualizer call the stream in one way only: a negative result is
  returned as it is, a transfer shorter than the buffer is \<open>-EIO\<close>. The operation is a
  parameter, so that the serialisers can be used on any stream.\<close>

definition write_exact :: "('s \<Rightarrow> byte list \<Rightarrow> (errcode + nat) \<times> 's) \<Rightarrow> byte list \<Rightarrow> 's \<Rightarrow> (errcode + unit) \<times> 's" where
  "write_exact write buf s =
     (case write s buf of
        (Inl err, s') \<Rightarrow> (Inl err, s')
      | (Inr w, s') \<Rightarrow> if w \<noteq> length buf then (Inl EIO, s') else (Inr (), s'))"

definition read_exact :: "('s \<Rightarrow> nat \<Rightarrow> (errcode + byte list) \<times> 's) \<Rightarrow> nat \<Rightarrow> 's \<Rightarrow> (errcode + byte list) \<times> 's" where
  "read_exact read n s =
     (case read s n of
        (Inl err, s') \<Rightarrow> (Inl err, s')
      | (Inr b, s') \<Rightarrow> if length b \<noteq> n then (Inl EIO, s') else (Inr b, s'))"

primrec write_all :: "('s \<Rightarrow> byte list \<Rightarrow> (errcode + nat) \<times> 's) \<Rightarrow> byte list list \<Rightarrow> 's \<Rightarrow> (errcode + unit) \<times> 's" where
  "write_all write [] s = (Inr (), s)"
| "write_all write (b # bs) s =
     (case write_exact write b s of
        (Inl err, s') \<Rightarrow> (Inl err, s')
      | (Inr _, s') \<Rightarrow> write_all write bs s')"

end
