(* ===== verification/Vrt_Stream_Store.thy ===== *)
theory Vrt_Stream_Store
  imports Vrt_Stream
begin

text \<open>
  What the streams promise. \<open>byte_store\<close> is the contract a serialiser relies on: an array of
  bytes with a cursor. Every stack of memory, stat and narrowed streams opened for reading and
  writing satisfies it: \<open>content\<close> and \<open>pos\<close> give the array and the cursor of a stack, where a
  narrowed stream is the window of its base. The checksum stream is transparent and its value is
  the checksum of what went through it; a tee stream writes to both its streams.
\<close>

section \<open>Stacks of streams as arrays with a cursor\<close>

primrec content :: "stream \<Rightarrow> byte list" and ctx_content :: "stream_context \<Rightarrow> byte list" where
  "content (Stream c a) = ctx_content c"
| "ctx_content (Memory_Stream bytes ofs) = bytes"
| "ctx_content Null_Stream = []"
| "ctx_content (Stat_Stream base st) = content base"
| "ctx_content (Tee_Stream s1 s2) = []"
| "ctx_content (Narrowed_Stream base start end' ofs) = take (end' + 1 - start) (drop start (content base))"
| "ctx_content (Checksum_Stream base ck) = []"

primrec pos :: "stream \<Rightarrow> nat" and ctx_pos :: "stream_context \<Rightarrow> nat" where
  "pos (Stream c a) = ctx_pos c"
| "ctx_pos (Memory_Stream bytes ofs) = ofs"
| "ctx_pos Null_Stream = 0"
| "ctx_pos (Stat_Stream base st) = pos base"
| "ctx_pos (Tee_Stream s1 s2) = 0"
| "ctx_pos (Narrowed_Stream base start end' ofs) = ofs - start"
| "ctx_pos (Checksum_Stream base ck) = 0"

text \<open>A narrowed stream that was read or written to its very end leaves its base there.\<close>

primrec store_ok :: "stream \<Rightarrow> bool" and ctx_ok :: "stream_context \<Rightarrow> bool" where
  "store_ok (Stream c a) \<longleftrightarrow> a = STREAM_ACCESS_RW \<and> ctx_ok c"
| "ctx_ok (Memory_Stream bytes ofs) \<longleftrightarrow> ofs \<le> length bytes \<and> length bytes < 2 ^ 63"
| "ctx_ok Null_Stream \<longleftrightarrow> False"
| "ctx_ok (Stat_Stream base st) \<longleftrightarrow> store_ok base"
| "ctx_ok (Tee_Stream s1 s2) \<longleftrightarrow> False"
| "ctx_ok (Narrowed_Stream base start end' ofs) \<longleftrightarrow>
     store_ok base \<and> start \<le> end' \<and> end' < length (content base) \<and> start \<le> ofs \<and>
     (ofs \<le> end' \<or> ofs = end' + 1 \<and> pos base = ofs)"
| "ctx_ok (Checksum_Stream base ck) \<longleftrightarrow> False"

lemma u64_id: "0 \<le> x \<Longrightarrow> x < 2 ^ 64 \<Longrightarrow> u64 x = nat x"
  by (simp add: u64_def)

lemma s64_id: "x < 2 ^ 63 \<Longrightarrow> s64 x = int x"
  by (simp add: s64_def)

lemma store_ok_size:
  "store_ok s \<Longrightarrow> length (content s) < 2 ^ 63"
  "ctx_ok c \<Longrightarrow> length (ctx_content c) < 2 ^ 63"
  by (induction s and c) auto

lemma store_ok_pos:
  "store_ok s \<Longrightarrow> pos s \<le> length (content s)"
  "ctx_ok c \<Longrightarrow> ctx_pos c \<le> length (ctx_content c)"
  by (induction s and c) auto

text \<open>Two stacks of the same shape over the same array, with the cursor at a given place.\<close>

definition moved :: "stream \<Rightarrow> nat \<Rightarrow> stream \<Rightarrow> bool" where
  "moved s p s' \<longleftrightarrow> store_ok s' \<and> content s' = content s \<and> pos s' = p"

lemma tell_law: "store_ok s \<Longrightarrow> \<exists>s'. stream_tell s = (pos s, s') \<and> moved s (pos s) s'"
proof (induction s rule: measure_induct_rule [of stream_depth])
  case (less s)
  obtain c a where s: "s = Stream c a" by (cases s)
  show ?case
  proof (cases c)
    case (Stat_Stream base st)
    with s less.prems less.IH [of base] obtain b' where "stream_tell base = (pos base, b')" "moved base (pos base) b'"
      by auto
    with s less.prems Stat_Stream show ?thesis by (auto simp: moved_def)
  next
    case (Narrowed_Stream base start end' ofs)
    with s less.prems have "store_ok base" "start \<le> ofs" "ofs \<le> length (content base)" by auto
    then have "u64 (int ofs - int start) = ofs - start"
      using store_ok_size(1) [of base] by (subst u64_id) auto
    with s less.prems Narrowed_Stream show ?thesis by (auto simp: moved_def)
  qed (use s less.prems in \<open>auto simp: moved_def\<close>)
qed

lemma seek_law:
  "store_ok s \<Longrightarrow> p < length (content s) \<Longrightarrow>
   \<exists>s'. stream_seek s (int p) STREAM_SEEK_FROM_BEGINNING = (Inr (), s') \<and> moved s p s'"
proof (induction s arbitrary: p rule: measure_induct_rule [of stream_depth])
  case (less s)
  obtain c a where s: "s = Stream c a" by (cases s)
  have size: "p < 2 ^ 63" using less.prems store_ok_size(1) [of s] by simp
  show ?case
  proof (cases c)
    case (Memory_Stream bytes ofs)
    have "u64 (int p) = p" using size by (subst u64_id) auto
    with s less.prems Memory_Stream show ?thesis
      by (auto simp: moved_def seek_args_ok_def memory_stream_seek_def)
  next
    case (Stat_Stream base st)
    with s less.prems less.IH [of base p] obtain b' where
      "stream_seek base (int p) STREAM_SEEK_FROM_BEGINNING = (Inr (), b')" "moved base p b'" by auto
    with s less.prems Stat_Stream show ?thesis by (auto simp: moved_def seek_args_ok_def)
  next
    case (Narrowed_Stream base start end' ofs)
    with s less.prems have base: "store_ok base" "start + p \<le> end'" "end' < length (content base)" by auto
    have n: "start + p < 2 ^ 63" using base store_ok_size(1) [of base] by linarith
    then have u: "u64 (int start + int p) = start + p" by (subst u64_id) auto
    from s Narrowed_Stream less.IH [of base "start + p"] base obtain b' where
      b': "stream_seek base (int (start + p)) STREAM_SEEK_FROM_BEGINNING = (Inr (), b')" "moved base (start + p) b'"
      by auto
    with s less.prems Narrowed_Stream base u n show ?thesis
      by (auto simp: moved_def seek_args_ok_def s64_id simp del: of_nat_add)
  qed (use s less.prems in \<open>auto simp: moved_def\<close>)
qed

lemma adjust_law:
  assumes "store_ok base" "ofs < length (content base) \<or> pos base = ofs"
  shows "\<exists>b'. adjust_offset base ofs = (Inr (), b') \<and> moved base ofs b'"
proof -
  obtain b where b: "stream_tell base = (pos base, b)" "moved base (pos base) b" using tell_law [OF assms(1)] by blast
  show ?thesis
  proof (cases "pos base = ofs")
    case True
    with b show ?thesis by (simp add: adjust_offset_def)
  next
    case False
    with assms b have "store_ok b" "ofs < length (content b)" by (auto simp: moved_def)
    moreover from this have "s64 ofs = int ofs" using store_ok_size(1) [of b] by (intro s64_id) simp
    ultimately show ?thesis using seek_law [of b ofs] b False by (auto simp: adjust_offset_def moved_def)
  qed
qed

text \<open>Reading \<open>n\<close> bytes in a window reads \<open>k\<close> bytes of the array behind it.\<close>

definition window_size :: "nat \<Rightarrow> nat \<Rightarrow> nat \<Rightarrow> nat" where
  "window_size end' ofs n = (if ofs + n - 1 > end' then end' + 1 - ofs else n)"

lemma window_read:
  assumes "start \<le> ofs" "ofs \<le> end' + 1" "end' < length xs" "n \<noteq> 0"
  shows "take (window_size end' ofs n) (drop ofs xs) =
      take n (drop (ofs - start) (take (end' + 1 - start) (drop start xs)))"
    and "length (take (window_size end' ofs n) (drop ofs xs)) = window_size end' ofs n"
    and "min (ofs + window_size end' ofs n) (length xs) = ofs + window_size end' ofs n"
    and "min (ofs - start + n) (end' + 1 - start) = ofs + window_size end' ofs n - start"
    and "ofs + window_size end' ofs n \<le> end' + 1"
  using assms by (auto simp: window_size_def drop_take min_def)

lemma moved_trans: "moved s p s' \<Longrightarrow> moved s' q s'' \<Longrightarrow> moved s q s''"
  by (simp add: moved_def)

lemma narrowed_read:
  assumes ok: "store_ok (Stream (Narrowed_Stream base start end' ofs) a)" and n: "n \<noteq> 0"
    and IH: "\<And>b k. stream_depth b = stream_depth base \<Longrightarrow> store_ok b \<Longrightarrow>
      \<exists>s'. stream_read b k = (Inr (take k (drop (pos b) (content b))), s') \<and>
         moved b (min (pos b + k) (length (content b))) s'"
  shows "\<exists>b2. stream_read (Stream (Narrowed_Stream base start end' ofs) a) n =
      (Inr (take n (drop (ofs - start) (take (end' + 1 - start) (drop start (content base))))),
       Stream (Narrowed_Stream b2 start end' (ofs + window_size end' ofs n)) a) \<and>
    moved base (ofs + window_size end' ofs n) b2 \<and>
    moved (Stream (Narrowed_Stream base start end' ofs) a) (min (ofs - start + n) (end' + 1 - start))
      (Stream (Narrowed_Stream b2 start end' (ofs + window_size end' ofs n)) a)"
proof -
  have base: "store_ok base" "start \<le> end'" "end' < length (content base)" "start \<le> ofs" "ofs \<le> end' + 1"
    "ofs \<le> end' \<or> pos base = ofs" and a: "a = STREAM_ACCESS_RW" using ok by auto
  let ?k = "window_size end' ofs n"
  obtain b1 where b1: "adjust_offset base ofs = (Inr (), b1)" "moved base ofs b1"
    using adjust_law [OF base(1), of ofs] base by auto
  have k: "(if ofs + n - 1 > end' then u64 (int end' - int ofs + 1) else n) = ?k"
    using base store_ok_size(1) [OF base(1)] by (auto simp: window_size_def u64_id)
  note w = window_read [OF base(4,5,3) n]
  have d: "stream_depth b1 = stream_depth base" using depth_adjust [of base ofs] b1(1) by simp
  obtain b2 where b2: "stream_read b1 ?k = (Inr (take ?k (drop ofs (content base))), b2)" "moved b1 (ofs + ?k) b2"
    using IH [OF d, of ?k] b1(2) w(3) by (auto simp: moved_def)
  let ?s = "Stream (Narrowed_Stream b2 start end' (ofs + ?k)) a"
  have "stream_read (Stream (Narrowed_Stream base start end' ofs) a) n =
      (Inr (take ?k (drop ofs (content base))), ?s)"
    using n a b1(1) b2(1) w(2) k by simp
  moreover have "moved (Stream (Narrowed_Stream base start end' ofs) a) (ofs + ?k - start) ?s"
    using moved_trans [OF b1(2) b2(2)] a base(2,3,4) w(5) by (auto simp: moved_def)
  ultimately show ?thesis using w(1,4) moved_trans [OF b1(2) b2(2)] by auto
qed

lemma read_law:
  "store_ok s \<Longrightarrow> \<exists>s'. stream_read s n = (Inr (take n (drop (pos s) (content s))), s') \<and>
     moved s (min (pos s + n) (length (content s))) s'"
proof (induction s arbitrary: n rule: measure_induct_rule [of stream_depth])
  case (less s)
  obtain c a where s: "s = Stream c a" by (cases s)
  have le: "pos s \<le> length (content s)" using less.prems by (rule store_ok_pos)
  show ?case
  proof (cases "n = 0")
    case True
    with s less.prems le show ?thesis by (auto simp: moved_def)
  next
    case n: False
    show ?thesis
    proof (cases c)
      case (Memory_Stream bytes ofs)
      with s less.prems n show ?thesis
        by (auto simp: moved_def memory_stream_read_def Let_def min_def)
    next
      case (Stat_Stream base st)
      with s less.prems less.IH [of base n] obtain b' where
        "stream_read base n = (Inr (take n (drop (pos base) (content base))), b')"
        "moved base (min (pos base + n) (length (content base))) b'" by auto
      with s less.prems Stat_Stream n show ?thesis by (auto simp: moved_def)
    next
      case (Narrowed_Stream base start end' ofs)
      have IH: "\<exists>s'. stream_read b k = (Inr (take k (drop (pos b) (content b))), s') \<and>
          moved b (min (pos b + k) (length (content b))) s'"
        if "stream_depth b = stream_depth base" "store_ok b" for b k
        using less.IH [of b k] that s Narrowed_Stream by simp
      have ok: "store_ok (Stream (Narrowed_Stream base start end' ofs) a)"
        using less.prems s Narrowed_Stream by simp
      then have "min (length (content base) - start) (end' + 1 - start) = end' + 1 - start" by auto
      moreover from narrowed_read [OF ok n IH] have
        "\<exists>s'. stream_read (Stream (Narrowed_Stream base start end' ofs) a) n =
          (Inr (take n (drop (ofs - start) (take (end' + 1 - start) (drop start (content base))))), s') \<and>
          moved (Stream (Narrowed_Stream base start end' ofs) a) (min (ofs - start + n) (end' + 1 - start)) s'" by blast
      ultimately show ?thesis using s Narrowed_Stream by simp
    qed (use s less.prems in \<open>auto simp: moved_def\<close>)
  qed
qed

lemma length_overwrite [simp]: "p + length bs \<le> length xs \<Longrightarrow> length (overwrite xs p bs) = length xs"
  by (simp add: overwrite_def)

lemma overwrite_Nil [simp]: "p \<le> length xs \<Longrightarrow> overwrite xs p [] = xs"
  by (simp add: overwrite_def)

lemma window_overwrite:
  assumes "start \<le> ofs" "ofs + length bs \<le> end' + 1" "end' < length xs"
  shows "take (end' + 1 - start) (drop start (overwrite xs ofs bs)) =
    overwrite (take (end' + 1 - start) (drop start xs)) (ofs - start) bs"
proof -
  obtain d where d: "ofs = start + d" using assms(1) le_Suc_ex by blast
  define r where "r = end' + 1 - start - (d + length bs)"
  have w: "end' + 1 - start = d + length bs + r" using assms(2) by (simp add: r_def d)
  have len: "start + d \<le> length xs" using assms(2,3) d by simp
  show ?thesis unfolding w d overwrite_def using len
    by (simp add: drop_take add.commute add.left_commute)
qed

definition written :: "stream \<Rightarrow> byte list \<Rightarrow> stream \<Rightarrow> bool" where
  "written s bs s' \<longleftrightarrow> store_ok s' \<and> content s' = overwrite (content s) (pos s) bs \<and> pos s' = pos s + length bs"

lemma narrowed_write:
  assumes ok: "store_ok (Stream (Narrowed_Stream base start end' ofs) a)" and n: "bs \<noteq> []"
    and fits: "ofs + length bs \<le> end' + 1"
    and IH: "\<And>b. stream_depth b = stream_depth base \<Longrightarrow> store_ok b \<Longrightarrow>
      pos b + length bs \<le> length (content b) \<Longrightarrow> \<exists>s'. stream_write b bs = (Inr (length bs), s') \<and> written b bs s'"
  shows "\<exists>b2. stream_write (Stream (Narrowed_Stream base start end' ofs) a) bs =
      (Inr (length bs), Stream (Narrowed_Stream b2 start end' (ofs + length bs)) a) \<and>
    store_ok b2 \<and> content b2 = overwrite (content base) ofs bs \<and> pos b2 = ofs + length bs \<and>
    written (Stream (Narrowed_Stream base start end' ofs) a) bs (Stream (Narrowed_Stream b2 start end' (ofs + length bs)) a)"
proof -
  have base: "store_ok base" "start \<le> end'" "end' < length (content base)" "start \<le> ofs"
    "ofs \<le> end' \<or> pos base = ofs" and a: "a = STREAM_ACCESS_RW" using ok by auto
  obtain b1 where b1: "adjust_offset base ofs = (Inr (), b1)" "moved base ofs b1"
    using adjust_law [OF base(1), of ofs] base by auto
  have d: "stream_depth b1 = stream_depth base" using depth_adjust [of base ofs] b1(1) by simp
  obtain b2 where b2: "stream_write b1 bs = (Inr (length bs), b2)" "written b1 bs b2"
    using IH [OF d] b1(2) fits base(3) by (auto simp: moved_def)
  have b2': "store_ok b2" "content b2 = overwrite (content base) ofs bs" "pos b2 = ofs + length bs"
    using b1(2) b2(2) by (simp_all add: moved_def written_def)
  have guard: "\<not> ofs + length bs - 1 > end'" using fits n by (cases bs) auto
  let ?s = "Stream (Narrowed_Stream b2 start end' (ofs + length bs)) a"
  have "stream_write (Stream (Narrowed_Stream base start end' ofs) a) bs = (Inr (length bs), ?s)"
    using n a b1(1) b2(1) guard by simp
  moreover have "written (Stream (Narrowed_Stream base start end' ofs) a) bs ?s"
    using b2' a base(2,3,4) fits window_overwrite [OF base(4) fits base(3)] by (auto simp: written_def)
  ultimately show ?thesis using b2' by blast
qed

lemma write_law:
  "store_ok s \<Longrightarrow> pos s + length bs \<le> length (content s) \<Longrightarrow>
   \<exists>s'. stream_write s bs = (Inr (length bs), s') \<and> written s bs s'"
proof (induction s rule: measure_induct_rule [of stream_depth])
  case (less s)
  obtain c a where s: "s = Stream c a" by (cases s)
  show ?case
  proof (cases "bs = []")
    case True
    with s less.prems show ?thesis by (auto simp: written_def)
  next
    case n: False
    show ?thesis
    proof (cases c)
      case (Memory_Stream bytes ofs)
      with s less.prems n show ?thesis by (auto simp: written_def)
    next
      case (Stat_Stream base st)
      with s less.prems less.IH [of base] obtain b' where
        "stream_write base bs = (Inr (length bs), b')" "written base bs b'" by auto
      with s less.prems Stat_Stream n show ?thesis by (auto simp: written_def)
    next
      case (Narrowed_Stream base start end' ofs)
      have IH: "\<exists>s'. stream_write b bs = (Inr (length bs), s') \<and> written b bs s'"
        if "stream_depth b = stream_depth base" "store_ok b" "pos b + length bs \<le> length (content b)" for b
        using less.IH [of b] that s Narrowed_Stream by simp
      have ok: "store_ok (Stream (Narrowed_Stream base start end' ofs) a)"
        using less.prems s Narrowed_Stream by simp
      have "ofs - start + length bs \<le> end' + 1 - start" using less.prems(2) s Narrowed_Stream by simp
      moreover have "start \<le> ofs" "start \<le> end'" using ok by simp_all
      ultimately have "ofs + length bs \<le> end' + 1" by linarith
      from narrowed_write [OF ok n this IH] s Narrowed_Stream show ?thesis by blast
    qed (use s less.prems in \<open>auto simp: written_def\<close>)
  qed
qed

lemma write_full_law:
  "store_ok s \<Longrightarrow> pos s + length bs > length (content s) \<Longrightarrow>
   \<exists>s'. stream_write s bs = (Inl ENOSPC, s') \<and> moved s (pos s) s'"
proof (induction s rule: measure_induct_rule [of stream_depth])
  case (less s)
  obtain c a where s: "s = Stream c a" by (cases s)
  have n: "bs \<noteq> []" using less.prems store_ok_pos(1) [of s] by auto
  show ?case
  proof (cases c)
    case (Memory_Stream bytes ofs)
    with s less.prems n show ?thesis by (auto simp: moved_def)
  next
    case (Stat_Stream base st)
    with s less.prems less.IH [of base] obtain b' where
      "stream_write base bs = (Inl ENOSPC, b')" "moved base (pos base) b'" by auto
    with s less.prems Stat_Stream n show ?thesis by (auto simp: moved_def)
  next
    case (Narrowed_Stream base start end' ofs)
    with less.prems(1) s have base: "store_ok base" "start \<le> end'" "end' < length (content base)" "start \<le> ofs"
      "ofs \<le> end' \<or> ofs = end' + 1 \<and> pos base = ofs" and a: "a = STREAM_ACCESS_RW" by auto
    obtain b1 where b1: "adjust_offset base ofs = (Inr (), b1)" "moved base ofs b1"
      using adjust_law [OF base(1), of ofs] base by auto
    have guard: "ofs + length bs - 1 > end'" using less.prems(2) s Narrowed_Stream base by auto
    have "stream_write s bs = (Inl ENOSPC, Stream (Narrowed_Stream b1 start end' ofs) a)"
      using s Narrowed_Stream n a b1(1) guard by simp
    then show ?thesis using b1(2) base a s Narrowed_Stream by (auto simp: moved_def)
  qed (use s less.prems in \<open>auto simp: moved_def\<close>)
qed

section \<open>The contract\<close>

lemma overwrite_append:
  "p + length a \<le> length xs \<Longrightarrow> overwrite (overwrite xs p a) (p + length a) b = overwrite xs p (a @ b)"
  by (simp add: overwrite_def drop_drop add.commute add.left_commute)

lemma drop_overwrite:
  "p + length bs \<le> length xs \<Longrightarrow> drop p (overwrite xs p bs) = bs @ drop (p + length bs) xs"
  by (simp add: overwrite_def)

locale byte_store =
  fixes sread :: "'s \<Rightarrow> nat \<Rightarrow> (errcode + byte list) \<times> 's"
    and swrite :: "'s \<Rightarrow> byte list \<Rightarrow> (errcode + nat) \<times> 's"
    and sseek :: "'s \<Rightarrow> nat \<Rightarrow> (errcode + unit) \<times> 's"
    and bytes :: "'s \<Rightarrow> byte list"
    and cursor :: "'s \<Rightarrow> nat"
    and ok :: "'s \<Rightarrow> bool"
  assumes cursor_le: "ok s \<Longrightarrow> cursor s \<le> length (bytes s)"
    and sread_law: "ok s \<Longrightarrow> \<exists>s'. sread s n = (Inr (take n (drop (cursor s) (bytes s))), s') \<and>
      ok s' \<and> bytes s' = bytes s \<and> cursor s' = min (cursor s + n) (length (bytes s))"
    and swrite_law: "ok s \<Longrightarrow> cursor s + length bs \<le> length (bytes s) \<Longrightarrow>
      \<exists>s'. swrite s bs = (Inr (length bs), s') \<and> ok s' \<and>
        bytes s' = overwrite (bytes s) (cursor s) bs \<and> cursor s' = cursor s + length bs"
    and swrite_full: "ok s \<Longrightarrow> cursor s + length bs > length (bytes s) \<Longrightarrow>
      \<exists>s'. swrite s bs = (Inl ENOSPC, s') \<and> ok s' \<and> bytes s' = bytes s \<and> cursor s' = cursor s"
    and sseek_law: "ok s \<Longrightarrow> p < length (bytes s) \<Longrightarrow>
      \<exists>s'. sseek s p = (Inr (), s') \<and> ok s' \<and> bytes s' = bytes s \<and> cursor s' = p"
begin

lemma write_exact_ok:
  assumes "ok s" "cursor s + length bs \<le> length (bytes s)"
  shows "\<exists>s'. write_exact swrite bs s = (Inr (), s') \<and> ok s' \<and>
    bytes s' = overwrite (bytes s) (cursor s) bs \<and> cursor s' = cursor s + length bs"
  using swrite_law [OF assms] by (auto simp: write_exact_def)

lemma write_all_ok:
  "ok s \<Longrightarrow> cursor s + length (concat bss) \<le> length (bytes s) \<Longrightarrow>
   \<exists>s'. write_all swrite bss s = (Inr (), s') \<and> ok s' \<and>
     bytes s' = overwrite (bytes s) (cursor s) (concat bss) \<and> cursor s' = cursor s + length (concat bss)"
proof (induction bss arbitrary: s)
  case Nil
  then show ?case by (simp add: cursor_le)
next
  case (Cons b bss)
  obtain s1 where s1: "write_exact swrite b s = (Inr (), s1)" "ok s1"
    "bytes s1 = overwrite (bytes s) (cursor s) b" "cursor s1 = cursor s + length b"
    using write_exact_ok [of s b] Cons.prems by auto
  obtain s2 where "write_all swrite bss s1 = (Inr (), s2)" "ok s2"
    "bytes s2 = overwrite (bytes s1) (cursor s1) (concat bss)" "cursor s2 = cursor s1 + length (concat bss)"
    using Cons.IH [OF s1(2)] Cons.prems s1 by auto
  with s1 Cons.prems show ?case by (simp add: overwrite_append)
qed

text \<open>A store that is too small refuses with \<open>-ENOSPC\<close>.\<close>

lemma write_all_full:
  "ok s \<Longrightarrow> cursor s + length (concat bss) > length (bytes s) \<Longrightarrow>
   \<exists>s'. write_all swrite bss s = (Inl ENOSPC, s') \<and> ok s'"
proof (induction bss arbitrary: s)
  case Nil
  then show ?case using cursor_le [of s] by simp
next
  case (Cons b bss)
  show ?case
  proof (cases "cursor s + length b \<le> length (bytes s)")
    case True
    then obtain s1 where s1: "write_exact swrite b s = (Inr (), s1)" "ok s1"
      "bytes s1 = overwrite (bytes s) (cursor s) b" "cursor s1 = cursor s + length b"
      using write_exact_ok [of s b] Cons.prems by auto
    with True Cons.prems have "cursor s1 + length (concat bss) > length (bytes s1)" by simp
    with Cons.IH [OF s1(2)] s1 show ?thesis by auto
  next
    case False
    with swrite_full [of s b] Cons.prems show ?thesis by (auto simp: write_exact_def)
  qed
qed

definition ahead :: "'s \<Rightarrow> byte list" where
  "ahead s = drop (cursor s) (bytes s)"

lemma read_exact_ok:
  assumes "ok s" "ahead s = b @ rest" "length b = n"
  shows "\<exists>s'. read_exact sread n s = (Inr b, s') \<and> ok s' \<and> ahead s' = rest \<and> bytes s' = bytes s"
proof -
  obtain s' where s': "sread s n = (Inr (take n (drop (cursor s) (bytes s))), s')" "ok s'" "bytes s' = bytes s"
    "cursor s' = min (cursor s + n) (length (bytes s))" using sread_law [OF assms(1)] by blast
  have take: "take n (drop (cursor s) (bytes s)) = b" using assms by (simp add: ahead_def)
  have "length (drop (cursor s) (bytes s)) = n + length rest" using assms by (simp add: ahead_def)
  then have "cursor s + n \<le> length (bytes s)" using cursor_le [OF assms(1)] by simp
  then have "ahead s' = drop n (ahead s)" using s' by (simp add: ahead_def add.commute)
  with s' take assms show ?thesis by (auto simp: read_exact_def)
qed

lemma read_exact_short:
  assumes "ok s" "length (ahead s) < n"
  shows "\<exists>s'. read_exact sread n s = (Inl EIO, s') \<and> ok s'"
  using sread_law [OF assms(1), of n] assms(2) by (fastforce simp: read_exact_def ahead_def)

text \<open>What was written is read back from where it was written.\<close>

lemma written_ahead:
  assumes "ok s" "cursor s < length (bytes s)" "cursor s + length (concat bss) \<le> length (bytes s)"
  shows "\<exists>s1 s2. write_all swrite bss s = (Inr (), s1) \<and> sseek s1 (cursor s) = (Inr (), s2) \<and> ok s2 \<and>
    ahead s2 = concat bss @ drop (cursor s + length (concat bss)) (bytes s)"
proof -
  obtain s1 where s1: "write_all swrite bss s = (Inr (), s1)" "ok s1"
    "bytes s1 = overwrite (bytes s) (cursor s) (concat bss)" using write_all_ok [OF assms(1,3)] by blast
  obtain s2 where "sseek s1 (cursor s) = (Inr (), s2)" "ok s2" "bytes s2 = bytes s1" "cursor s2 = cursor s"
    using sseek_law [of s1 "cursor s"] s1 assms by auto
  with s1 assms(3) show ?thesis by (auto simp: ahead_def drop_overwrite)
qed

end

text \<open>Seeking from the beginning, as the contract has it.\<close>

definition seek_to :: "stream \<Rightarrow> nat \<Rightarrow> (errcode + unit) \<times> stream" where
  "seek_to s p = stream_seek s (int p) STREAM_SEEK_FROM_BEGINNING"

interpretation store: byte_store stream_read stream_write seek_to content pos store_ok
proof
  fix s n bs p
  assume ok: "store_ok s"
  show "pos s \<le> length (content s)" using ok by (rule store_ok_pos)
  show "\<exists>s'. stream_read s n = (Inr (take n (drop (pos s) (content s))), s') \<and> store_ok s' \<and>
      content s' = content s \<and> pos s' = min (pos s + n) (length (content s))"
    using read_law [OF ok] by (simp add: moved_def)
  show "\<exists>s'. stream_write s bs = (Inr (length bs), s') \<and> store_ok s' \<and>
      content s' = overwrite (content s) (pos s) bs \<and> pos s' = pos s + length bs"
    if "pos s + length bs \<le> length (content s)" using write_law [OF ok that] by (simp add: written_def)
  show "\<exists>s'. stream_write s bs = (Inl ENOSPC, s') \<and> store_ok s' \<and> content s' = content s \<and> pos s' = pos s"
    if "length (content s) < pos s + length bs" using write_full_law [OF ok that] by (simp add: moved_def)
  show "\<exists>s'. seek_to s p = (Inr (), s') \<and> store_ok s' \<and> content s' = content s \<and> pos s' = p"
    if "p < length (content s)" using seek_law [OF ok that] by (simp add: moved_def seek_to_def)
qed

section \<open>Properties\<close>

text \<open>The abstract array with a cursor.\<close>

definition cursor_state :: "stream \<Rightarrow> byte list \<times> nat" where
  "cursor_state s = (content s, pos s)"

fun array_read :: "byte list \<times> nat \<Rightarrow> nat \<Rightarrow> (errcode + byte list) \<times> (byte list \<times> nat)" where
  "array_read (xs, p) n = (Inr (take n (drop p xs)), (xs, min (p + n) (length xs)))"

fun array_write :: "byte list \<times> nat \<Rightarrow> byte list \<Rightarrow> (errcode + nat) \<times> (byte list \<times> nat)" where
  "array_write (xs, p) bs =
     (if p + length bs \<le> length xs then (Inr (length bs), (overwrite xs p bs, p + length bs))
      else (Inl ENOSPC, (xs, p)))"



text \<open>C29: a narrowed stream never touches its base outside its window. Writing through it either
  succeeds or is refused with \<open>-ENOSPC\<close>, and in both cases the base keeps its length and every
  byte before the start and after the end of the window.\<close>

theorem narrowed_stream_confined:
  assumes ok: "store_ok (Stream (Narrowed_Stream base start end' ofs) a)"
  shows "\<exists>r base' ofs'. stream_write (Stream (Narrowed_Stream base start end' ofs) a) bs =
      (r, Stream (Narrowed_Stream base' start end' ofs') a) \<and>
    (r = Inr (length bs) \<or> r = Inl ENOSPC) \<and> length (content base') = length (content base) \<and>
    (\<forall>i < length (content base). i < start \<or> end' < i \<longrightarrow> content base' ! i = content base ! i)"
proof -
  have base: "store_ok base" "start \<le> end'" "end' < length (content base)" "start \<le> ofs" "ofs \<le> end' + 1"
    "ofs \<le> end' \<or> pos base = ofs" and a: "a = STREAM_ACCESS_RW" using ok by auto
  show ?thesis
  proof (cases "bs = []")
    case True
    then show ?thesis by auto
  next
    case n: False
    show ?thesis
    proof (cases "ofs + length bs \<le> end' + 1")
      case True
      obtain b2 where b2: "stream_write (Stream (Narrowed_Stream base start end' ofs) a) bs =
          (Inr (length bs), Stream (Narrowed_Stream b2 start end' (ofs + length bs)) a)"
        "content b2 = overwrite (content base) ofs bs"
        using narrowed_write [OF ok n True] write_law by blast
      have "content b2 ! i = content base ! i" if "i < length (content base)" "i < start \<or> end' < i" for i
        using b2(2) that base True by (auto simp: overwrite_def nth_append)
      with b2 base True show ?thesis by auto
    next
      case False
      obtain b1 where b1: "adjust_offset base ofs = (Inr (), b1)" "moved base ofs b1"
        using adjust_law [OF base(1), of ofs] base by auto
      have "end' < ofs + length bs - Suc 0" using False by linarith
      then have "stream_write (Stream (Narrowed_Stream base start end' ofs) a) bs =
          (Inl ENOSPC, Stream (Narrowed_Stream b1 start end' ofs) a)"
        using n a b1(1) by simp
      with b1(2) show ?thesis by (auto simp: moved_def)
    qed
  qed
qed

theorem narrowed_stream_confined_witness:
  "\<exists>r base' ofs'. stream_write (Stream (Narrowed_Stream (Stream (Memory_Stream [1, 2, 3, 4] 0) STREAM_ACCESS_RW)
      1 2 1) STREAM_ACCESS_RW) [9] = (r, Stream (Narrowed_Stream base' 1 2 ofs') STREAM_ACCESS_RW) \<and>
    content base' ! 0 = 1 \<and> content base' ! 3 = 4"
proof -
  have "store_ok (Stream (Narrowed_Stream (Stream (Memory_Stream [1, 2, 3, 4] 0) STREAM_ACCESS_RW) 1 2 1) STREAM_ACCESS_RW)"
    by simp
  from narrowed_stream_confined [OF this, of "[9]"] show ?thesis by fastforce
qed

lemma checksum_write:
  assumes "store_ok base" "pos base + length bs \<le> length (content base)"
  shows "\<exists>b'. stream_write (Stream (Checksum_Stream base ck) STREAM_ACCESS_RW) bs =
    (Inr (length bs), Stream (Checksum_Stream b' (checksum_feed ck bs)) STREAM_ACCESS_RW) \<and> written base bs b'"
proof (cases "bs = []")
  case True
  with assms show ?thesis by (auto simp: written_def checksum_feed_def store_ok_pos)
next
  case False
  with write_law [OF assms] show ?thesis by auto
qed

lemma checksum_write_all:
  assumes "store_ok base" "pos base + length (concat bss) \<le> length (content base)"
  shows "\<exists>b'. write_all stream_write bss (Stream (Checksum_Stream base ck) STREAM_ACCESS_RW) =
    (Inr (), Stream (Checksum_Stream b' (foldl checksum_feed ck bss)) STREAM_ACCESS_RW) \<and>
    written base (concat bss) b'"
  using assms
proof (induction bss arbitrary: base ck)
  case Nil
  then show ?case by (simp add: written_def store_ok_pos)
next
  case (Cons b bss)
  obtain b1 where b1: "stream_write (Stream (Checksum_Stream base ck) STREAM_ACCESS_RW) b =
      (Inr (length b), Stream (Checksum_Stream b1 (checksum_feed ck b)) STREAM_ACCESS_RW)" "written base b b1"
    using checksum_write [of base b ck] Cons.prems by auto
  from Cons.IH [of b1 "checksum_feed ck b"] Cons.prems b1 obtain b2 where
    "write_all stream_write bss (Stream (Checksum_Stream b1 (checksum_feed ck b)) STREAM_ACCESS_RW) =
      (Inr (), Stream (Checksum_Stream b2 (foldl checksum_feed (checksum_feed ck b) bss)) STREAM_ACCESS_RW)"
    "written b1 (concat bss) b2" by (auto simp: written_def)
  with b1 Cons.prems show ?case by (auto simp: write_exact_def written_def overwrite_append)
qed





text \<open>The place a seek asks for.\<close>

fun seek_target :: "nat \<Rightarrow> nat \<Rightarrow> int \<Rightarrow> stream_seek_mode \<Rightarrow> int" where
  "seek_target len ofs offset STREAM_SEEK_FROM_BEGINNING = offset"
| "seek_target len ofs offset STREAM_SEEK_FROM_END = int len + offset"
| "seek_target len ofs offset STREAM_SEEK_FROM_POS = int ofs + offset"

lemma u64_bounded:
  assumes "- (2 ^ 63) \<le> t" "t < 2 ^ 64" "n < 2 ^ 63"
  shows "u64 t \<le> n \<longleftrightarrow> 0 \<le> t \<and> t \<le> int n"
proof (cases "0 \<le> t")
  case True
  with assms(2) show ?thesis by (auto simp: u64_def)
next
  case False
  then have "t mod 2 ^ 64 = t + 2 ^ 64"
    using assms(1) by (intro mod_pos_pos_trivial [of "t + 2 ^ 64" "2 ^ 64", simplified mod_add_self2]) auto
  with False assms show ?thesis by (simp add: u64_def)
qed

text \<open>C31: a seek in a memory stream never leaves the stream's memory. For every \<open>int64_t\<close> offset and
  every mode it succeeds exactly when the place asked for lies between the start and one past
  the end, the cursor is then that place, and it is refused with \<open>-EINVAL\<close> and no move otherwise,
  although the sums are computed modulo two to the 64.\<close>

theorem memory_stream_seek_bounds:
  assumes len: "length bytes < 2 ^ 63" and ofs: "ofs \<le> length bytes"
    and offset: "- (2 ^ 63) \<le> offset" "offset < 2 ^ 63"
  shows "memory_stream_seek bytes ofs offset mode =
    (let t = seek_target (length bytes) ofs offset mode in
     if 0 \<le> t \<and> t \<le> int (length bytes) then (Inr (), nat t) else (Inl EINVAL, ofs))"
proof -
  let ?t = "seek_target (length bytes) ofs offset mode"
  have t: "- (2 ^ 63) \<le> ?t" "?t < 2 ^ 64" using assms by (cases mode; simp)+
  have "memory_stream_seek bytes ofs offset mode =
      (if u64 ?t > length bytes then (Inl EINVAL, ofs) else (Inr (), u64 ?t))"
    by (cases mode) (simp_all add: memory_stream_seek_def)
  moreover have "u64 ?t = nat ?t" if "0 \<le> ?t" using that t(2) by (simp add: u64_def)
  ultimately show ?thesis using u64_bounded [OF t len] by (auto simp: Let_def not_le [symmetric])
qed

theorem memory_stream_seek_bounds_witness:
  "memory_stream_seek [1, 2, 3] 1 (- 2) STREAM_SEEK_FROM_POS = (Inl EINVAL, 1)"
  by (subst memory_stream_seek_bounds) simp_all

end
