(* ===== verification/Vrt_Flat.thy ===== *)
theory Vrt_Flat
  imports Vrt_Stream_Store
begin

text \<open>
  The flat structures that the virtualizer writes to its streams. The code writes the bytes of a
  C structure as they are in memory; on the little-endian hosts it runs on, an unsigned integer
  of \<open>n\<close> bytes is the list of its digits to the base 256, the least significant first. The
  structures used have no padding: their fields are multiples of four bytes, and those of eight
  bytes stand at multiples of eight. A field is a natural number below its bound.
\<close>

primrec le_bytes :: "nat \<Rightarrow> nat \<Rightarrow> byte list" where
  "le_bytes 0 x = []"
| "le_bytes (Suc n) x = of_nat (x mod 256) # le_bytes n (x div 256)"

primrec of_le_bytes :: "byte list \<Rightarrow> nat" where
  "of_le_bytes [] = 0"
| "of_le_bytes (b # bs) = unat b + 256 * of_le_bytes bs"

lemma length_le_bytes [simp]: "length (le_bytes n x) = n"
  by (induction n arbitrary: x) simp_all

lemma of_le_bytes_le_bytes: "of_le_bytes (le_bytes n x) = x mod 256 ^ n"
proof (induction n arbitrary: x)
  case (Suc n)
  have "unat (of_nat (x mod 256) :: byte) = x mod 256" by (simp add: unat_of_nat)
  with Suc show ?case by (simp add: mod_mult2_eq)
qed simp

lemma le_bytes_inverse [simp]: "x < 256 ^ n \<Longrightarrow> of_le_bytes (le_bytes n x) = x"
  by (simp add: of_le_bytes_le_bytes)

text \<open>Words of 32 and of 64 bits.\<close>

definition le32 :: "32 word \<Rightarrow> byte list" where
  "le32 x = le_bytes 4 (unat x)"

definition le64 :: "64 word \<Rightarrow> byte list" where
  "le64 x = le_bytes 8 (unat x)"

definition of_le32 :: "byte list \<Rightarrow> 32 word" where
  "of_le32 bs = of_nat (of_le_bytes bs)"

definition of_le64 :: "byte list \<Rightarrow> 64 word" where
  "of_le64 bs = of_nat (of_le_bytes bs)"

lemma length_le [simp]: "length (le32 x) = 4" "length (le64 y) = 8"
  by (simp_all add: le32_def le64_def)

lemma le32_inverse [simp]: "of_le32 (le32 x) = x"
proof -
  have "unat x < 256 ^ 4" using unsigned_less [of x] by simp
  then show ?thesis by (simp only: le32_def of_le32_def le_bytes_inverse of_nat_unat ucast_id)
qed

lemma le64_inverse [simp]: "of_le64 (le64 x) = x"
proof -
  have "unat x < 256 ^ 8" using unsigned_less [of x] by simp
  then show ?thesis by (simp only: le64_def of_le64_def le_bytes_inverse of_nat_unat ucast_id)
qed

section \<open>Loops over the elements of a structure\<close>

text \<open>A loop that serialises or deserialises one element after the other and stops at the first
  error.\<close>

primrec each_io :: "('a \<Rightarrow> 's \<Rightarrow> (errcode + unit) \<times> 's) \<Rightarrow> 'a list \<Rightarrow> 's \<Rightarrow> (errcode + unit) \<times> 's" where
  "each_io f [] s = (Inr (), s)"
| "each_io f (x # xs) s =
     (case f x s of
        (Inl err, s') \<Rightarrow> (Inl err, s')
      | (Inr _, s') \<Rightarrow> each_io f xs s')"

primrec times_io :: "nat \<Rightarrow> ('s \<Rightarrow> (errcode + 'a) \<times> 's) \<Rightarrow> 's \<Rightarrow> (errcode + 'a list) \<times> 's" where
  "times_io 0 f s = (Inr [], s)"
| "times_io (Suc n) f s =
     (case f s of
        (Inl err, s') \<Rightarrow> (Inl err, s')
      | (Inr x, s') \<Rightarrow>
          (case times_io n f s' of
             (Inl err, s'') \<Rightarrow> (Inl err, s'')
           | (Inr xs, s'') \<Rightarrow> (Inr (x # xs), s'')))"

lemma write_all_Cons:
  "write_all write (b # bs) s =
     (case write_exact write b s of (Inl err, s') \<Rightarrow> (Inl err, s') | (Inr _, s') \<Rightarrow> write_all write bs s')"
  by simp

lemma write_all_append:
  "write_all write (as @ bs) s =
     (case write_all write as s of (Inl err, s') \<Rightarrow> (Inl err, s') | (Inr _, s') \<Rightarrow> write_all write bs s')"
  by (induction as arbitrary: s) (auto split: prod.splits sum.splits)

lemma each_io_write_all:
  "(\<And>x s. x \<in> set xs \<Longrightarrow> f x s = write_all write (enc x) s) \<Longrightarrow>
   each_io f xs s = write_all write (concat (map enc xs)) s"
  by (induction xs arbitrary: s) (auto simp: write_all_append split: prod.splits sum.splits)

text \<open>Reading back a sequence of elements, each of which is read back by its own reader. The state
  of the readers is arbitrary; \<open>at s rest\<close> says that \<open>rest\<close> is ahead.\<close>

lemma times_io_read:
  assumes "\<And>x s rest. x \<in> set xs \<Longrightarrow> at s (enc x @ rest) \<Longrightarrow> \<exists>s'. f s = (Inr x, s') \<and> at s' rest"
    and "at s (concat (map enc xs) @ rest)"
  shows "\<exists>s'. times_io (length xs) f s = (Inr xs, s') \<and> at s' rest"
  using assms
proof (induction xs arbitrary: s)
  case (Cons x xs)
  then obtain s1 where s1: "f s = (Inr x, s1)" "at s1 (concat (map enc xs) @ rest)" by fastforce
  with Cons.IH [OF _ s1(2)] Cons.prems(1) obtain s2 where
    "times_io (length xs) f s1 = (Inr xs, s2)" "at s2 rest" by fastforce
  with s1 show ?case by simp
qed simp

context byte_store
begin

text \<open>A stream that is good and has the given bytes ahead.\<close>

definition at :: "'s \<Rightarrow> byte list \<Rightarrow> bool" where
  "at s rest \<longleftrightarrow> ok s \<and> ahead s = rest"

lemma read_exact_at: "at s (b @ rest) \<Longrightarrow> length b = n \<Longrightarrow> \<exists>s'. read_exact sread n s = (Inr b, s') \<and> at s' rest"
  using read_exact_ok by (fastforce simp: at_def)

lemma write_all_at:
  assumes "ok s" "cursor s < length (bytes s)" "cursor s + length (concat bss) \<le> length (bytes s)"
  shows "\<exists>s1 s2 rest. write_all swrite bss s = (Inr (), s1) \<and> sseek s1 (cursor s) = (Inr (), s2) \<and>
    at s2 (concat bss @ rest)"
  using written_ahead [OF assms] by (auto simp: at_def)

end

end
