(* ===== verification/Vrt_Extent.thy ===== *)
theory Vrt_Extent
  imports Vrt_Flat
begin

text \<open>
  The lists of extents (\<open>vrt/assembly/src/extent.c\<close>, \<open>vrt/assembly/include/extent.h\<close>): a set of
  64-bit numbers as a list of intervals that are ordered, disjoint and not adjacent. Such a list
  holds the free chunks of a disk. The linked list is a HOL list; the loops that walk it with
  a pointer to the previous cell carry the cells already passed, the last one first.
\<close>

record extent =
  ext_start :: "64 word"
  ext_end :: "64 word"

definition extent_new :: "64 word \<Rightarrow> 64 word \<Rightarrow> extent" where
  "extent_new start end' = \<lparr> ext_start = start, ext_end = end' \<rparr>"

primrec extent_list_get_num_values :: "extent list \<Rightarrow> 64 word" where
  "extent_list_get_num_values [] = 0"
| "extent_list_get_num_values (cur # next) = (ext_end cur - ext_start cur + 1) + extent_list_get_num_values next"

primrec extent_list_count :: "extent list \<Rightarrow> 32 word" where
  "extent_list_count [] = 0"
| "extent_list_count (cur # next) = 1 + extent_list_count next"

primrec extent_list_contains_value :: "extent list \<Rightarrow> 64 word \<Rightarrow> bool" where
  "extent_list_contains_value [] value = False"
| "extent_list_contains_value (cur # next) value =
     (if value \<ge> ext_start cur \<and> value \<le> ext_end cur then True else extent_list_contains_value next value)"

text \<open>The end of \<open>extent_list_add_value\<close> after an extent was expanded: merge it with the previous
  one, or else with the next one.\<close>

definition merge_with_next :: "extent list \<Rightarrow> extent \<Rightarrow> extent list \<Rightarrow> extent list" where
  "merge_with_next prev cur next =
     (case next of
        n # rest \<Rightarrow>
          if ext_start n - 1 \<le> ext_end cur then rev prev @ cur\<lparr>ext_end := ext_end n\<rparr> # rest
          else rev prev @ cur # next
      | [] \<Rightarrow> rev prev @ [cur])"

definition merge_extent :: "extent list \<Rightarrow> extent \<Rightarrow> extent list \<Rightarrow> extent list" where
  "merge_extent prev cur next =
     (case prev of
        p # before \<Rightarrow>
          if ext_end p \<ge> ext_start cur - 1 then rev before @ p\<lparr>ext_end := ext_end cur\<rparr> # next
          else merge_with_next prev cur next
      | [] \<Rightarrow> merge_with_next prev cur next)"

fun add_value_loop :: "extent list \<Rightarrow> extent list \<Rightarrow> 64 word \<Rightarrow> extent list option" where
  "add_value_loop prev [] value =
     (if prev = [] then None else Some (rev prev @ [extent_new value value]))"
| "add_value_loop prev (cur # next) value =
     (if value \<ge> ext_start cur \<and> value \<le> ext_end cur then Some (rev prev @ cur # next)
      else if value = ext_start cur - 1 then
        Some (merge_extent prev (cur\<lparr>ext_start := ext_start cur - 1\<rparr>) next)
      else if value = ext_end cur + 1 then
        Some (merge_extent prev (cur\<lparr>ext_end := ext_end cur + 1\<rparr>) next)
      else if value > ext_end cur \<and> next \<noteq> [] \<and> ext_start (hd next) > value + 1 then
        Some (rev prev @ cur # extent_new value value # next)
      else add_value_loop (cur # prev) next value)"

definition extent_list_add_value :: "extent list \<Rightarrow> 64 word \<Rightarrow> extent list option" where
  "extent_list_add_value extent_list value =
     (if extent_list = [] then Some [extent_new value value]
      else if ext_start (hd extent_list) > 0 \<and> value < ext_start (hd extent_list) - 1
      then Some (extent_new value value # extent_list)
      else add_value_loop [] extent_list value)"

fun extent_list_remove_value :: "extent list \<Rightarrow> 64 word \<Rightarrow> extent list" where
  "extent_list_remove_value [] value = []"
| "extent_list_remove_value (cur # next) value =
     (if value = ext_start cur \<or> value = ext_end cur then
        (let cur = (if value = ext_start cur then cur\<lparr>ext_start := ext_start cur + 1\<rparr>
                    else cur\<lparr>ext_end := ext_end cur - 1\<rparr>)
         in if ext_start cur > ext_end cur then next
            else cur # extent_list_remove_value next value)
      else if value > ext_start cur \<and> value < ext_end cur then
        cur\<lparr>ext_end := value - 1\<rparr> # extent_new (value + 1) (ext_end cur) # next
      else cur # extent_list_remove_value next value)"

text \<open>The loop of \<open>extent_list_iter_for_each\<close>: it yields the values it visits, in order. The inner
  loop on an extent that ends at the greatest 64-bit number never leaves.\<close>

partial_function (option) extent_iter :: "64 word \<Rightarrow> 64 word \<Rightarrow> 64 word list option" where
  "extent_iter value end' =
     (if value \<le> end' then do { vs \<leftarrow> extent_iter (value + 1) end'; Some (value # vs) } else Some [])"

declare extent_iter.simps [code]

primrec extent_list_iter :: "extent list \<Rightarrow> 64 word list option" where
  "extent_list_iter [] = Some []"
| "extent_list_iter (iter # next) =
     do { vs \<leftarrow> extent_iter (ext_start iter) (ext_end iter); ws \<leftarrow> extent_list_iter next; Some (vs @ ws) }"

text \<open>The serialised form: the number of extents, then each extent as two 64-bit numbers.\<close>

definition extent_serialize :: "extent \<Rightarrow> stream \<Rightarrow> (errcode + unit) \<times> stream" where
  "extent_serialize extent s = write_exact stream_write (le64 (ext_start extent) @ le64 (ext_end extent)) s"

definition extent_deserialize :: "stream \<Rightarrow> (errcode + extent) \<times> stream" where
  "extent_deserialize s =
     (case read_exact stream_read 16 s of
        (Inl err, s') \<Rightarrow> (Inl err, s')
      | (Inr fe, s') \<Rightarrow> (Inr \<lparr> ext_start = of_le64 (take 8 fe), ext_end = of_le64 (drop 8 fe) \<rparr>, s'))"

definition extent_list_serialize :: "extent list \<Rightarrow> stream \<Rightarrow> (errcode + unit) \<times> stream" where
  "extent_list_serialize extent_list s =
     (case write_exact stream_write (le32 (extent_list_count extent_list)) s of
        (Inl err, s') \<Rightarrow> (Inl err, s')
      | (Inr _, s') \<Rightarrow> each_io extent_serialize extent_list s')"

definition extent_list_deserialize :: "stream \<Rightarrow> (errcode + extent list) \<times> stream" where
  "extent_list_deserialize s =
     (case read_exact stream_read 4 s of
        (Inl err, s') \<Rightarrow> (Inl err, s')
      | (Inr n, s') \<Rightarrow> times_io (unat (of_le32 n)) extent_deserialize s')"

section \<open>The invariant and the set of values\<close>

definition ext_before :: "extent \<Rightarrow> extent \<Rightarrow> bool" where
  "ext_before a b \<longleftrightarrow> unat (ext_end a) + 1 < unat (ext_start b)"

definition extents_wf :: "extent list \<Rightarrow> bool" where
  "extents_wf xs \<longleftrightarrow> (\<forall>e \<in> set xs. ext_start e \<le> ext_end e) \<and> sorted_wrt ext_before xs"

definition ext_values :: "extent \<Rightarrow> 64 word set" where
  "ext_values e = {v. ext_start e \<le> v \<and> v \<le> ext_end e}"

definition values_of :: "extent list \<Rightarrow> 64 word set" where
  "values_of xs = (\<Union>e \<in> set xs. ext_values e)"

lemma values_simps [simp]:
  "values_of [] = {}" "values_of (e # xs) = ext_values e \<union> values_of xs" "values_of (xs @ ys) = values_of xs \<union> values_of ys"
  "values_of (rev xs) = values_of xs"
  by (auto simp: values_of_def)

lemma wf_Cons:
  "extents_wf (e # xs) \<longleftrightarrow> ext_start e \<le> ext_end e \<and> (\<forall>f \<in> set xs. ext_before e f) \<and> extents_wf xs"
  by (auto simp: extents_wf_def)

lemma wf_append:
  "extents_wf (xs @ ys) \<longleftrightarrow> extents_wf xs \<and> extents_wf ys \<and> (\<forall>a \<in> set xs. \<forall>b \<in> set ys. ext_before a b)"
  by (auto simp: extents_wf_def sorted_wrt_append)

lemma wf_Nil [simp]: "extents_wf []"
  by (simp add: extents_wf_def)

lemmas wf_simps = wf_Cons wf_append

lemmas nat_words = word_le_nat_alt word_less_nat_alt

lemma unat_add_one: "v \<noteq> - 1 \<Longrightarrow> unat (v + 1 :: 64 word) = unat v + 1"
  by (metis Suc_eq_plus1 add.commute eq_neg_iff_add_eq_0 unatSuc)

lemma unat_pred: "v \<noteq> 0 \<Longrightarrow> unat (v - 1 :: 64 word) = unat v - 1"
  by (rule unat_minus_one)

lemma pred_eq: "v \<noteq> - 1 \<Longrightarrow> (v :: 64 word) = s - 1 \<longleftrightarrow> unat s = unat v + 1"
  using unat_add_one [of v] by (metis diff_add_cancel add_diff_cancel unsigned_word_eqI)

lemma succ_eq: "(v :: 64 word) \<noteq> 0 \<Longrightarrow> v = e + 1 \<longleftrightarrow> unat v = unat e + 1"
proof (cases "e = - 1")
  case True
  have "unat v < 2 ^ 64" using unsigned_less [of v] by simp
  with True show "v \<noteq> 0 \<Longrightarrow> v = e + 1 \<longleftrightarrow> unat v = unat e + 1"
    by (simp add: unsigned_minus_1_eq_mask mask_eq_exp_minus_1)
next
  case False
  then show ?thesis using unat_add_one [of e] by (metis unsigned_word_eqI)
qed

lemma word_eqI_nat: "unat (x :: 64 word) \<le> unat v \<Longrightarrow> unat v \<le> unat x \<Longrightarrow> x = v"
  by (simp add: word_le_nat_alt [symmetric])

lemma values_left: "unat (ext_start e) = unat v + 1 \<Longrightarrow> ext_start e \<le> ext_end e \<Longrightarrow>
    ext_values (e\<lparr>ext_start := v\<rparr>) = insert v (ext_values e)"
  by (auto simp: ext_values_def nat_words intro: word_eqI_nat)

lemma values_right: "unat v = unat (ext_end e) + 1 \<Longrightarrow> ext_start e \<le> ext_end e \<Longrightarrow>
    ext_values (e\<lparr>ext_end := v\<rparr>) = insert v (ext_values e)"
  by (auto simp: ext_values_def nat_words intro: word_eqI_nat)

lemma extent_new_sel [simp]: "ext_start (extent_new a b) = a" "ext_end (extent_new a b) = b"
  by (simp_all add: extent_new_def)

lemma values_new: "ext_values (extent_new v v) = {v}"
  by (auto simp: ext_values_def)

lemma values_join: "unat v = unat (ext_end e) + 1 \<Longrightarrow> unat (ext_start n) = unat v + 1 \<Longrightarrow>
    ext_start e \<le> ext_end e \<Longrightarrow> ext_start n \<le> ext_end n \<Longrightarrow>
    ext_values (e\<lparr>ext_end := ext_end n\<rparr>) = insert v (ext_values e \<union> ext_values n)"
  by (auto simp: ext_values_def nat_words intro: word_eqI_nat)

section \<open>Adding a value\<close>

text \<open>On a well-formed list the merge with the previous extent never applies; the merge with the
  next one applies when the value fills the gap.\<close>

lemma merge_left:
  assumes "extents_wf (rev prev @ cur # next)" "\<forall>p \<in> set prev. unat (ext_end p) + 1 < unat v"
    and "unat (ext_start cur) = unat v + 1"
  shows "merge_extent prev (cur\<lparr>ext_start := v\<rparr>) next = rev prev @ cur\<lparr>ext_start := v\<rparr> # next"
proof -
  have "\<not> ext_end p \<ge> v - 1" if "p \<in> set prev" for p
  proof -
    have "v \<noteq> 0" using assms(2) that by fastforce
    then show ?thesis using assms(2) that unat_pred [of v] by (fastforce simp: nat_words)
  qed
  moreover have "\<not> ext_start n - 1 \<le> ext_end cur" if "n \<in> set next" for n
  proof -
    have "unat (ext_end cur) + 1 < unat (ext_start n)"
      using assms(1) that by (auto simp: wf_simps ext_before_def)
    moreover from this have "ext_start n \<noteq> 0" by auto
    ultimately show ?thesis using unat_pred [of "ext_start n"] by (simp add: nat_words)
  qed
  ultimately show ?thesis
    by (auto simp: merge_extent_def merge_with_next_def split: list.splits)
qed

lemma merge_right:
  assumes "extents_wf (rev prev @ cur # next)" "unat v = unat (ext_end cur) + 1"
  shows "merge_extent prev (cur\<lparr>ext_end := v\<rparr>) next = rev prev @
    (case next of
       n # rest \<Rightarrow> if unat (ext_start n) = unat v + 1 then cur\<lparr>ext_end := ext_end n\<rparr> # rest
                   else cur\<lparr>ext_end := v\<rparr> # next
     | [] \<Rightarrow> [cur\<lparr>ext_end := v\<rparr>])"
proof -
  have "\<not> ext_end p \<ge> ext_start cur - 1" if "p \<in> set prev" for p
  proof -
    have "unat (ext_end p) + 1 < unat (ext_start cur)"
      using assms(1) that by (auto simp: wf_simps ext_before_def)
    moreover from this have "ext_start cur \<noteq> 0" by auto
    ultimately show ?thesis using unat_pred [of "ext_start cur"] by (simp add: nat_words)
  qed
  moreover have "ext_start n - 1 \<le> v \<longleftrightarrow> unat (ext_start n) = unat v + 1" if "n \<in> set next" for n
  proof -
    have "unat v < unat (ext_start n)"
      using assms that by (auto simp: wf_simps ext_before_def)
    moreover from this have "ext_start n \<noteq> 0" by auto
    ultimately show ?thesis using unat_pred [of "ext_start n"] by (auto simp: nat_words)
  qed
  ultimately show ?thesis
    by (auto simp: merge_extent_def merge_with_next_def split: list.splits)
qed

lemma add_right_ok:
  assumes wf: "extents_wf (rev prev @ cur # nxt)" and v: "unat v = unat (ext_end cur) + 1"
  defines "ys \<equiv> rev prev @
    (case nxt of
       n # rest \<Rightarrow> if unat (ext_start n) = unat v + 1 then cur\<lparr>ext_end := ext_end n\<rparr> # rest
                   else cur\<lparr>ext_end := v\<rparr> # nxt
     | [] \<Rightarrow> [cur\<lparr>ext_end := v\<rparr>])"
  shows "extents_wf ys \<and> values_of ys = insert v (values_of (prev @ cur # nxt))"
proof -
  have cur: "ext_start cur \<le> ext_end cur" using wf by (simp add: wf_simps)
  show ?thesis
  proof (cases nxt)
    case Nil
    then show ?thesis
      using wf v values_right [OF v cur] by (auto simp: ys_def wf_simps ext_before_def nat_words)
  next
    case (Cons n rest)
    have n: "ext_start n \<le> ext_end n" "unat (ext_end cur) + 1 < unat (ext_start n)"
      using wf Cons by (auto simp: wf_simps ext_before_def)
    show ?thesis
    proof (cases "unat (ext_start n) = unat v + 1")
      case True
      with wf v Cons values_join [OF v True cur n(1)] show ?thesis
        by (auto simp: ys_def wf_simps ext_before_def nat_words)
    next
      case False
      with n v have "unat v + 1 < unat (ext_start n)" by simp
      moreover from this n(1) have "unat v + 1 < unat (ext_start m)" if "m \<in> set rest" for m
        using wf Cons that by (fastforce simp: wf_simps ext_before_def nat_words)
      ultimately show ?thesis
        using wf v Cons False values_right [OF v cur] by (auto simp: ys_def wf_simps ext_before_def nat_words)
    qed
  qed
qed

lemma add_value_loop_ok:
  assumes "extents_wf (rev prev @ rest)" "v \<noteq> - 1" "\<forall>p \<in> set prev. unat (ext_end p) + 1 < unat v"
    and "rest \<noteq> [] \<Longrightarrow> unat (ext_start (hd rest)) \<le> unat v + 1" and "prev \<noteq> [] \<or> rest \<noteq> []"
  shows "\<exists>ys. add_value_loop prev rest v = Some ys \<and> extents_wf ys \<and>
    values_of ys = insert v (values_of (prev @ rest))"
  using assms
proof (induction prev rest v rule: add_value_loop.induct)
  case (1 prev v)
  then show ?case
    by (auto simp: wf_simps ext_before_def values_new)
next
  case (2 prev cur nxt v)
  note wf = "2.prems"(1) and vmax = "2.prems"(2) and past = "2.prems"(3)
  have cur: "unat (ext_start cur) \<le> unat v + 1" "ext_start cur \<le> ext_end cur"
    using "2.prems"(1,4) by (auto simp: wf_simps)
  have gap: "unat (ext_end cur) + 1 < unat (ext_start n)" if "n \<in> set nxt" for n
    using wf that by (auto simp: wf_simps ext_before_def)
  consider (inside) "ext_start cur \<le> v" "v \<le> ext_end cur"
    | (left) "v = ext_start cur - 1" "unat (ext_start cur) = unat v + 1"
    | (right) "v = ext_end cur + 1" "unat v = unat (ext_end cur) + 1"
    | (past) "unat (ext_end cur) + 1 < unat v"
  proof -
    have "v \<noteq> 0" if "unat (ext_end cur) < unat v" using that by auto
    then show thesis
      using that cur pred_eq [OF vmax, of "ext_start cur"] succ_eq [of v "ext_end cur"]
      by (fastforce simp: nat_words)
  qed
  then show ?case
  proof cases
    case inside
    then show ?thesis using wf by (auto simp: ext_values_def)
  next
    case left
    then have "add_value_loop prev (cur # nxt) v = Some (rev prev @ cur\<lparr>ext_start := v\<rparr> # nxt)"
      using merge_left [OF wf past left(2)] by (auto simp: nat_words)
    moreover have "extents_wf (rev prev @ cur\<lparr>ext_start := v\<rparr> # nxt)"
      using wf past left(2) by (auto simp: wf_simps ext_before_def nat_words)
    ultimately show ?thesis using values_left [OF left(2) cur(2)] by auto
  next
    case right
    have "\<not> v \<le> ext_end cur" "v \<noteq> ext_start cur - 1"
      using right(2) cur(2) pred_eq [OF vmax, of "ext_start cur"] by (auto simp: nat_words)
    then have "add_value_loop prev (cur # nxt) v = Some (merge_extent prev (cur\<lparr>ext_end := v\<rparr>) nxt)"
      using right(1) by simp
    with merge_right [OF wf right(2)] add_right_ok [OF wf right(2)] show ?thesis by simp
  next
    case past
    then have "v \<noteq> 0" by auto
    then have skip: "\<not> v \<le> ext_end cur" "v \<noteq> ext_start cur - 1" "v \<noteq> ext_end cur + 1" "v > ext_end cur"
      using past cur(2) pred_eq [OF vmax, of "ext_start cur"] succ_eq [of v "ext_end cur"]
      by (auto simp: nat_words)
    show ?thesis
    proof (cases "nxt \<noteq> [] \<and> ext_start (hd nxt) > v + 1")
      case True
      then obtain n ns where n: "nxt = n # ns" "unat v + 1 < unat (ext_start n)"
        using unat_add_one [OF vmax] by (cases nxt) (auto simp: nat_words)
      have "extents_wf (rev prev @ cur # extent_new v v # nxt)"
        using wf n past "2.prems"(3) by (auto simp: wf_simps ext_before_def nat_words dest!: bspec)
      then show ?thesis using skip True by (auto simp: values_new)
    next
      case False
      have "nxt \<noteq> [] \<Longrightarrow> unat (ext_start (hd nxt)) \<le> unat v + 1"
        using False unat_add_one [OF vmax] by (auto simp: nat_words not_less)
      with "2.IH" skip False wf vmax past "2.prems"(3)
      have "\<exists>ys. add_value_loop (cur # prev) nxt v = Some ys \<and> extents_wf ys \<and>
          values_of ys = insert v (values_of ((cur # prev) @ nxt))" by fastforce
      then show ?thesis using skip False by auto
    qed
  qed
qed

lemma add_value_spec:
  assumes "extents_wf xs" "v \<noteq> - 1"
  shows "\<exists>ys. extent_list_add_value xs v = Some ys \<and> extents_wf ys \<and> values_of ys = insert v (values_of xs)"
proof (cases xs)
  case Nil
  then show ?thesis by (simp add: extent_list_add_value_def wf_Cons values_new)
next
  case (Cons e es)
  show ?thesis
  proof (cases "ext_start e > 0 \<and> v < ext_start e - 1")
    case True
    then have "ext_start e \<noteq> 0" by auto
    with True have "unat v + 1 < unat (ext_start e)"
      using unat_pred [of "ext_start e"] by (auto simp: nat_words)
    with Cons assms(1) have "extents_wf (extent_new v v # xs)"
      by (auto simp: wf_simps ext_before_def nat_words)
    with True Cons show ?thesis by (simp add: extent_list_add_value_def values_new)
  next
    case False
    then have "unat (ext_start e) \<le> unat v + 1"
      using unat_pred [of "ext_start e"] by (cases "ext_start e = 0") (auto simp: nat_words word_neq_0_conv)
    with add_value_loop_ok [of "[]" xs v] assms Cons False show ?thesis
      by (auto simp: extent_list_add_value_def)
  qed
qed

section \<open>Removing a value\<close>

lemma values_after: "extents_wf (e # xs) \<Longrightarrow> v \<in> values_of xs \<Longrightarrow> unat (ext_end e) + 1 < unat v"
  by (fastforce simp: wf_simps ext_before_def values_of_def ext_values_def nat_words)

lemma remove_absent:
  "v \<notin> values_of xs \<Longrightarrow> extents_wf xs \<Longrightarrow> extent_list_remove_value xs v = xs"
  by (induction xs) (auto simp: ext_values_def wf_Cons nat_words)

text \<open>What removing a value makes of the extent that holds it.\<close>

definition ext_without :: "extent \<Rightarrow> 64 word \<Rightarrow> extent list" where
  "ext_without e v =
     (if ext_start e = ext_end e then []
      else if v = ext_start e then [e\<lparr>ext_start := v + 1\<rparr>]
      else if v = ext_end e then [e\<lparr>ext_end := v - 1\<rparr>]
      else [e\<lparr>ext_end := v - 1\<rparr>, extent_new (v + 1) (ext_end e)])"

lemma ext_value_cases:
  assumes "v \<in> ext_values e" "v \<noteq> - 1"
  obtains (single) "ext_start e = v" "ext_end e = v" "v < v + 1"
    | (first) "ext_start e = v" "v < ext_end e" "unat (v + 1) = unat v + 1"
    | (last) "ext_end e = v" "ext_start e < v" "unat (v - 1) = unat v - 1"
    | (middle) "ext_start e < v" "v < ext_end e" "unat (v + 1) = unat v + 1" "unat (v - 1) = unat v - 1"
proof -
  have "ext_start e < v \<Longrightarrow> v \<noteq> 0" by auto
  moreover have "unat (v + 1) = unat v + 1" using unat_add_one [OF assms(2)] .
  moreover from this have "v < v + 1" by (simp add: nat_words)
  ultimately show thesis
    using assms(1) that unat_pred [of v] unfolding ext_values_def by (smt (verit) mem_Collect_eq order_le_less)
qed

lemma remove_inside:
  assumes "extents_wf (e # xs)" "v \<noteq> - 1" "v \<in> ext_values e"
  shows "extent_list_remove_value (e # xs) v = ext_without e v @ xs"
proof -
  have "v \<notin> values_of xs"
    using values_after [OF assms(1), of v] assms(3) by (auto simp: ext_values_def nat_words)
  then have xs: "extent_list_remove_value xs v = xs"
    using remove_absent assms(1) by (simp add: wf_Cons)
  show ?thesis
    using assms(3,2) by (cases rule: ext_value_cases) (auto simp: ext_without_def nat_words xs)
qed

lemma remove_outside:
  "v \<notin> ext_values e \<Longrightarrow> ext_start e \<le> ext_end e \<Longrightarrow>
   extent_list_remove_value (e # xs) v = e # extent_list_remove_value xs v"
  by (auto simp: ext_values_def)

lemma nat_neq: "x = (v :: 64 word) \<or> unat x < unat v \<or> unat v < unat x"
  by (metis nat_neq_iff unsigned_word_eqI)

lemma ext_without_values:
  assumes "v \<in> ext_values e" "v \<noteq> - 1"
  shows "values_of (ext_without e v) = ext_values e - {v}"
proof (intro set_eqI)
  fix x
  show "x \<in> values_of (ext_without e v) \<longleftrightarrow> x \<in> ext_values e - {v}"
    using assms
  proof (cases rule: ext_value_cases)
    case single
    then show ?thesis by (auto simp: ext_without_def ext_values_def)
  next
    case first
    then show ?thesis using nat_neq [of x v] by (auto simp: ext_without_def ext_values_def nat_words)
  next
    case last
    then show ?thesis using nat_neq [of x v] by (auto simp: ext_without_def ext_values_def nat_words)
  next
    case middle
    then show ?thesis using nat_neq [of x v] by (auto simp: ext_without_def ext_values_def nat_words)
  qed
qed

lemma ext_without_ok:
  assumes "v \<in> ext_values e" "v \<noteq> - 1"
  shows "extents_wf (ext_without e v) \<and>
    (\<forall>f \<in> set (ext_without e v). ext_start e \<le> ext_start f \<and> ext_end f \<le> ext_end e)"
  using assms
proof (cases rule: ext_value_cases)
  case middle
  then show ?thesis by (auto simp: ext_without_def wf_Cons ext_before_def nat_words)
qed (auto simp: ext_without_def wf_Cons nat_words)

lemma remove_value_spec:
  assumes "extents_wf xs" "v \<noteq> - 1"
  shows "extents_wf (extent_list_remove_value xs v) \<and>
    values_of (extent_list_remove_value xs v) = values_of xs - {v} \<and>
    (\<forall>f. (\<forall>e \<in> set xs. ext_before f e) \<longrightarrow> (\<forall>e \<in> set (extent_list_remove_value xs v). ext_before f e))"
  using assms(1)
proof (induction xs)
  case (Cons e xs)
  have wf: "ext_start e \<le> ext_end e" "extents_wf xs" "\<forall>f \<in> set xs. ext_before e f"
    using Cons.prems by (auto simp: wf_Cons)
  show ?case
  proof (cases "v \<in> ext_values e")
    case True
    have "v \<notin> values_of xs"
      using values_after [OF Cons.prems, of v] True by (auto simp: ext_values_def nat_words)
    with remove_inside [OF Cons.prems assms(2) True] ext_without_ok [OF True assms(2)]
      ext_without_values [OF True assms(2)] wf show ?thesis
      by (fastforce simp: wf_simps ext_before_def nat_words)
  next
    case False
    with Cons.IH wf show ?thesis
      by (simp add: remove_outside wf_Cons del: extent_list_remove_value.simps) blast
  qed
qed simp

section \<open>Queries, iteration, canonical form\<close>

lemma contains_value_spec [simp]: "extent_list_contains_value xs v \<longleftrightarrow> v \<in> values_of xs"
  by (induction xs) (auto simp: ext_values_def)

lemma card_ext_values:
  assumes "ext_start e \<le> ext_end e"
  shows "card (ext_values e) = unat (ext_end e) + 1 - unat (ext_start e)"
proof -
  have small: "n < 2 ^ 64" if "n \<le> unat (ext_end e)" for n
  proof -
    have "unat (ext_end e) < 2 ^ 64" using unsigned_less [of "ext_end e"] by simp
    with that show ?thesis by simp
  qed
  have "bij_betw unat (ext_values e) {unat (ext_start e)..unat (ext_end e)}"
    by (rule bij_betw_byWitness [where f' = of_nat])
       (use small in \<open>auto simp: ext_values_def nat_words unat_of_nat\<close>)
  then show ?thesis by (simp add: bij_betw_same_card)
qed

lemma num_values_spec: "extents_wf xs \<Longrightarrow> extent_list_get_num_values xs = of_nat (card (values_of xs))"
proof (induction xs)
  case (Cons e xs)
  have e: "ext_start e \<le> ext_end e" and xs: "extents_wf xs" using Cons.prems by (auto simp: wf_Cons)
  have "ext_values e \<inter> values_of xs = {}"
    using values_after [OF Cons.prems] by (fastforce simp: ext_values_def nat_words)
  then have "card (values_of (e # xs)) = unat (ext_end e) + 1 - unat (ext_start e) + card (values_of xs)"
    by (simp add: card_Un_disjoint card_ext_values [OF e])
  moreover have "of_nat (unat (ext_end e) + 1 - unat (ext_start e)) = ext_end e - ext_start e + 1"
    using e by (simp add: nat_words of_nat_diff)
  ultimately show ?case using Cons.IH [OF xs] by simp
qed simp

lemma iter_extent:
  assumes "end' \<noteq> - 1"
  shows "extent_iter v end' = Some (map of_nat [unat v..<unat end' + 1])"
proof (induction "unat end' + 1 - unat v" arbitrary: v)
  case 0
  then show ?case by (subst extent_iter.simps) (simp add: nat_words)
next
  case (Suc k)
  then have le: "v \<le> end'" by (simp add: nat_words)
  have "v \<noteq> - 1" using le assms by (metis order_antisym word_n1_ge)
  then have "unat (v + 1) = unat v + 1" by (rule unat_add_one)
  with Suc.hyps have "extent_iter (v + 1) end' = Some (map of_nat [unat v + 1..<unat end' + 1])"
    by (metis Suc_eq_plus1 add_diff_cancel_right' diff_diff_left)
  moreover have "[unat v..<unat end' + 1] = unat v # [unat v + 1..<unat end' + 1]"
    using le by (intro upt_rec [THEN trans]) (simp add: nat_words)
  ultimately show ?case using le by (subst extent_iter.simps) (simp del: upt_Suc)
qed

lemma iter_leaves: "extent_iter v end' = Some vs \<Longrightarrow> end' \<noteq> - 1"
  by (rule extent_iter.raw_induct [of "\<lambda>v end' vs. end' \<noteq> - 1"])
     (auto split: Option.bind_splits if_splits)

text \<open>A well-formed list is determined by its values.\<close>

lemma values_first:
  assumes "extents_wf (e # xs)" "v \<in> values_of (e # xs)"
  shows "ext_start e \<le> v"
  using values_after [OF assms(1), of v] assms by (auto simp: wf_Cons ext_values_def nat_words)

lemma ext_end_least:
  assumes "extents_wf (e # xs)" "extents_wf (f # ys)" "values_of (e # xs) = values_of (f # ys)"
    and "ext_start e = ext_start f"
  shows "ext_end f \<le> ext_end e"
proof (rule ccontr)
  assume "\<not> ext_end f \<le> ext_end e"
  then have lt: "unat (ext_end e) < unat (ext_end f)" by (simp add: nat_words)
  then have "ext_end e \<noteq> - 1" by (metis not_less word_n1_ge word_less_nat_alt)
  then have u: "unat (ext_end e + 1) = unat (ext_end e) + 1" by (rule unat_add_one)
  have "ext_end e + 1 \<in> ext_values f"
    using lt u assms(1,4) by (auto simp: ext_values_def nat_words wf_Cons)
  then have "ext_end e + 1 \<in> values_of (e # xs)" using assms(3) by simp
  with values_after [OF assms(1), of "ext_end e + 1"] u show False
    by (auto simp: ext_values_def nat_words)
qed

lemma first_extent:
  assumes "extents_wf (e # xs)" "extents_wf (f # ys)" "values_of (e # xs) = values_of (f # ys)"
  shows "e = f"
proof -
  have "ext_start e \<in> values_of (e # xs)" "ext_start f \<in> values_of (f # ys)"
    using assms by (auto simp: ext_values_def wf_Cons)
  then have s: "ext_start e = ext_start f"
    using values_first [OF assms(2)] values_first [OF assms(1)] assms(3) by (metis order_antisym)
  then have "ext_end e = ext_end f"
    using ext_end_least assms by (metis order_antisym)
  with s show ?thesis by (simp add: extent.equality)
qed

lemma wf_unique:
  "extents_wf xs \<Longrightarrow> extents_wf ys \<Longrightarrow> values_of xs = values_of ys \<Longrightarrow> xs = ys"
proof (induction xs arbitrary: ys)
  case Nil
  then show ?case by (cases ys) (auto simp: wf_Cons ext_values_def)
next
  case (Cons e xs)
  then obtain f fs where ys: "ys = f # fs" by (cases ys) (auto simp: wf_Cons ext_values_def)
  have ef: "e = f" using first_extent Cons.prems ys by blast
  have "v \<notin> ext_values e" if "v \<in> values_of xs \<or> v \<in> values_of fs" for v
    using that values_after [OF Cons.prems(1), of v] values_after [of f fs v] Cons.prems(2) ys ef
    by (auto simp: ext_values_def nat_words)
  then have "values_of xs = values_of fs" using Cons.prems(3) ys ef by auto
  with Cons.IH [of fs] Cons.prems(1,2) ys ef show ?case by (simp add: wf_Cons)
qed

section \<open>The contract of a set of values\<close>

text \<open>What a client relies on: adding and removing legal values, membership, and that equal sets
  have equal representations. With it, putting back a value that was taken restores the
  representation itself.\<close>

locale value_set =
  fixes add :: "'s \<Rightarrow> 'v \<Rightarrow> 's option" and remove :: "'s \<Rightarrow> 'v \<Rightarrow> 's" and vals :: "'s \<Rightarrow> 'v set"
    and ok :: "'s \<Rightarrow> bool" and legal :: "'v \<Rightarrow> bool"
  assumes add_law: "ok s \<Longrightarrow> legal v \<Longrightarrow> \<exists>s'. add s v = Some s' \<and> ok s' \<and> vals s' = insert v (vals s)"
    and remove_law: "ok s \<Longrightarrow> legal v \<Longrightarrow> ok (remove s v) \<and> vals (remove s v) = vals s - {v}"
    and canonical: "ok s \<Longrightarrow> ok s' \<Longrightarrow> vals s = vals s' \<Longrightarrow> s = s'"
begin

lemma put_back:
  assumes "ok s" "legal v" "v \<in> vals s"
  shows "add (remove s v) v = Some s"
proof -
  have r: "ok (remove s v)" "vals (remove s v) = vals s - {v}" using remove_law assms by blast+
  obtain s' where s': "add (remove s v) v = Some s'" "ok s'" "vals s' = insert v (vals s - {v})"
    using add_law [OF r(1) assms(2)] r(2) by auto
  have "s' = s" using canonical [OF s'(2) assms(1)] s'(3) assms(3) by auto
  with s' show ?thesis by simp
qed

lemma take_back:
  assumes "ok s" "legal v" "v \<notin> vals s" "add s v = Some s'"
  shows "remove s' v = s"
proof -
  have s': "ok s'" "vals s' = insert v (vals s)" using add_law [OF assms(1,2)] assms(4) by auto
  then have "ok (remove s' v)" "vals (remove s' v) = vals s" using remove_law [OF s'(1) assms(2)] assms(3) by auto
  then show ?thesis using canonical assms(1) by blast
qed

primrec add_all :: "'v list \<Rightarrow> 's \<Rightarrow> 's option" where
  "add_all [] s = Some s"
| "add_all (v # vs) s = do { s' \<leftarrow> add s v; add_all vs s' }"

lemma add_all_law:
  "ok s \<Longrightarrow> \<forall>v \<in> set vs. legal v \<Longrightarrow> \<exists>s'. add_all vs s = Some s' \<and> ok s' \<and> vals s' = set vs \<union> vals s"
proof (induction vs arbitrary: s)
  case (Cons v vs)
  then obtain s1 where s1: "add s v = Some s1" "ok s1" "vals s1 = insert v (vals s)" using add_law by force
  with Cons.IH [of s1] Cons.prems show ?case by auto
qed simp

end

interpretation extents: value_set extent_list_add_value extent_list_remove_value values_of extents_wf "\<lambda>v. v \<noteq> - 1"
  by unfold_locales (use add_value_spec remove_value_spec wf_unique in blast)+

section \<open>Properties\<close>

text \<open>C17: a list of extents implements a set of 64-bit numbers other than the greatest one. Adding
  a value never fails the assertion of the code, keeps the list ordered with gaps, and adds
  exactly that value; removing keeps it ordered and removes exactly that value; the membership
  test and the number of values are those of the set.\<close>

theorem extent_list_is_set:
  assumes "extents_wf xs" "v \<noteq> - 1"
  shows "(\<exists>ys. extent_list_add_value xs v = Some ys \<and> extents_wf ys \<and> values_of ys = insert v (values_of xs))
    \<and> extents_wf (extent_list_remove_value xs v)
    \<and> values_of (extent_list_remove_value xs v) = values_of xs - {v}
    \<and> (extent_list_contains_value xs w \<longleftrightarrow> w \<in> values_of xs)
    \<and> extent_list_get_num_values xs = of_nat (card (values_of xs))"
  using add_value_spec [OF assms] remove_value_spec [OF assms] num_values_spec [OF assms(1)] by auto

theorem extent_list_is_set_witness:
  "\<exists>ys. extent_list_add_value [extent_new 1 2, extent_new 4 9] 3 = Some ys \<and> extents_wf ys \<and>
    values_of ys = insert 3 (values_of [extent_new 1 2, extent_new 4 9])"
  using extent_list_is_set [of "[extent_new 1 2, extent_new 4 9]" 3]
  by (simp add: extents_wf_def ext_before_def)

text \<open>C32: the representation is canonical, and taking and putting back are inverse. Two well-formed
  lists with the same values are equal; putting back a value just removed, or removing one just
  added, restores the list itself, extent by extent.\<close>

theorem extent_list_put_back:
  assumes "extents_wf xs" "v \<noteq> - 1"
  shows "(v \<in> values_of xs \<longrightarrow> extent_list_add_value (extent_list_remove_value xs v) v = Some xs)
    \<and> (v \<notin> values_of xs \<longrightarrow> (\<exists>ys. extent_list_add_value xs v = Some ys \<and> extent_list_remove_value ys v = xs))
    \<and> (extents_wf ys \<and> values_of xs = values_of ys \<longrightarrow> xs = ys)"
  using extents.put_back [OF assms] extents.take_back [OF assms] extents.add_law [OF assms] wf_unique [OF assms(1)]
  by blast

theorem extent_list_put_back_witness:
  "extent_list_add_value (extent_list_remove_value [extent_new 1 5] 3) 3 = Some [extent_new 1 5]"
  using extent_list_put_back [of "[extent_new 1 5]" 3] by (simp add: extents_wf_def ext_values_def)

lemma iter_set:
  assumes "ext_end e \<noteq> - 1"
  shows "\<exists>vs. extent_iter (ext_start e) (ext_end e) = Some vs \<and> set vs = ext_values e \<and> sorted_wrt (<) vs"
proof -
  let ?vs = "map of_nat [unat (ext_start e)..<unat (ext_end e) + 1] :: 64 word list"
  have small: "n < 2 ^ 64" if "n \<le> unat (ext_end e)" for n
  proof -
    have "unat (ext_end e) < 2 ^ 64" using unsigned_less [of "ext_end e"] by simp
    with that show ?thesis by simp
  qed
  have "set ?vs = ext_values e"
  proof (intro set_eqI iffI)
    fix x assume "x \<in> set ?vs"
    with small show "x \<in> ext_values e" by (auto simp: ext_values_def nat_words unat_of_nat)
  next
    fix x assume "x \<in> ext_values e"
    then have "unat x \<in> {unat (ext_start e)..<unat (ext_end e) + 1}" by (simp add: ext_values_def nat_words)
    then show "x \<in> set ?vs" by (simp add: image_iff del: upt_Suc) (rule bexI [of _ "unat x"], simp_all)
  qed
  moreover have "sorted_wrt (<) ?vs"
    unfolding sorted_wrt_map
    by (rule sorted_wrt_mono_rel [OF _ sorted_wrt_upt]) (use small in \<open>auto simp: nat_words unat_of_nat\<close>)
  ultimately show ?thesis using iter_extent [OF assms] by blast
qed

lemma list_iter_set:
  "extents_wf xs \<Longrightarrow> \<forall>e \<in> set xs. ext_end e \<noteq> - 1 \<Longrightarrow>
   \<exists>vs. extent_list_iter xs = Some vs \<and> set vs = values_of xs \<and> sorted_wrt (<) vs"
proof (induction xs)
  case (Cons e xs)
  obtain vs where vs: "extent_iter (ext_start e) (ext_end e) = Some vs" "set vs = ext_values e" "sorted_wrt (<) vs"
    using iter_set [of e] Cons.prems by auto
  obtain ws where ws: "extent_list_iter xs = Some ws" "set ws = values_of xs" "sorted_wrt (<) ws"
    using Cons by (auto simp: wf_Cons)
  have "v < w" if "v \<in> ext_values e" "w \<in> values_of xs" for v w
    using values_after [OF Cons.prems(1) that(2)] that(1) by (simp add: ext_values_def nat_words)
  with vs ws show ?case by (auto simp: sorted_wrt_append)
qed simp

lemma list_iter_leaves: "extent_list_iter xs = Some vs \<Longrightarrow> e \<in> set xs \<Longrightarrow> ext_end e \<noteq> - 1"
  by (induction xs arbitrary: vs) (auto split: Option.bind_splits dest: iter_leaves)

text \<open>C23: iterating over a list of extents ends exactly when the greatest 64-bit number is not in
  it, and then visits every value once, in increasing order; an extent that ends at that number
  is walked for ever.\<close>

theorem extent_iteration_terminates:
  assumes wf: "extents_wf xs"
  shows "(- 1 \<notin> values_of xs \<longleftrightarrow> (\<exists>vs. extent_list_iter xs = Some vs)) \<and>
    (\<forall>vs. extent_list_iter xs = Some vs \<longrightarrow> set vs = values_of xs \<and> sorted_wrt (<) vs)"
proof -
  have "ext_end e \<le> - 1" for e by (rule word_n1_ge)
  then have max: "- 1 \<in> ext_values e \<longleftrightarrow> ext_end e = - 1" for e
    by (auto simp: ext_values_def intro: order_antisym)
  have top: "- 1 \<notin> values_of xs \<longleftrightarrow> (\<forall>e \<in> set xs. ext_end e \<noteq> - 1)"
    by (auto simp: values_of_def max)
  then show ?thesis using list_iter_set [OF wf] list_iter_leaves by fastforce
qed

theorem extent_iteration_terminates_witness:
  "\<exists>vs. extent_list_iter [extent_new 1 2, extent_new 7 9] = Some vs"
proof -
  have "extents_wf [extent_new 1 2, extent_new 7 9]" by (simp add: extents_wf_def ext_before_def)
  moreover have "- 1 \<notin> values_of [extent_new 1 2, extent_new 7 9]"
    by (simp add: ext_values_def nat_words unsigned_minus_1_eq_mask mask_eq_exp_minus_1)
  ultimately show ?thesis using extent_iteration_terminates by blast
qed

lemma extent_list_serialize_eq:
  "extent_list_serialize xs s =
   write_all stream_write (le32 (extent_list_count xs) # map (\<lambda>e. le64 (ext_start e) @ le64 (ext_end e)) xs) s"
proof -
  have "each_io extent_serialize xs s = write_all stream_write (concat (map (\<lambda>e. [le64 (ext_start e) @ le64 (ext_end e)]) xs)) s" for s
    by (rule each_io_write_all) (auto simp: extent_serialize_def split: prod.splits sum.splits)
  then show ?thesis by (auto simp: extent_list_serialize_def split: prod.splits sum.splits)
qed

lemma extent_deserialize_at:
  assumes "store.at s ((le64 (ext_start e) @ le64 (ext_end e)) @ rest)"
  shows "\<exists>s'. extent_deserialize s = (Inr e, s') \<and> store.at s' rest"
  using store.read_exact_at [OF assms, of 16] by (auto simp: extent_deserialize_def)

lemma unat_extent_list_count: "length xs < 2 ^ 32 \<Longrightarrow> unat (extent_list_count xs) = length xs"
proof -
  have "extent_list_count xs = of_nat (length xs)" by (induction xs) simp_all
  then show "length xs < 2 ^ 32 \<Longrightarrow> ?thesis" by (simp add: unat_of_nat)
qed

text \<open>C33: a list of extents that was serialised is read back as it was, from any stack of memory,
  stat and narrowed streams with room for it; a stream too small for it refuses with \<open>-ENOSPC\<close>.\<close>

theorem extent_list_round_trip:
  assumes "store_ok s" "pos s < length (content s)" "length xs < 2 ^ 32"
  shows "if pos s + 4 + 16 * length xs \<le> length (content s)
    then \<exists>s1 s2 s3. extent_list_serialize xs s = (Inr (), s1) \<and> seek_to s1 (pos s) = (Inr (), s2) \<and>
      extent_list_deserialize s2 = (Inr xs, s3)
    else \<exists>s1. extent_list_serialize xs s = (Inl ENOSPC, s1)"
proof -
  let ?bss = "le32 (extent_list_count xs) # map (\<lambda>e. le64 (ext_start e) @ le64 (ext_end e)) xs"
  have len: "length (concat ?bss) = 4 + 16 * length xs" by (simp add: length_concat comp_def sum_list_triv)
  show ?thesis
  proof (cases "pos s + 4 + 16 * length xs \<le> length (content s)")
    case True
    then have room: "pos s + length (concat ?bss) \<le> length (content s)" using len by linarith
    obtain s1 s2 rest where s: "write_all stream_write ?bss s = (Inr (), s1)" "seek_to s1 (pos s) = (Inr (), s2)"
      "store.at s2 (concat ?bss @ rest)"
      using store.write_all_at [OF assms(1,2) room] by blast
    then have "store.at s2 (le32 (extent_list_count xs) @ concat (map (\<lambda>e. le64 (ext_start e) @ le64 (ext_end e)) xs) @ rest)"
      by simp
    with store.read_exact_at [OF this, of 4] obtain s3 where
      s3: "read_exact stream_read 4 s2 = (Inr (le32 (extent_list_count xs)), s3)"
      "store.at s3 (concat (map (\<lambda>e. le64 (ext_start e) @ le64 (ext_end e)) xs) @ rest)" by auto
    have "\<exists>s4. times_io (length xs) extent_deserialize s3 = (Inr xs, s4) \<and> store.at s4 rest"
      by (rule times_io_read [where at = store.at and enc = "\<lambda>e. le64 (ext_start e) @ le64 (ext_end e)"])
         (use s3(2) extent_deserialize_at in blast)+
    with s s3 True show ?thesis
      by (auto simp: extent_list_serialize_eq extent_list_deserialize_def unat_extent_list_count [OF assms(3)])
  next
    case False
    then have "pos s + length (concat ?bss) > length (content s)" using len by simp
    from store.write_all_full [OF assms(1) this] False show ?thesis by (auto simp: extent_list_serialize_eq)
  qed
qed

theorem extent_list_round_trip_witness:
  "\<exists>s1 s2 s3. extent_list_serialize [extent_new 1 2] (Stream (Memory_Stream (replicate 20 0) 0) STREAM_ACCESS_RW) = (Inr (), s1) \<and>
    seek_to s1 0 = (Inr (), s2) \<and> extent_list_deserialize s2 = (Inr [extent_new 1 2], s3)"
  using extent_list_round_trip [of "Stream (Memory_Stream (replicate 20 0) 0) STREAM_ACCESS_RW" "[extent_new 1 2]"]
  by simp

text \<open>At the greatest 64-bit number the code loses its set: adding it to a list that starts at 0
  makes the first extent empty, and removing it when it stands alone leaves the whole range.\<close>

theorem extent_list_greatest_value:
  "extent_list_add_value [extent_new 0 5] (- 1) = Some [extent_new (- 1) 5] \<and> values_of [extent_new (- 1) 5] = {} \<and>
   extent_list_remove_value [extent_new (- 1) (- 1)] (- 1) = [extent_new 0 (- 1)] \<and>
   values_of [extent_new 0 (- 1)] = UNIV"
proof -
  have top: "\<not> - 1 \<le> (5 :: 64 word)"
    by (simp add: nat_words unsigned_minus_1_eq_mask mask_eq_exp_minus_1)
  have "extent_list_add_value [extent_new 0 5] (- 1) = Some [extent_new (- 1) 5]"
    using top by (simp add: extent_list_add_value_def merge_extent_def merge_with_next_def extent_new_def)
  moreover have "v \<notin> values_of [extent_new (- 1) 5]" for v
    using top by (auto simp: ext_values_def)
  moreover have "extent_list_remove_value [extent_new (- 1) (- 1)] (- 1) = [extent_new 0 (- 1)]"
    by (simp add: extent_new_def)
  moreover have "v \<in> values_of [extent_new 0 (- 1)]" for v
    by (simp add: ext_values_def)
  ultimately show ?thesis by blast
qed

end
