(* ===== verification/Vrt_Prediction.thy ===== *)
theory Vrt_Prediction
  imports Exa_Prelude "HOL-Library.Word"
begin

text \<open>
  The prediction of the number of slots a storage can give
  (\<open>vrt/assembly/src/assembly_prediction.c\<close>). A slot takes one chunk from each of \<open>w\<close> different
  failure domains; the prediction is computed from the number of chunks of each domain. All the
  numbers are \<open>uint64_t\<close> and are words of 64 bits. A failed assertion or a division by zero is
  \<open>None\<close>.
\<close>

definition chunk_count_gt :: "64 word \<Rightarrow> 64 word \<Rightarrow> int" where
  "chunk_count_gt c1 c2 = (if c1 < c2 then - 1 else if c1 > c2 then 1 else 0)"

definition spof_chunks_sort :: "64 word list \<Rightarrow> 64 word list" where
  "spof_chunks_sort spof_chunks = qsort chunk_count_gt spof_chunks"

text \<open>The effective number of chunks. The recursive calls are on smaller ranks, for which the
  assertion on the rank holds again.\<close>

function effective :: "64 word \<Rightarrow> 64 word \<Rightarrow> 64 word \<Rightarrow> 64 word list \<Rightarrow> 64 word" where
  "effective i n w spof_chunks =
     (if i \<le> n - w then spof_chunks ! unat i
      else (let num = sum_list (map (\<lambda>j. effective (of_nat j) n w spof_chunks) [0..<unat i]);
                thingy = num div (i - n + w)
            in min (spof_chunks ! unat i) thingy))"
  by pat_completeness auto
termination
proof (relation "measure (\<lambda>(i, _). unat i)", goal_cases)
  case (2 i n w spof_chunks j)
  then have "j < unat i" by simp
  moreover have "unat (of_nat j :: 64 word) \<le> j" by (simp add: unat_of_nat)
  ultimately show ?case by simp
qed simp

declare effective.simps [simp del]

definition E :: "64 word \<Rightarrow> 64 word \<Rightarrow> 64 word \<Rightarrow> 64 word list \<Rightarrow> 64 word option" where
  "E i n w spof_chunks = do { exa_assert (i < n); Some (effective i n w spof_chunks) }"

definition sum_E :: "64 word \<Rightarrow> 64 word \<Rightarrow> 64 word \<Rightarrow> 64 word list \<Rightarrow> 64 word" where
  "sum_E m n w spof_chunks = sum_list (map (\<lambda>i. effective (of_nat i) n w spof_chunks) [0..<unat m])"

text \<open>A division of the code.\<close>

definition quotient :: "64 word \<Rightarrow> 64 word \<Rightarrow> 64 word option" where
  "quotient a b = (if b = 0 then None else Some (a div b))"

definition assembly_predict_max_slots_without_sparing :: "64 word \<Rightarrow> 64 word \<Rightarrow> 64 word list \<Rightarrow> 64 word option" where
  "assembly_predict_max_slots_without_sparing n w spof_chunks =
     (if w > n then Some 0
      else (let spof_chunks = spof_chunks_sort spof_chunks; num = sum_E n n w spof_chunks in quotient num w))"

definition s_max_of :: "64 word \<Rightarrow> 64 word \<Rightarrow> 64 word \<Rightarrow> 64 word list \<Rightarrow> 64 word option" where
  "s_max_of n f w spof_chunks = quotient (sum_E (n - f) (n - f) w spof_chunks) w"

definition quotient_ceil64 :: "64 word \<Rightarrow> 32 word \<Rightarrow> 64 word option" where
  "quotient_ceil64 a q = quotient (a + ucast q - 1) (ucast q)"

definition r_last_of ::
  "64 word \<Rightarrow> 64 word \<Rightarrow> 64 word \<Rightarrow> 64 word \<Rightarrow> 64 word \<Rightarrow> 64 word \<Rightarrow> 64 word list \<Rightarrow> 64 word option" where
  "r_last_of n f w s_max c_max r_max spof_chunks =
     (let s_last_col = s_max - (c_max - 1) * r_max;
          num = sum_E (n - f) (n - f) (w * c_max) spof_chunks
      in do { q \<leftarrow> quotient num (w * c_max); Some (min q s_last_col) })"

definition assembly_predict_max_slots_reserved_with_last ::
  "64 word \<Rightarrow> 64 word \<Rightarrow> 64 word \<Rightarrow> 64 word list \<Rightarrow> 64 word option" where
  "assembly_predict_max_slots_reserved_with_last n f w spof_chunks =
     (if f > n \<or> w > n then Some 0
      else do {
        let spof_chunks = spof_chunks_sort spof_chunks;
        r_max \<leftarrow> E (n - f) n (w + f) spof_chunks;
        s_max \<leftarrow> s_max_of n f w spof_chunks;
        c_max \<leftarrow> quotient_ceil64 s_max (ucast r_max);
        r_last \<leftarrow> r_last_of n f w s_max c_max r_max spof_chunks;
        Some (r_max * (c_max - 1) + r_last)
      })"

definition r_full_of :: "64 word \<Rightarrow> 64 word \<Rightarrow> 64 word \<Rightarrow> 64 word \<Rightarrow> 64 word list \<Rightarrow> 64 word option" where
  "r_full_of n f w c_max spof_chunks =
     (let num = sum_E n n (w * (c_max - 1) + f) spof_chunks; denum = w * (c_max - 1) + f
      in quotient num denum)"

definition s_extra_of :: "64 word \<Rightarrow> 64 word \<Rightarrow> 64 word \<Rightarrow> 64 word \<Rightarrow> 64 word \<Rightarrow> 64 word list \<Rightarrow> 64 word option" where
  "s_extra_of n f w c_max r_full spof_chunks =
     (let o_extra = sum_list (map (\<lambda>i.
            let efficiency_threshold = effective (of_nat i) n (w * (c_max - 1) + f) spof_chunks + 1
            in min efficiency_threshold (spof_chunks ! i)) [0..<unat n]);
          o_extra = o_extra - r_full * (w * (c_max - 1) + f)
      in if o_extra \<ge> w + f then quotient (o_extra - f) w else Some 0)"

definition assembly_predict_max_slots_reserved_without_last ::
  "64 word \<Rightarrow> 64 word \<Rightarrow> 64 word \<Rightarrow> 64 word list \<Rightarrow> 64 word option" where
  "assembly_predict_max_slots_reserved_without_last n f w spof_chunks =
     (if f > n \<or> w > n then Some 0
      else do {
        let spof_chunks = spof_chunks_sort spof_chunks;
        r_max \<leftarrow> E (n - f) n (w + f) spof_chunks;
        s_max \<leftarrow> s_max_of n f w spof_chunks;
        c_max \<leftarrow> quotient_ceil64 s_max (ucast r_max);
        r_full \<leftarrow> r_full_of n f w c_max spof_chunks;
        s_extra \<leftarrow> s_extra_of n f w c_max r_full spof_chunks;
        Some (r_full * (c_max - 1) + s_extra)
      })"

section \<open>The computation on natural numbers\<close>

fun eff :: "nat \<Rightarrow> nat \<Rightarrow> nat list \<Rightarrow> nat" where
  "eff m i cs = (if i \<le> m then cs ! i else min (cs ! i) (sum_list (map (\<lambda>j. eff m j cs) [0..<i]) div (i - m)))"

declare eff.simps [simp del]

text \<open>The sum of the effective numbers of the first ranks; \<open>m\<close> is the number of domains minus the
  width of a slot.\<close>

definition effs :: "nat \<Rightarrow> nat \<Rightarrow> nat list \<Rightarrow> nat" where
  "effs m i cs = (\<Sum>j < i. eff m j cs)"

lemma effs_sum_list: "sum_list (map (\<lambda>j. eff m j cs) [0..<i]) = effs m i cs"
  by (simp add: effs_def interv_sum_list_conv_sum_set_nat atLeast0LessThan)

lemma effs_Suc [simp]: "effs m (Suc i) cs = effs m i cs + eff m i cs"
  by (simp add: effs_def)

lemma eff_low: "i \<le> m \<Longrightarrow> eff m i cs = cs ! i"
  by (simp add: eff.simps)

lemma eff_high: "m < i \<Longrightarrow> eff m i cs = min (cs ! i) (effs m i cs div (i - m))"
  by (subst eff.simps) (simp add: effs_sum_list)

lemma eff_le: "eff m i cs \<le> cs ! i"
  by (cases "i \<le> m") (simp_all add: eff_low eff_high)

text \<open>That \<open>S\<close> slots of width \<open>k\<close> can be made of the first \<open>i\<close> domains: each domain gives at most
  one chunk to a slot.\<close>

definition fits :: "nat \<Rightarrow> nat \<Rightarrow> nat list \<Rightarrow> nat \<Rightarrow> bool" where
  "fits k i cs S \<longleftrightarrow> k * S \<le> (\<Sum>j < i. min (cs ! j) S)"

lemma capped_sum:
  assumes "sorted cs" "i < length cs" "cs ! i < S"
  shows "(\<Sum>j < Suc i. min (cs ! j) S) = (\<Sum>j < Suc i. cs ! j)"
proof (rule sum.cong)
  fix j assume "j \<in> {..<Suc i}"
  then have "cs ! j \<le> cs ! i" using assms by (simp add: sorted_nth_mono)
  with assms(3) show "min (cs ! j) S = cs ! j" by simp
qed simp

lemma fits_step:
  assumes "fits (Suc k) (Suc i) cs S"
  shows "fits k i cs S"
  using assms unfolding fits_def by simp

lemma fits_first:
  assumes "sorted cs" "m < length cs"
  shows "fits 1 (Suc m) cs S \<longleftrightarrow> S \<le> effs m (Suc m) cs"
proof -
  have e: "effs m (Suc m) cs = (\<Sum>j < Suc m. cs ! j)" by (simp add: effs_def eff_low)
  show ?thesis
  proof (cases "cs ! m < S")
    case True
    then show ?thesis using capped_sum [OF assms True] e by (simp add: fits_def)
  next
    case False
    then have "S \<le> (\<Sum>j < Suc m. min (cs ! j) S)" "S \<le> (\<Sum>j < Suc m. cs ! j)" by simp_all
    then show ?thesis using e by (simp add: fits_def)
  qed
qed

lemma fits_next:
  assumes cs: "sorted cs" "i < length cs" and k: "0 < k" "i = m + k"
    and IH: "fits k i cs S \<longleftrightarrow> S \<le> effs m i cs div k"
    and small: "S \<le> effs m i cs div k \<Longrightarrow> \<forall>j < i. min (cs ! j) S \<le> eff m j cs"
  shows "fits (Suc k) (Suc i) cs S \<longleftrightarrow> S \<le> effs m (Suc i) cs div Suc k"
proof -
  let ?P = "effs m i cs" and ?T = "effs m i cs div k"
  have e: "eff m i cs = min (cs ! i) ?T" using eff_high [of m i cs] k by simp
  have goal: "S \<le> effs m (Suc i) cs div Suc k \<longleftrightarrow> Suc k * S \<le> ?P + min (cs ! i) ?T"
    by (simp add: less_eq_div_iff_mult_less_eq e mult.commute)
  show ?thesis
  proof
    assume f: "fits (Suc k) (Suc i) cs S"
    have T: "S \<le> ?T" using fits_step [OF f] IH by simp
    have "(\<Sum>j < i. min (cs ! j) S) \<le> ?P"
      unfolding effs_def by (rule sum_mono) (use small [OF T] in simp)
    moreover have "min (cs ! i) S \<le> min (cs ! i) ?T" using T by simp
    ultimately show "S \<le> effs m (Suc i) cs div Suc k"
      using f unfolding goal fits_def by simp
  next
    assume "S \<le> effs m (Suc i) cs div Suc k"
    then have S: "Suc k * S \<le> ?P + min (cs ! i) ?T" by (simp only: goal)
    show "fits (Suc k) (Suc i) cs S"
    proof (cases "cs ! i < S")
      case True
      have "?P \<le> (\<Sum>j < i. cs ! j)" unfolding effs_def by (rule sum_mono) (rule eff_le)
      with S capped_sum [OF cs True] show ?thesis unfolding fits_def by simp
    next
      case False
      have "S \<le> ?T"
      proof (rule ccontr)
        assume "\<not> S \<le> ?T"
        then have "k * Suc ?T + Suc ?T \<le> k * S + S" by (intro add_mono mult_le_mono) simp_all
        moreover have "?P < k * Suc ?T" using k(1) by (metis dividend_less_times_div mult_Suc_right)
        ultimately show False using S by simp
      qed
      with IH have "k * S \<le> (\<Sum>j < i. min (cs ! j) S)" by (simp add: fits_def)
      with False show ?thesis unfolding fits_def by simp
    qed
  qed
qed

lemma fits_iff:
  assumes cs: "sorted cs"
  shows "m + Suc k \<le> length cs \<Longrightarrow>
    (fits (Suc k) (m + Suc k) cs S \<longleftrightarrow> S \<le> effs m (m + Suc k) cs div Suc k) \<and>
    (S \<le> effs m (m + Suc k) cs div Suc k \<longrightarrow> (\<forall>j < m + Suc k. min (cs ! j) S \<le> eff m j cs))"
proof (induction k)
  case 0
  then show ?case using fits_first [OF cs, of m S] by (simp add: eff_low less_Suc_eq_le)
next
  case (Suc k)
  let ?i = "m + Suc k"
  have IH: "fits (Suc k) ?i cs S \<longleftrightarrow> S \<le> effs m ?i cs div Suc k"
    "S \<le> effs m ?i cs div Suc k \<Longrightarrow> \<forall>j < ?i. min (cs ! j) S \<le> eff m j cs"
    using Suc by simp_all
  have next_iff: "fits (Suc (Suc k)) (Suc ?i) cs S \<longleftrightarrow> S \<le> effs m (Suc ?i) cs div Suc (Suc k)"
    by (rule fits_next [OF cs _ _ _ IH]) (use Suc.prems in simp_all)
  have "\<forall>j < Suc ?i. min (cs ! j) S \<le> eff m j cs" if "S \<le> effs m (Suc ?i) cs div Suc (Suc k)"
  proof -
    have T: "S \<le> effs m ?i cs div Suc k" using that next_iff fits_step IH(1) by blast
    have "eff m ?i cs = min (cs ! ?i) (effs m ?i cs div Suc k)" using eff_high [of m ?i cs] by simp
    with IH(2) [OF T] T show ?thesis by (auto simp: less_Suc_eq)
  qed
  with next_iff show ?case by simp
qed

section \<open>The computation on words\<close>

lemma effs_le: "effs m i cs \<le> (\<Sum>j < i. cs ! j)"
  unfolding effs_def by (rule sum_mono) (rule eff_le)

lemma part_sum_le: "i \<le> length cs \<Longrightarrow> (\<Sum>j < i. cs ! j) \<le> sum_list (cs :: nat list)"
  by (simp add: sum_list_sum_nth atLeast0LessThan sum_mono2)

lemma effective_eq:
  assumes "1 \<le> w" "w \<le> length cs" "length cs < 2 ^ 64" "sum_list (map unat cs) < 2 ^ 64"
  shows "i < length cs \<Longrightarrow> effective (of_nat i) (of_nat (length cs)) (of_nat w) cs =
    of_nat (eff (length cs - w) i (map unat cs))"
proof (induction i rule: less_induct)
  case (less i)
  let ?n = "length cs" and ?c = "map unat cs"
  have small: "i < 2 ^ 64" "w < 2 ^ 64" using less.prems assms by auto
  have u: "unat (of_nat i :: 64 word) = i" "unat (of_nat ?n :: 64 word) = ?n" "unat (of_nat w :: 64 word) = w"
    using small assms by (simp_all add: unat_of_nat)
  have nw: "of_nat ?n - of_nat w = (of_nat (?n - w) :: 64 word)" using assms by (simp add: of_nat_diff)
  have le: "(of_nat i :: 64 word) \<le> of_nat ?n - of_nat w \<longleftrightarrow> i \<le> ?n - w"
  proof -
    have "(?n - w) mod 2 ^ LENGTH(64) = ?n - w" using assms by simp
    then have "unat (of_nat ?n - of_nat w :: 64 word) = ?n - w" by (simp only: nw unat_of_nat)
    with u(1) show ?thesis by (simp only: word_le_nat_alt)
  qed
  show ?case
  proof (cases "i \<le> ?n - w")
    case True
    then show ?thesis
      using le less.prems u(1) by (subst effective.simps) (simp add: eff_low)
  next
    case False
    have "map (\<lambda>j. effective (of_nat j) (of_nat ?n) (of_nat w) cs) [0..<i] = map (\<lambda>j. of_nat (eff (?n - w) j ?c)) [0..<i]"
      using less.IH less.prems by simp
    then have num: "sum_list (map (\<lambda>j. effective (of_nat j) (of_nat ?n) (of_nat w) cs) [0..<i]) = of_nat (effs (?n - w) i ?c)"
      by (simp add: interv_sum_list_conv_sum_set_nat atLeast0LessThan effs_def)
    have P: "effs (?n - w) i ?c < 2 ^ 64"
      using effs_le [of "?n - w" i ?c] part_sum_le [of i ?c] less.prems assms(4) by simp
    have "of_nat i - of_nat ?n + of_nat w = (of_nat i - of_nat (?n - w) :: 64 word)"
      by (simp add: nw [symmetric])
    also have "\<dots> = of_nat (i - (?n - w))" using False by (simp add: of_nat_diff)
    finally have k: "of_nat i - of_nat ?n + of_nat w = (of_nat (i - (?n - w)) :: 64 word)" .
    have body: "effective (of_nat i) (of_nat ?n) (of_nat w) cs =
        min (cs ! i) (of_nat (effs (?n - w) i ?c) div of_nat (i - (?n - w)))"
      using False le by (subst effective.simps) (simp only: Let_def u(1) num k if_False)
    have "of_nat (effs (?n - w) i ?c) div of_nat (i - (?n - w)) = (of_nat (effs (?n - w) i ?c div (i - (?n - w))) :: 64 word)"
      using P small by (simp add: word_arith_nat_div unat_of_nat)
    moreover have "eff (?n - w) i ?c = min (unat (cs ! i)) (effs (?n - w) i ?c div (i - (?n - w)))"
      using eff_high [of "?n - w" i ?c] False less.prems by simp
    moreover have "min (cs ! i) (of_nat q) = (of_nat (min (unat (cs ! i)) q) :: 64 word)" if "q < 2 ^ 64" for q
      using that by (simp add: min_def word_le_nat_alt unat_of_nat)
    moreover have "effs (?n - w) i ?c div (i - (?n - w)) < 2 ^ 64"
      using P div_le_dividend le_less_trans by blast
    ultimately show ?thesis unfolding body by metis
  qed
qed

section \<open>Optimality\<close>

text \<open>The counting condition for \<open>S\<close> slots of \<open>w\<close> chunks, each from a different domain.\<close>

definition slots_fit :: "nat \<Rightarrow> nat list \<Rightarrow> nat \<Rightarrow> bool" where
  "slots_fit w cs S \<longleftrightarrow> w * S \<le> (\<Sum>c \<leftarrow> cs. min c S)"

lemma slots_fit_mset: "mset cs = mset ds \<Longrightarrow> slots_fit w cs S \<longleftrightarrow> slots_fit w ds S"
  unfolding slots_fit_def by (metis mset_map sum_mset_sum_list)

lemma fits_slots_fit: "fits w (length cs) cs S \<longleftrightarrow> slots_fit w cs S"
  by (simp add: fits_def slots_fit_def sum_list_sum_nth atLeast0LessThan)

lemma sorted_spof_chunks_sort: "sorted (map unat (spof_chunks_sort cs))"
proof -
  have "sorted_wrt (\<lambda>a b. chunk_count_gt a b \<le> 0) (spof_chunks_sort cs)"
    unfolding spof_chunks_sort_def by (rule sorted_qsort) (auto simp: chunk_count_gt_def split: if_splits)
  then have "sorted_wrt (\<lambda>a b. unat a \<le> unat b) (spof_chunks_sort cs)"
    by (rule sorted_wrt_mono_rel [rotated])
       (auto simp: chunk_count_gt_def word_less_nat_alt split: if_splits)
  then show ?thesis by (simp add: sorted_wrt_map)
qed

lemma prediction_enough_domains:
  assumes w: "1 \<le> w" "w \<le> length cs" and bounds: "length cs < 2 ^ 64" "sum_list (map unat cs) < 2 ^ 64"
  shows "\<exists>p. assembly_predict_max_slots_without_sparing (of_nat (length cs)) (of_nat w) cs = Some p \<and>
    (\<forall>S. slots_fit w (map unat cs) S \<longleftrightarrow> S \<le> unat p)"
proof -
  let ?n = "length cs" and ?ds = "spof_chunks_sort cs"
  let ?c = "map unat ?ds"
  have perm: "mset ?ds = mset cs" by (simp add: spof_chunks_sort_def)
  have len: "length ?ds = ?n" by (simp add: spof_chunks_sort_def)
  have total: "sum_list ?c = sum_list (map unat cs)" using perm by (metis mset_map sum_mset_sum_list)
  have u: "unat (of_nat ?n :: 64 word) = ?n" "unat (of_nat w :: 64 word) = w" "(of_nat w :: 64 word) \<noteq> 0"
    using w bounds by (simp_all add: unat_of_nat word_unat_eq_iff)
  have "map (\<lambda>i. effective (of_nat i) (of_nat ?n) (of_nat w) ?ds) [0..<?n] = map (\<lambda>i. of_nat (eff (?n - w) i ?c)) [0..<?n]"
    using effective_eq [of w ?ds] w bounds total len by simp
  then have num: "sum_E (of_nat ?n) (of_nat ?n) (of_nat w) ?ds = of_nat (effs (?n - w) ?n ?c)"
    by (simp add: sum_E_def u(1) interv_sum_list_conv_sum_set_nat atLeast0LessThan effs_def del: of_nat_sum add: of_nat_sum [symmetric])
  have P: "effs (?n - w) ?n ?c < 2 ^ 64"
    using effs_le [of "?n - w" ?n ?c] part_sum_le [of ?n ?c] len total bounds(2) by simp
  let ?p = "of_nat (effs (?n - w) ?n ?c) div of_nat w :: 64 word"
  have "assembly_predict_max_slots_without_sparing (of_nat ?n) (of_nat w) cs = Some ?p"
    using u w by (simp add: assembly_predict_max_slots_without_sparing_def word_less_nat_alt Let_def num quotient_def)
  moreover have "unat ?p = effs (?n - w) ?n ?c div w"
    using P u(2) by (simp add: unat_div_distrib unat_of_nat)
  moreover have "slots_fit w (map unat cs) S \<longleftrightarrow> S \<le> effs (?n - w) ?n ?c div w" for S
  proof -
    have "slots_fit w (map unat cs) S \<longleftrightarrow> slots_fit w ?c S" by (rule slots_fit_mset) (use perm in simp)
    also have "\<dots> \<longleftrightarrow> fits w ?n ?c S" using fits_slots_fit [of w ?c S] len by simp
    also have "\<dots> \<longleftrightarrow> S \<le> effs (?n - w) ?n ?c div w"
      using fits_iff [OF sorted_spof_chunks_sort, of "?n - w" "w - 1" cs S] w len by simp
    finally show ?thesis .
  qed
  ultimately show ?thesis by auto
qed

lemma prediction_too_few:
  assumes "length cs < w"
  shows "slots_fit w cs S \<longleftrightarrow> S = 0"
proof
  assume "slots_fit w cs S"
  moreover have "(\<Sum>c \<leftarrow> cs. min c S) \<le> length cs * S"
    by (induction cs) auto
  ultimately have "w * S \<le> length cs * S" unfolding slots_fit_def by (rule order_trans)
  with assms show "S = 0" by simp
qed (simp add: slots_fit_def)

lemma prediction_exact:
  assumes "1 \<le> w" "w < 2 ^ 64" "length cs < 2 ^ 64" "sum_list (map unat cs) < 2 ^ 64"
  shows "\<exists>p. assembly_predict_max_slots_without_sparing (of_nat (length cs)) (of_nat w) cs = Some p \<and>
    (\<forall>S. slots_fit w (map unat cs) S \<longleftrightarrow> S \<le> unat p)"
proof (cases "w \<le> length cs")
  case True
  then show ?thesis using prediction_enough_domains assms by blast
next
  case False
  then have "(of_nat (length cs) :: 64 word) < of_nat w"
    using assms by (simp add: word_less_nat_alt unat_of_nat)
  then show ?thesis
    using prediction_too_few [of "map unat cs" w] False
    by (simp add: assembly_predict_max_slots_without_sparing_def)
qed

text \<open>C16: the predicted number of slots is exactly the greatest number of slots the failure domains
  can give. For any width and any numbers of chunks whose sum fits in 64 bits the prediction
  neither aborts nor overflows, and a number of slots passes the counting condition (each
  domain gives at most one chunk to a slot) if and only if it is at most the prediction.\<close>

theorem prediction_optimal:
  assumes "1 \<le> w" "w < 2 ^ 64" "length cs < 2 ^ 64" "sum_list (map unat cs) < 2 ^ 64"
  shows "\<exists>p. assembly_predict_max_slots_without_sparing (of_nat (length cs)) (of_nat w) cs = Some p \<and>
    (\<forall>S. w * S \<le> (\<Sum>c \<leftarrow> cs. min (unat c) S) \<longleftrightarrow> S \<le> unat p)"
  using prediction_exact [OF assms] by (simp add: slots_fit_def comp_def)

theorem prediction_optimal_witness:
  "\<exists>p. assembly_predict_max_slots_without_sparing 3 2 [10, 1, 2] = Some p \<and>
    (\<forall>S. 2 * S \<le> min 10 S + (min 1 S + min 2 S) \<longleftrightarrow> S \<le> unat p)"
  using prediction_optimal [of 2 "[10, 1, 2]"] by simp

end
