(* ===== verification/Vrt_Chunk.thy ===== *)
theory Vrt_Chunk
  imports Exa_Uuid Vrt_Extent
begin

text \<open>
  The chunks of the real devices (\<open>vrt/virtualiseur/src/chunk.c\<close>, with the part of
  \<open>vrt_realdev_t\<close> it uses). A device is cut into chunks of one size after its superblock area;
  the indices of the free ones are a list of extents, and their number is kept beside it.

  A device is a record; \<open>rdevs\<close> is the list of all the devices, and a pointer to a device is an
  index in it. A chunk is a device and the offset of the chunk on it, in sectors. The
  operations that change a device return the new list of devices; \<open>None\<close> is a failed assertion.
\<close>

type_synonym spof_id = "32 word"

record vrt_realdev =
  rdev_uuid :: exa_uuid
  rdev_chunk_size :: "32 word"
  total_chunks_count :: "32 word"
  free_chunks_count :: "32 word"
  free_chunks :: "extent list"
  rdev_node_id :: exa_nodeid
  rdev_spof_id :: spof_id
  real_size :: "64 word"

type_synonym rdevs = "vrt_realdev list"

record chunk =
  chunk_rdev :: nat
  chunk_offset :: "64 word"

definition VRT_SB_AREA_SIZE :: "64 word" where
  "VRT_SB_AREA_SIZE = 65536"

definition chunk_alloc :: "nat \<Rightarrow> 64 word \<Rightarrow> chunk" where
  "chunk_alloc rdev offset = \<lparr> chunk_rdev = rdev, chunk_offset = offset \<rparr>"

definition chunk_equals :: "rdevs \<Rightarrow> chunk \<Rightarrow> chunk \<Rightarrow> bool" where
  "chunk_equals rdevs a b =
     (uuid_is_equal (rdev_uuid (rdevs ! chunk_rdev a)) (rdev_uuid (rdevs ! chunk_rdev b)) \<and>
      chunk_offset a = chunk_offset b)"

definition chunk_get_rdev :: "chunk \<Rightarrow> nat" where
  "chunk_get_rdev chunk = chunk_rdev chunk"

definition chunk_get_offset :: "chunk \<Rightarrow> 64 word" where
  "chunk_get_offset chunk = chunk_offset chunk"

definition index_to_offset :: "32 word \<Rightarrow> 32 word \<Rightarrow> 64 word option" where
  "index_to_offset index chunk_size = do {
     exa_assert (chunk_size \<noteq> 0);
     Some (ucast index * ucast chunk_size + VRT_SB_AREA_SIZE) }"

definition offset_to_index :: "64 word \<Rightarrow> 32 word \<Rightarrow> 32 word option" where
  "offset_to_index offset chunk_size = do {
     exa_assert (chunk_size \<noteq> 0);
     Some (ucast ((offset - VRT_SB_AREA_SIZE) div ucast chunk_size)) }"

text \<open>The effect of taking and of putting back a chunk on its device.\<close>

definition rdev_take :: "32 word \<Rightarrow> vrt_realdev \<Rightarrow> vrt_realdev" where
  "rdev_take index rdev = rdev\<lparr>free_chunks := extent_list_remove_value (free_chunks rdev) (ucast index),
     free_chunks_count := free_chunks_count rdev - 1\<rparr>"

definition chunk_get_from_rdev_at_offset :: "nat \<Rightarrow> 64 word \<Rightarrow> rdevs \<Rightarrow> (chunk \<times> rdevs) option" where
  "chunk_get_from_rdev_at_offset rdev offset rdevs = do {
     index \<leftarrow> offset_to_index offset (rdev_chunk_size (rdevs ! rdev));
     exa_assert (index \<le> total_chunks_count (rdevs ! rdev));
     Some (chunk_alloc rdev offset, rdevs[rdev := rdev_take index (rdevs ! rdev)]) }"

text \<open>The result is \<open>NULL\<close> when the device has no free chunk. The first index is passed on as a
  32-bit number.\<close>

definition chunk_get_first_free_from_rdev :: "nat \<Rightarrow> rdevs \<Rightarrow> (chunk option \<times> rdevs) option" where
  "chunk_get_first_free_from_rdev rdev rdevs =
     (case free_chunks (rdevs ! rdev) of
        [] \<Rightarrow> Some (None, rdevs)
      | e # _ \<Rightarrow> do {
          offset \<leftarrow> index_to_offset (ucast (ext_start e)) (rdev_chunk_size (rdevs ! rdev));
          (chunk, rdevs') \<leftarrow> chunk_get_from_rdev_at_offset rdev offset rdevs;
          Some (Some chunk, rdevs') })"

definition chunk_put_to_rdev :: "chunk \<Rightarrow> rdevs \<Rightarrow> rdevs option" where
  "chunk_put_to_rdev chunk rdevs = do {
     let rdev = chunk_get_rdev chunk;
     index \<leftarrow> offset_to_index (chunk_offset chunk) (rdev_chunk_size (rdevs ! rdev));
     free \<leftarrow> extent_list_add_value (free_chunks (rdevs ! rdev)) (ucast index);
     Some (rdevs[rdev := (rdevs ! rdev)\<lparr>free_chunks := free,
       free_chunks_count := free_chunks_count (rdevs ! rdev) + 1\<rparr>]) }"

section \<open>Indices and offsets\<close>

text \<open>The offset of the chunk with a given index.\<close>

definition offset_of :: "32 word \<Rightarrow> nat \<Rightarrow> 64 word" where
  "offset_of chunk_size i = of_nat (i * unat chunk_size + 65536)"

lemma unat_32_less: "unat (x :: 32 word) < 4294967296"
  using unsigned_less [of x] by simp

lemma unat_ucast_32 [simp]: "unat (ucast (x :: 32 word) :: 64 word) = unat x"
  using unat_32_less [of x] by (simp add: unsigned_ucast_eq take_bit_eq_mod)

lemma ucast_of_nat_32 [simp]: "i < 4294967296 \<Longrightarrow> ucast (of_nat i :: 32 word) = (of_nat i :: 64 word)"
  unfolding word_unat_eq_iff by (simp add: unat_of_nat)

lemma ucast_of_nat_64 [simp]: "i < 4294967296 \<Longrightarrow> ucast (of_nat i :: 64 word) = (of_nat i :: 32 word)"
  unfolding word_unat_eq_iff by (simp add: unsigned_ucast_eq take_bit_eq_mod unat_of_nat)

lemma unat_of_nat_64: "n < 2 ^ 64 \<Longrightarrow> unat (of_nat n :: 64 word) = n"
  by (simp only: unat_of_nat) simp

lemma ucast_32_of_nat: "(ucast (x :: 32 word) :: 64 word) = of_nat (unat x)"
  using unat_32_less [of x] by (simp add: word_unat_eq_iff)

lemma area_bound:
  assumes "i < 4294967296"
  shows "i * unat (cs :: 32 word) + 65536 < 2 ^ 64"
proof -
  have "i * unat cs \<le> 4294967295 * 4294967295"
    using assms unat_32_less [of cs] by (intro mult_le_mono) simp_all
  then show ?thesis by simp
qed

lemma index_to_offset_eq:
  assumes "cs \<noteq> 0" "i < 4294967296"
  shows "index_to_offset (of_nat i) cs = Some (offset_of cs i)"
  using assms by (simp add: index_to_offset_def offset_of_def VRT_SB_AREA_SIZE_def)

lemma offset_to_index_eq:
  assumes "cs \<noteq> 0" "i < 4294967296"
  shows "offset_to_index (offset_of cs i) cs = Some (of_nat i)"
proof -
  have cs: "0 < unat cs" using assms(1) by (simp add: unat_gt_0)
  have "offset_of cs i - VRT_SB_AREA_SIZE = of_nat (i * unat cs)"
    by (simp add: offset_of_def VRT_SB_AREA_SIZE_def)
  moreover have "unat (of_nat (i * unat cs) :: 64 word) = i * unat cs"
    using area_bound [OF assms(2), of cs] by (simp only: unat_of_nat) simp
  ultimately have "(offset_of cs i - VRT_SB_AREA_SIZE) div ucast cs = (of_nat i :: 64 word)"
    using cs by (simp only: word_arith_nat_div unat_ucast_32) simp
  with assms show ?thesis by (simp add: offset_to_index_def)
qed

lemma offset_of_inj:
  assumes "cs \<noteq> 0" "i < 4294967296" "j < 4294967296" "offset_of cs i = offset_of cs j"
  shows "i = j"
proof -
  have "(of_nat i :: 32 word) = of_nat j"
    using offset_to_index_eq [OF assms(1,2)] offset_to_index_eq [OF assms(1,3)] assms(4) by simp
  then have "unat (of_nat i :: 32 word) = unat (of_nat j :: 32 word)" by simp
  with assms(2,3) show ?thesis by (simp add: unat_of_nat)
qed

section \<open>The invariant of a device\<close>

text \<open>The free list is well formed, holds indices of chunks of the device only, and its number of
  values is the counter.\<close>

definition rdev_ok :: "vrt_realdev \<Rightarrow> bool" where
  "rdev_ok r \<longleftrightarrow> extents_wf (free_chunks r) \<and> (\<forall>v \<in> values_of (free_chunks r). unat v < unat (total_chunks_count r)) \<and>
     unat (free_chunks_count r) = card (values_of (free_chunks r)) \<and> rdev_chunk_size r \<noteq> 0"

definition free_idx :: "vrt_realdev \<Rightarrow> nat set" where
  "free_idx r = unat ` values_of (free_chunks r)"

text \<open>The chunk of a device with a given index.\<close>

definition chunk_at :: "rdevs \<Rightarrow> nat \<Rightarrow> nat \<Rightarrow> chunk" where
  "chunk_at rdevs rdev i = chunk_alloc rdev (offset_of (rdev_chunk_size (rdevs ! rdev)) i)"

lemma free_idx_less: "rdev_ok r \<Longrightarrow> i \<in> free_idx r \<Longrightarrow> i < unat (total_chunks_count r)"
  by (auto simp: rdev_ok_def free_idx_def)

lemma free_idx_finite [simp]: "finite (free_idx r)"
  by (simp add: free_idx_def)

lemma free_idx_small: "rdev_ok r \<Longrightarrow> i \<in> free_idx r \<Longrightarrow> i < 4294967296"
  using free_idx_less unat_32_less less_trans by blast

lemma free_idx_of_nat: "i < 4294967296 \<Longrightarrow> i \<in> free_idx r \<longleftrightarrow> of_nat i \<in> values_of (free_chunks r)"
  unfolding free_idx_def
proof
  assume "i < 4294967296" "of_nat i \<in> values_of (free_chunks r)"
  then show "i \<in> unat ` values_of (free_chunks r)" by (intro image_eqI [of _ _ "of_nat i"]) (simp_all add: unat_of_nat)
qed auto

lemma card_free_idx: "rdev_ok r \<Longrightarrow> card (free_idx r) = unat (free_chunks_count r)"
  unfolding free_idx_def rdev_ok_def by (subst card_image) (auto simp: inj_on_def intro: unsigned_word_eqI)

lemma no_free_iff: "rdev_ok r \<Longrightarrow> free_chunks_count r = 0 \<longleftrightarrow> free_idx r = {}"
  using card_free_idx [of r] by (metis card_0_eq free_idx_finite unat_eq_zero)

lemma of_nat_not_top: "i < 4294967296 \<Longrightarrow> (of_nat i :: 64 word) \<noteq> - 1"
proof
  assume "i < 4294967296" "(of_nat i :: 64 word) = - 1"
  then have "unat (of_nat i :: 64 word) = unat (- 1 :: 64 word)" by simp
  with \<open>i < 4294967296\<close> show False by (simp add: unat_of_nat unsigned_minus_1_eq_mask mask_eq_exp_minus_1)
qed

lemma image_remove_nat: "i < 4294967296 \<Longrightarrow> unat ` (A - {of_nat i :: 64 word}) = unat ` A - {i}"
  by (auto simp: unat_of_nat image_iff)

lemma rdev_take_ok:
  assumes "rdev_ok r" "i \<in> free_idx r"
  shows "rdev_ok (rdev_take (of_nat i) r) \<and> free_idx (rdev_take (of_nat i) r) = free_idx r - {i}"
proof -
  have i: "i < 4294967296" using assms by (rule free_idx_small)
  have wf: "extents_wf (free_chunks r)" using assms(1) by (simp add: rdev_ok_def)
  note rem = remove_value_spec [OF wf of_nat_not_top [OF i]]
  have vals: "values_of (free_chunks (rdev_take (of_nat i) r)) = values_of (free_chunks r) - {of_nat i}"
    using rem i by (simp add: rdev_take_def)
  have "of_nat i \<in> values_of (free_chunks r)" using assms(2) i by (simp add: free_idx_of_nat)
  then have "card (values_of (free_chunks r) - {of_nat i}) = unat (free_chunks_count r) - 1"
    and "unat (free_chunks_count r) \<noteq> 0" using assms(1) by (auto simp: rdev_ok_def card_eq_0_iff)
  then have "unat (free_chunks_count r - 1) = card (values_of (free_chunks r) - {of_nat i})"
    by (metis unat_minus_one unat_eq_zero)
  with vals rem i assms(1) have "rdev_ok (rdev_take (of_nat i) r)"
    by (auto simp: rdev_ok_def rdev_take_def)
  moreover have "free_idx (rdev_take (of_nat i) r) = free_idx r - {i}"
    using vals image_remove_nat [OF i] by (simp add: free_idx_def)
  ultimately show ?thesis by simp
qed

text \<open>What the operations keep of a device.\<close>

definition rdev_same :: "vrt_realdev \<Rightarrow> vrt_realdev \<Rightarrow> bool" where
  "rdev_same r r' \<longleftrightarrow> r'\<lparr>free_chunks := free_chunks r, free_chunks_count := free_chunks_count r\<rparr> = r"

lemma rdev_sameD:
  assumes "rdev_same r r'"
  shows "rdev_chunk_size r' = rdev_chunk_size r" "total_chunks_count r' = total_chunks_count r"
    "rdev_uuid r' = rdev_uuid r" "rdev_node_id r' = rdev_node_id r" "rdev_spof_id r' = rdev_spof_id r"
    "real_size r' = real_size r"
proof -
  have eq: "r'\<lparr>free_chunks := free_chunks r, free_chunks_count := free_chunks_count r\<rparr> = r"
    using assms by (simp add: rdev_same_def)
  show "rdev_chunk_size r' = rdev_chunk_size r" "total_chunks_count r' = total_chunks_count r"
    "rdev_uuid r' = rdev_uuid r" "rdev_node_id r' = rdev_node_id r" "rdev_spof_id r' = rdev_spof_id r"
    "real_size r' = real_size r"
    by (subst eq [symmetric], simp)+
qed

lemma rdev_same_refl [simp]: "rdev_same r r"
  by (simp add: rdev_same_def)

lemma rdev_same_trans: "rdev_same a b \<Longrightarrow> rdev_same b c \<Longrightarrow> rdev_same a c"
  by (cases a; cases b; cases c) (simp add: rdev_same_def)

lemma rdev_same_sym: "rdev_same a b \<Longrightarrow> rdev_same b a"
  by (cases a; cases b) (simp add: rdev_same_def)

lemma rdev_same_take [simp]: "rdev_same r (rdev_take i r)"
  by (simp add: rdev_same_def rdev_take_def)

section \<open>Taking and putting back\<close>

lemma get_at_offset_ok:
  assumes "rdev_ok (rdevs ! rdev)" "i \<in> free_idx (rdevs ! rdev)"
  shows "chunk_get_from_rdev_at_offset rdev (offset_of (rdev_chunk_size (rdevs ! rdev)) i) rdevs =
    Some (chunk_at rdevs rdev i, rdevs[rdev := rdev_take (of_nat i) (rdevs ! rdev)])"
proof -
  have i: "i < 4294967296" "i < unat (total_chunks_count (rdevs ! rdev))"
    using free_idx_small free_idx_less assms by blast+
  then have "(of_nat i :: 32 word) \<le> total_chunks_count (rdevs ! rdev)"
    by (simp add: word_le_nat_alt unat_of_nat)
  moreover have "rdev_chunk_size (rdevs ! rdev) \<noteq> 0" using assms(1) by (simp add: rdev_ok_def)
  ultimately show ?thesis
    using offset_to_index_eq [OF _ i(1)] by (simp add: chunk_get_from_rdev_at_offset_def chunk_at_def)
qed

lemma first_free:
  assumes "rdev_ok r" "free_chunks r = e # es"
  shows "Min (free_idx r) = unat (ext_start e)" "unat (ext_start e) \<in> free_idx r"
proof -
  have wf: "extents_wf (e # es)" using assms by (simp add: rdev_ok_def)
  then have "ext_start e \<in> values_of (e # es)" by (simp add: ext_values_def wf_Cons)
  with assms(2) show mem: "unat (ext_start e) \<in> free_idx r" by (simp add: free_idx_def)
  have "unat (ext_start e) \<le> j" if "j \<in> free_idx r" for j
    using that assms(2) values_first [OF wf] by (auto simp: free_idx_def word_le_nat_alt)
  with mem show "Min (free_idx r) = unat (ext_start e)" by (intro Min_eqI) simp_all
qed

lemma get_first_free_ok:
  assumes "rdev_ok (rdevs ! rdev)" "free_idx (rdevs ! rdev) \<noteq> {}"
  shows "chunk_get_first_free_from_rdev rdev rdevs =
    Some (Some (chunk_at rdevs rdev (Min (free_idx (rdevs ! rdev)))),
          rdevs[rdev := rdev_take (of_nat (Min (free_idx (rdevs ! rdev)))) (rdevs ! rdev)])"
proof -
  let ?r = "rdevs ! rdev"
  obtain e es where e: "free_chunks ?r = e # es"
    using assms(2) by (cases "free_chunks ?r") (auto simp: free_idx_def)
  have m: "Min (free_idx ?r) = unat (ext_start e)" "unat (ext_start e) \<in> free_idx ?r"
    using first_free [OF assms(1) e] by simp_all
  then have i: "unat (ext_start e) < 4294967296" using free_idx_small [OF assms(1)] by blast
  have cs: "rdev_chunk_size ?r \<noteq> 0" using assms(1) by (simp add: rdev_ok_def)
  have "ucast (ext_start e) = (of_nat (unat (ext_start e)) :: 32 word)"
    using ucast_of_nat_64 [OF i] by simp
  then have "index_to_offset (ucast (ext_start e)) (rdev_chunk_size ?r) = Some (offset_of (rdev_chunk_size ?r) (unat (ext_start e)))"
    using index_to_offset_eq [OF cs i] by (simp only:)
  with get_at_offset_ok [OF assms(1) m(2)] e show ?thesis
    by (simp add: chunk_get_first_free_from_rdev_def m(1))
qed

lemma chunk_put_ok:
  assumes ok: "rdev_ok (rdevs ! rdev)" and i: "i < unat (total_chunks_count (rdevs ! rdev))" "i \<notin> free_idx (rdevs ! rdev)"
  shows "\<exists>r'. chunk_put_to_rdev (chunk_at rdevs rdev i) rdevs = Some (rdevs[rdev := r']) \<and> rdev_ok r' \<and>
    free_idx r' = insert i (free_idx (rdevs ! rdev)) \<and> rdev_same (rdevs ! rdev) r'"
proof -
  let ?r = "rdevs ! rdev"
  have small: "i < 4294967296" using i(1) unat_32_less less_trans by blast
  have wf: "extents_wf (free_chunks ?r)" "rdev_chunk_size ?r \<noteq> 0" using ok by (simp_all add: rdev_ok_def)
  obtain ys where ys: "extent_list_add_value (free_chunks ?r) (of_nat i) = Some ys" "extents_wf ys"
    "values_of ys = insert (of_nat i) (values_of (free_chunks ?r))"
    using add_value_spec [OF wf(1) of_nat_not_top [OF small]] by blast
  let ?r' = "?r\<lparr>free_chunks := ys, free_chunks_count := free_chunks_count ?r + 1\<rparr>"
  have idx: "free_idx ?r' = insert i (free_idx ?r)" using ys(3) small by (simp add: free_idx_def unat_of_nat)
  have "of_nat i \<notin> values_of (free_chunks ?r)" using i(2) free_idx_of_nat [OF small] by simp
  then have card: "card (values_of ys) = unat (free_chunks_count ?r) + 1"
    using ys(3) ok by (simp add: rdev_ok_def)
  have "insert i (free_idx ?r) \<subseteq> {..<unat (total_chunks_count ?r)}" using i free_idx_less [OF ok] by auto
  from card_mono [OF _ this] have "unat (free_chunks_count ?r) + 1 \<le> unat (total_chunks_count ?r)"
    using i(2) card_free_idx [OF ok] by simp
  then have "unat (free_chunks_count ?r + 1) = unat (free_chunks_count ?r) + 1"
    using unat_32_less [of "total_chunks_count ?r"] by (simp add: unat_word_ariths)
  with card ys ok small i(1) have "rdev_ok ?r'" by (auto simp: rdev_ok_def unat_of_nat)
  moreover have "chunk_put_to_rdev (chunk_at rdevs rdev i) rdevs = Some (rdevs[rdev := ?r'])"
    using offset_to_index_eq [OF wf(2) small] ys(1) small
    by (simp add: chunk_put_to_rdev_def chunk_get_rdev_def chunk_at_def chunk_alloc_def)
  moreover have "rdev_same ?r ?r'" by (simp add: rdev_same_def)
  ultimately show ?thesis using idx by blast
qed

text \<open>A chunk that was just taken and is put back restores the device, free list included.\<close>

lemma chunk_put_back:
  assumes ok: "rdev_ok (rdevs ! rdev)" and i: "i \<in> free_idx (rdevs ! rdev)" and rdev: "rdev < length rdevs"
  shows "chunk_put_to_rdev (chunk_at rdevs rdev i) (rdevs[rdev := rdev_take (of_nat i) (rdevs ! rdev)]) = Some rdevs"
proof -
  let ?r = "rdevs ! rdev"
  have small: "i < 4294967296" using ok i by (rule free_idx_small)
  have "of_nat i \<in> values_of (free_chunks ?r)" using i free_idx_of_nat [OF small] by simp
  then have "extent_list_add_value (extent_list_remove_value (free_chunks ?r) (of_nat i)) (of_nat i) = Some (free_chunks ?r)"
    using extents.put_back ok of_nat_not_top [OF small] by (simp add: rdev_ok_def)
  moreover have "rdev_chunk_size ?r \<noteq> 0" using ok by (simp add: rdev_ok_def)
  moreover have "?r\<lparr>free_chunks := free_chunks ?r, free_chunks_count := free_chunks_count ?r\<rparr> = ?r" by simp
  ultimately show ?thesis
    using offset_to_index_eq [OF _ small] small rdev
    by (simp add: chunk_put_to_rdev_def chunk_get_rdev_def chunk_at_def chunk_alloc_def rdev_take_def)
qed

section \<open>Properties\<close>

text \<open>C35: taking a chunk from a device gives its free chunk with the smallest index, takes exactly
  that one out of the free list and keeps the counter equal to the number of free chunks; a
  device without a free chunk gives none and is left alone; and putting the chunk back
  restores the device as it was, extent by extent.\<close>

theorem chunk_take_and_put_back:
  assumes "rdev < length rdevs" "rdev_ok (rdevs ! rdev)"
  shows "case chunk_get_first_free_from_rdev rdev rdevs of
      None \<Rightarrow> False
    | Some (None, rdevs') \<Rightarrow> free_idx (rdevs ! rdev) = {} \<and> rdevs' = rdevs
    | Some (Some chunk, rdevs') \<Rightarrow>
        (\<exists>i. i = Min (free_idx (rdevs ! rdev)) \<and> i \<in> free_idx (rdevs ! rdev) \<and> chunk = chunk_at rdevs rdev i \<and>
          free_idx (rdevs' ! rdev) = free_idx (rdevs ! rdev) - {i}) \<and>
        rdev_ok (rdevs' ! rdev) \<and> unat (free_chunks_count (rdevs' ! rdev)) = card (free_idx (rdevs' ! rdev)) \<and>
        chunk_put_to_rdev chunk rdevs' = Some rdevs"
proof (cases "free_idx (rdevs ! rdev) = {}")
  case True
  then have "free_chunks (rdevs ! rdev) = []"
    using first_free(2) [OF assms(2)] by (cases "free_chunks (rdevs ! rdev)") auto
  with True show ?thesis by (simp add: chunk_get_first_free_from_rdev_def)
next
  case False
  then have m: "Min (free_idx (rdevs ! rdev)) \<in> free_idx (rdevs ! rdev)" by (simp add: Min_in)
  show ?thesis
    using get_first_free_ok [OF assms(2) False] rdev_take_ok [OF assms(2) m] chunk_put_back [OF assms(2) m assms(1)]
      m assms(1) card_free_idx [of "rdev_take (of_nat (Min (free_idx (rdevs ! rdev)))) (rdevs ! rdev)"]
    by simp
qed

text \<open>A device of four chunks, two of them free.\<close>

definition example_rdev :: vrt_realdev where
  "example_rdev = \<lparr> rdev_uuid = uuid_zero, rdev_chunk_size = 8, total_chunks_count = 4, free_chunks_count = 2,
     free_chunks = [extent_new 1 1, extent_new 3 3], rdev_node_id = 0, rdev_spof_id = 1, real_size = 70000 \<rparr>"

lemma example_rdev_ok: "rdev_ok example_rdev" "card (free_idx example_rdev) = 2"
proof -
  have "values_of [extent_new 1 1, extent_new 3 3] = {1, 3}" by (auto simp: values_new)
  moreover have "extents_wf [extent_new 1 1, extent_new 3 3]" by (simp add: extents_wf_def ext_before_def)
  ultimately show ok: "rdev_ok example_rdev" by (simp add: rdev_ok_def example_rdev_def)
  show "card (free_idx example_rdev) = 2" using card_free_idx [OF ok] by (simp add: example_rdev_def)
qed

theorem chunk_take_and_put_back_witness:
  "case chunk_get_first_free_from_rdev 0 [example_rdev] of
     Some (Some chunk, rdevs') \<Rightarrow> chunk_put_to_rdev chunk rdevs' = Some [example_rdev]
   | _ \<Rightarrow> False"
proof -
  have "0 < length [example_rdev]" "rdev_ok ([example_rdev] ! 0)" using example_rdev_ok by simp_all
  moreover have "free_idx example_rdev \<noteq> {}" using example_rdev_ok(2) by auto
  ultimately show ?thesis using chunk_take_and_put_back [of 0 "[example_rdev]"] by (auto split: option.splits prod.splits)
qed

text \<open>Taking a chunk at an offset does not test that it is free, and its assertion lets the index one
  past the last chunk through: the counter is then decremented although no chunk is taken.\<close>

theorem chunk_get_not_free:
  assumes "rdev < length rdevs" "rdev_ok (rdevs ! rdev)" "i \<notin> free_idx (rdevs ! rdev)"
    and "i \<le> unat (total_chunks_count (rdevs ! rdev))"
  shows "\<exists>chunk rdevs'. chunk_get_from_rdev_at_offset rdev (offset_of (rdev_chunk_size (rdevs ! rdev)) i) rdevs = Some (chunk, rdevs') \<and>
    free_chunks (rdevs' ! rdev) = free_chunks (rdevs ! rdev) \<and> \<not> rdev_ok (rdevs' ! rdev)"
proof -
  let ?r = "rdevs ! rdev"
  have small: "i < 4294967296" using assms(4) unat_32_less le_less_trans by blast
  have cs: "rdev_chunk_size ?r \<noteq> 0" and wf: "extents_wf (free_chunks ?r)" using assms(2) by (simp_all add: rdev_ok_def)
  have "of_nat i \<notin> values_of (free_chunks ?r)" using assms(3) free_idx_of_nat [OF small] by simp
  then have rem: "extent_list_remove_value (free_chunks ?r) (of_nat i) = free_chunks ?r"
    using remove_absent wf by blast
  have "free_chunks_count ?r - 1 \<noteq> free_chunks_count ?r" by simp
  then have "unat (free_chunks_count ?r - 1) \<noteq> unat (free_chunks_count ?r)" by (metis unsigned_word_eqI)
  then have "\<not> rdev_ok (rdev_take (of_nat i) ?r)"
    using assms(2) rem small by (simp add: rdev_ok_def rdev_take_def)
  moreover have "(of_nat i :: 32 word) \<le> total_chunks_count ?r"
    using assms(4) small by (simp add: word_le_nat_alt unat_of_nat)
  ultimately show ?thesis
    using offset_to_index_eq [OF cs small] rem small assms(1)
    by (simp add: chunk_get_from_rdev_at_offset_def rdev_take_def)
qed

end
