(* ===== verification/Vrt_Spof.thy ===== *)
theory Vrt_Spof
  imports Vrt_Chunk
begin

text \<open>
  The groups of devices that fail together (\<open>vrt/virtualiseur/src/spof_group.c\<close>): a group is an
  identifier and an array of pointers to devices, of which the first \<open>nb_realdevs\<close> are set. A
  chunk is taken from the device of the group with the fewest chunks in use. The array has its
  C size; an element is an index in \<open>rdevs\<close> or \<open>NULL\<close>.
\<close>

record spof_group =
  sg_id :: spof_id
  realdevs :: "nat option list"
  nb_realdevs :: nat

definition SPOF_ID_NONE :: spof_id where
  "SPOF_ID_NONE = 0"

definition SPOF_ID_IS_VALID :: "spof_id \<Rightarrow> bool" where
  "SPOF_ID_IS_VALID spof_id \<longleftrightarrow> spof_id > 0"

definition NBMAX_DISKS_PER_SPOF_GROUP :: nat where
  "NBMAX_DISKS_PER_SPOF_GROUP = 64"

definition spof_group_cleanup :: spof_group where
  "spof_group_cleanup = \<lparr> sg_id = SPOF_ID_NONE, realdevs = replicate NBMAX_DISKS_PER_SPOF_GROUP None, nb_realdevs = 0 \<rparr>"

definition spof_group_init :: spof_group where
  "spof_group_init = spof_group_cleanup"

definition spof_group_add_rdev :: "spof_group \<Rightarrow> nat \<Rightarrow> errcode + spof_group" where
  "spof_group_add_rdev sg rdev =
     (if nb_realdevs sg \<ge> NBMAX_DISKS_PER_SPOF_GROUP then Inl ENOSPC
      else Inr (sg\<lparr>realdevs := (realdevs sg)[nb_realdevs sg := Some rdev], nb_realdevs := nb_realdevs sg + 1\<rparr>))"

text \<open>The inner loop of \<open>spof_group_del_rdev\<close> moves the elements after the hole down by one.\<close>

definition shift_down :: "nat \<Rightarrow> 'a list \<Rightarrow> 'a list" where
  "shift_down i xs = foldl (\<lambda>xs j. xs[j := xs ! (j + 1)]) xs [i..<NBMAX_DISKS_PER_SPOF_GROUP - 1]"

function del_rdev_from :: "nat \<Rightarrow> spof_group \<Rightarrow> nat \<Rightarrow> errcode + spof_group" where
  "del_rdev_from i sg rdev =
     (if i \<ge> NBMAX_DISKS_PER_SPOF_GROUP then Inl ENOENT
      else if realdevs sg ! i = Some rdev then
        Inr (sg\<lparr>realdevs := (shift_down i (realdevs sg))[NBMAX_DISKS_PER_SPOF_GROUP - 1 := None],
          nb_realdevs := nb_realdevs sg - 1\<rparr>)
      else del_rdev_from (i + 1) sg rdev)"
  by pat_completeness auto
termination
  by (relation "measure (\<lambda>(i, _). NBMAX_DISKS_PER_SPOF_GROUP - i)") auto

declare del_rdev_from.simps [simp del]

definition spof_group_del_rdev :: "spof_group \<Rightarrow> nat \<Rightarrow> errcode + spof_group" where
  "spof_group_del_rdev sg rdev = del_rdev_from 0 sg rdev"

text \<open>The devices of a group, in the order of the array.\<close>

definition members :: "spof_group \<Rightarrow> nat list" where
  "members sg = map the (take (nb_realdevs sg) (realdevs sg))"

definition spof_group_get_nodes :: "spof_group \<Rightarrow> rdevs \<Rightarrow> exa_nodeset option" where
  "spof_group_get_nodes sg rdevs =
     for_each (\<lambda>i nodes. exa_nodeset_add nodes (rdev_node_id (rdevs ! the (realdevs sg ! i))))
       [0..<nb_realdevs sg] exa_nodeset_reset"

primrec spof_group_lookup :: "spof_id \<Rightarrow> spof_group list \<Rightarrow> spof_group option" where
  "spof_group_lookup id' [] = None"
| "spof_group_lookup id' (sg # spofs) = (if sg_id sg = id' then Some sg else spof_group_lookup id' spofs)"

text \<open>The loop of \<open>least_used_rdev\<close>: the best device so far and the number of its chunks in use.\<close>

fun least_used_loop ::
  "rdevs \<Rightarrow> nat option list \<Rightarrow> (nat \<times> 32 word) option \<Rightarrow> (nat \<times> 32 word) option option" where
  "least_used_loop rdevs [] best = Some best"
| "least_used_loop rdevs (None # ps) best = None"
| "least_used_loop rdevs (Some r # ps) best =
     (if free_chunks_count (rdevs ! r) = 0 then least_used_loop rdevs ps best
      else (let nb_used = total_chunks_count (rdevs ! r) - free_chunks_count (rdevs ! r) in
        case best of
          None \<Rightarrow> least_used_loop rdevs ps (Some (r, nb_used))
        | Some (rdev, min_used) \<Rightarrow>
            if nb_used < min_used then least_used_loop rdevs ps (Some (r, nb_used))
            else least_used_loop rdevs ps best))"

definition least_used_rdev :: "rdevs \<Rightarrow> spof_group \<Rightarrow> nat option" where
  "least_used_rdev rdevs sg = do {
     best \<leftarrow> least_used_loop rdevs (take (nb_realdevs sg) (realdevs sg)) None;
     (rdev, _) \<leftarrow> best;
     exa_assert (free_chunks_count (rdevs ! rdev) > 0);
     Some rdev }"

definition spof_group_get_chunk :: "spof_group \<Rightarrow> rdevs \<Rightarrow> (chunk option \<times> rdevs) option" where
  "spof_group_get_chunk sg rdevs = do {
     rdev \<leftarrow> least_used_rdev rdevs sg;
     chunk_get_first_free_from_rdev rdev rdevs }"

definition spof_group_put_chunk :: "chunk \<Rightarrow> rdevs \<Rightarrow> rdevs option" where
  "spof_group_put_chunk chunk rdevs = chunk_put_to_rdev chunk rdevs"

definition spof_group_free_chunk_count :: "rdevs \<Rightarrow> spof_group \<Rightarrow> 32 word" where
  "spof_group_free_chunk_count rdevs sg = sum_list (map (\<lambda>r. free_chunks_count (rdevs ! r)) (members sg))"

definition spof_group_total_chunk_count :: "rdevs \<Rightarrow> spof_group \<Rightarrow> 64 word" where
  "spof_group_total_chunk_count rdevs sg =
     sum_list (map (\<lambda>r. ucast (total_chunks_count (rdevs ! r)) :: 64 word) (members sg))"

section \<open>The array of devices\<close>

text \<open>The elements before \<open>nb_realdevs\<close> are devices, each once, the others are \<open>NULL\<close>.\<close>

definition spof_wf :: "spof_group \<Rightarrow> bool" where
  "spof_wf sg \<longleftrightarrow> length (realdevs sg) = NBMAX_DISKS_PER_SPOF_GROUP \<and> nb_realdevs sg \<le> NBMAX_DISKS_PER_SPOF_GROUP \<and>
     realdevs sg = map Some (members sg) @ replicate (NBMAX_DISKS_PER_SPOF_GROUP - nb_realdevs sg) None \<and>
     distinct (members sg)"

lemma spof_wfD:
  assumes "spof_wf sg"
  shows "length (realdevs sg) = NBMAX_DISKS_PER_SPOF_GROUP" "nb_realdevs sg \<le> NBMAX_DISKS_PER_SPOF_GROUP"
    "realdevs sg = map Some (members sg) @ replicate (NBMAX_DISKS_PER_SPOF_GROUP - nb_realdevs sg) None"
    "distinct (members sg)"
  using assms unfolding spof_wf_def by blast+

lemma length_members: "spof_wf sg \<Longrightarrow> length (members sg) = nb_realdevs sg"
  by (simp add: spof_wf_def members_def)

lemma take_realdevs: "spof_wf sg \<Longrightarrow> take (nb_realdevs sg) (realdevs sg) = map Some (members sg)"
  by (metis append_eq_conv_conj length_map length_members spof_wfD(3))

lemma spof_wf_init: "spof_wf spof_group_init" "members spof_group_init = []"
  by (simp_all add: spof_wf_def members_def spof_group_init_def spof_group_cleanup_def)

lemma spof_wfI:
  assumes "realdevs sg = map Some ms @ replicate (NBMAX_DISKS_PER_SPOF_GROUP - n) None" "nb_realdevs sg = n"
    and "length ms = n" "n \<le> NBMAX_DISKS_PER_SPOF_GROUP" "distinct ms"
  shows "spof_wf sg" "members sg = ms"
proof -
  show ms: "members sg = ms" using assms(1-3) by (simp add: members_def)
  show "spof_wf sg" unfolding spof_wf_def ms using assms by simp
qed

lemma add_rdev_ok:
  assumes wf: "spof_wf sg" and new: "rdev \<notin> set (members sg)"
  shows "if nb_realdevs sg < NBMAX_DISKS_PER_SPOF_GROUP
    then \<exists>sg'. spof_group_add_rdev sg rdev = Inr sg' \<and> spof_wf sg' \<and> members sg' = members sg @ [rdev] \<and> sg_id sg' = sg_id sg
    else spof_group_add_rdev sg rdev = Inl ENOSPC"
proof (cases "nb_realdevs sg < NBMAX_DISKS_PER_SPOF_GROUP")
  case True
  let ?sg = "sg\<lparr>realdevs := (realdevs sg)[nb_realdevs sg := Some rdev], nb_realdevs := nb_realdevs sg + 1\<rparr>"
  have len: "length (members sg) = nb_realdevs sg" using wf by (rule length_members)
  have arr: "realdevs sg = map Some (members sg) @ replicate (NBMAX_DISKS_PER_SPOF_GROUP - nb_realdevs sg) None"
    using wf by (rule spof_wfD)
  obtain k where k: "NBMAX_DISKS_PER_SPOF_GROUP - nb_realdevs sg = Suc k" using True by (metis Suc_diff_Suc)
  have "realdevs ?sg = map Some (members sg @ [rdev]) @ replicate (NBMAX_DISKS_PER_SPOF_GROUP - (nb_realdevs sg + 1)) None"
    using k by (simp add: arr list_update_append len)
  then have "spof_wf ?sg" "members ?sg = members sg @ [rdev]"
    by (rule spof_wfI; use True len new wf in \<open>simp add: spof_wf_def\<close>)+
  then show ?thesis using True by (auto simp: spof_group_add_rdev_def)
next
  case False
  then show ?thesis by (simp add: spof_group_add_rdev_def)
qed

lemma foldl_shift:
  "n < length xs \<Longrightarrow> i \<le> n \<Longrightarrow> foldl (\<lambda>xs j. xs[j := xs ! (j + 1)]) xs [i..<n] =
    take i xs @ take (n - i) (drop (Suc i) xs) @ drop n xs"
proof (induction n)
  case (Suc n)
  show ?case
  proof (cases "i \<le> n")
    case True
    have len: "length (take i xs @ take (n - i) (drop (Suc i) xs)) = n" using Suc.prems True by simp
    have IH: "foldl (\<lambda>xs j. xs[j := xs ! (j + 1)]) xs [i..<n] = take i xs @ take (n - i) (drop (Suc i) xs) @ drop n xs"
      using Suc True by simp
    have "drop n xs = xs ! n # drop (Suc n) xs" using Suc.prems by (simp add: Cons_nth_drop_Suc)
    then have "(take i xs @ take (n - i) (drop (Suc i) xs) @ drop n xs)[n := xs ! Suc n] =
        take i xs @ take (n - i) (drop (Suc i) xs) @ xs ! Suc n # drop (Suc n) xs"
      using list_update_length [of "take i xs @ take (n - i) (drop (Suc i) xs)" "xs ! n" "drop (Suc n) xs" "xs ! Suc n"]
      unfolding len by (simp only: append_assoc)
    also have "take (n - i) (drop (Suc i) xs) @ xs ! Suc n # drop (Suc n) xs = take (Suc n - i) (drop (Suc i) xs) @ drop (Suc n) xs"
      using Suc.prems True by (simp add: Suc_diff_le take_Suc_conv_app_nth)
    finally have upd: "(take i xs @ take (n - i) (drop (Suc i) xs) @ drop n xs)[n := xs ! Suc n] =
        take i xs @ take (Suc n - i) (drop (Suc i) xs) @ drop (Suc n) xs" .
    have "(take i xs @ take (n - i) (drop (Suc i) xs) @ drop n xs) ! (n + 1) = xs ! Suc n"
      using nth_append [of "take i xs @ take (n - i) (drop (Suc i) xs)" "drop n xs" "n + 1"] Suc.prems
      unfolding len by simp
    with upd IH True show ?thesis by simp
  next
    case False
    with Suc.prems have "i = Suc n" by simp
    then show ?thesis by simp
  qed
qed simp

lemma del_rdev_ok:
  assumes wf: "spof_wf sg" and mem: "members sg = as @ rdev # bs"
  shows "\<exists>sg'. spof_group_del_rdev sg rdev = Inr sg' \<and> spof_wf sg' \<and> members sg' = as @ bs \<and> sg_id sg' = sg_id sg"
proof -
  let ?N = NBMAX_DISKS_PER_SPOF_GROUP
  have d: "distinct (as @ rdev # bs)" and n: "nb_realdevs sg = length as + 1 + length bs" "nb_realdevs sg \<le> ?N"
    using spof_wfD(2,4) [OF wf] mem length_members [OF wf] by auto
  have arr: "realdevs sg = map Some as @ Some rdev # map Some bs @ replicate (?N - nb_realdevs sg) None"
    using spof_wfD(3) [OF wf] mem by simp
  have len: "length (realdevs sg) = ?N" using wf by (rule spof_wfD)
  let ?sg = "sg\<lparr>realdevs := (shift_down (length as) (realdevs sg))[?N - 1 := None], nb_realdevs := nb_realdevs sg - 1\<rparr>"
  have step: "del_rdev_from i sg rdev = Inr ?sg" if "i \<le> length as" for i
    using that
  proof (induction "length as - i" arbitrary: i)
    case 0
    then show ?case using n arr by (subst del_rdev_from.simps) (simp add: nth_append)
  next
    case (Suc k)
    then have "realdevs sg ! i \<noteq> Some rdev" using arr d by (auto simp: nth_append)
    with Suc n show ?case by (subst del_rdev_from.simps) simp
  qed
  have "shift_down (length as) (realdevs sg) =
      map Some as @ take (?N - 1 - length as) (map Some bs @ replicate (?N - nb_realdevs sg) None) @ drop (?N - 1) (realdevs sg)"
    unfolding shift_down_def using n len by (subst foldl_shift) (simp_all add: arr)
  moreover have "take (?N - 1 - length as) (map Some bs @ replicate (?N - nb_realdevs sg) None) =
      map Some bs @ replicate (?N - nb_realdevs sg) (None :: nat option)"
    using n by simp
  moreover have "length (drop (?N - 1) (realdevs sg)) = 1" using len n by simp
  then obtain x where "drop (?N - 1) (realdevs sg) = [x]" by (metis One_nat_def length_0_conv length_Suc_conv)
  ultimately have shifted: "shift_down (length as) (realdevs sg) =
      (map Some as @ map Some bs @ replicate (?N - nb_realdevs sg) None) @ [x]" by simp
  have "length (map Some as @ map Some bs @ replicate (?N - nb_realdevs sg) None) = ?N - 1" using n by simp
  with shifted list_update_length [of "map Some as @ map Some bs @ replicate (?N - nb_realdevs sg) None" x "[]" None]
  have "realdevs ?sg = map Some as @ map Some bs @ replicate (?N - nb_realdevs sg) None @ [None]" by simp
  also have "replicate (?N - nb_realdevs sg) None @ [None] = replicate (?N - (nb_realdevs sg - 1)) (None :: nat option)"
    using n by (simp add: replicate_append_same Suc_diff_Suc flip: replicate_Suc)
  finally have "realdevs ?sg = map Some (as @ bs) @ replicate (?N - (nb_realdevs sg - 1)) None" by simp
  then have "spof_wf ?sg" "members ?sg = as @ bs"
    by (rule spof_wfI; use n d in simp)+
  with step [of 0] show ?thesis by (simp add: spof_group_del_rdev_def)
qed

lemma del_rdev_absent:
  assumes "spof_wf sg" "rdev \<notin> set (members sg)"
  shows "spof_group_del_rdev sg rdev = Inl ENOENT"
proof -
  have "realdevs sg ! i \<noteq> Some rdev" if "i < NBMAX_DISKS_PER_SPOF_GROUP" for i
  proof -
    have "realdevs sg ! i \<in> set (realdevs sg)" using that spof_wfD(1) [OF assms(1)] by simp
    moreover have "set (realdevs sg) \<subseteq> Some ` set (members sg) \<union> {None}"
      by (subst spof_wfD(3) [OF assms(1)]) auto
    ultimately have "realdevs sg ! i \<in> Some ` set (members sg) \<union> {None}" by blast
    with assms(2) show ?thesis by auto
  qed
  then have "del_rdev_from i sg rdev = Inl ENOENT" for i
    by (induction i sg rdev rule: del_rdev_from.induct) (subst del_rdev_from.simps, simp)
  then show ?thesis by (simp add: spof_group_del_rdev_def)
qed

section \<open>Choosing a device\<close>

definition used_chunks :: "vrt_realdev \<Rightarrow> 32 word" where
  "used_chunks r = total_chunks_count r - free_chunks_count r"

lemma least_used_loop_best:
  "\<exists>r. least_used_loop rdevs (map Some rs) (Some (r0, used_chunks (rdevs ! r0))) = Some (Some (r, used_chunks (rdevs ! r))) \<and>
     (r = r0 \<or> r \<in> set rs \<and> free_chunks_count (rdevs ! r) \<noteq> 0) \<and> used_chunks (rdevs ! r) \<le> used_chunks (rdevs ! r0) \<and>
     (\<forall>r' \<in> set rs. free_chunks_count (rdevs ! r') \<noteq> 0 \<longrightarrow> used_chunks (rdevs ! r) \<le> used_chunks (rdevs ! r'))"
proof (induction rs arbitrary: r0)
  case (Cons x rs)
  show ?case
  proof (cases "free_chunks_count (rdevs ! x) \<noteq> 0 \<and> used_chunks (rdevs ! x) < used_chunks (rdevs ! r0)")
    case True
    then have "least_used_loop rdevs (map Some (x # rs)) (Some (r0, used_chunks (rdevs ! r0))) =
        least_used_loop rdevs (map Some rs) (Some (x, used_chunks (rdevs ! x)))"
      by (simp add: Let_def used_chunks_def)
    with Cons.IH [of x] True show ?thesis by (auto intro: order_trans dest: less_imp_le)
  next
    case False
    then have "least_used_loop rdevs (map Some (x # rs)) (Some (r0, used_chunks (rdevs ! r0))) =
        least_used_loop rdevs (map Some rs) (Some (r0, used_chunks (rdevs ! r0)))"
      by (auto simp: Let_def used_chunks_def)
    with Cons.IH [of r0] False show ?thesis by (fastforce simp: not_less)
  qed
qed simp

lemma least_used_loop_ok:
  assumes "\<exists>r \<in> set rs. free_chunks_count (rdevs ! r) \<noteq> 0"
  shows "\<exists>r \<in> set rs. least_used_loop rdevs (map Some rs) None = Some (Some (r, used_chunks (rdevs ! r))) \<and>
    free_chunks_count (rdevs ! r) \<noteq> 0 \<and>
    (\<forall>r' \<in> set rs. free_chunks_count (rdevs ! r') \<noteq> 0 \<longrightarrow> used_chunks (rdevs ! r) \<le> used_chunks (rdevs ! r'))"
  using assms
proof (induction rs)
  case (Cons x rs)
  show ?case
  proof (cases "free_chunks_count (rdevs ! x) = 0")
    case True
    with Cons show ?thesis by auto
  next
    case False
    have "least_used_loop rdevs (map Some (x # rs)) None = least_used_loop rdevs (map Some rs) (Some (x, used_chunks (rdevs ! x)))"
      using False by (simp add: used_chunks_def)
    with least_used_loop_best [of rdevs rs x] False show ?thesis by auto
  qed
qed simp

lemma least_used_ok:
  assumes "spof_wf sg" "\<exists>r \<in> set (members sg). free_chunks_count (rdevs ! r) \<noteq> 0"
  shows "\<exists>r \<in> set (members sg). least_used_rdev rdevs sg = Some r \<and> free_chunks_count (rdevs ! r) \<noteq> 0 \<and>
    (\<forall>r' \<in> set (members sg). free_chunks_count (rdevs ! r') \<noteq> 0 \<longrightarrow> used_chunks (rdevs ! r) \<le> used_chunks (rdevs ! r'))"
  using least_used_loop_ok [OF assms(2)] take_realdevs [OF assms(1)]
  by (fastforce simp: least_used_rdev_def word_neq_0_conv)

lemma spof_get_chunk_ok:
  assumes "spof_wf sg" "\<forall>r \<in> set (members sg). rdev_ok (rdevs ! r)"
    and "\<exists>r \<in> set (members sg). free_idx (rdevs ! r) \<noteq> {}"
  shows "\<exists>r i. r \<in> set (members sg) \<and> i \<in> free_idx (rdevs ! r) \<and>
    spof_group_get_chunk sg rdevs = Some (Some (chunk_at rdevs r i), rdevs[r := rdev_take (of_nat i) (rdevs ! r)])"
proof -
  have "\<exists>r \<in> set (members sg). free_chunks_count (rdevs ! r) \<noteq> 0"
    using assms(2,3) no_free_iff by blast
  from least_used_ok [OF assms(1) this] obtain r where r: "r \<in> set (members sg)" "least_used_rdev rdevs sg = Some r"
    "free_chunks_count (rdevs ! r) \<noteq> 0" by blast
  then have free: "free_idx (rdevs ! r) \<noteq> {}" using assms(2) no_free_iff by blast
  have "rdev_ok (rdevs ! r)" using assms(2) r(1) by blast
  from get_first_free_ok [OF this free] r free show ?thesis
    by (intro exI [of _ r] exI [of _ "Min (free_idx (rdevs ! r))"]) (simp add: spof_group_get_chunk_def)
qed

text \<open>The number of free chunks of a group.\<close>

definition free_total :: "rdevs \<Rightarrow> spof_group \<Rightarrow> nat" where
  "free_total rdevs sg = (\<Sum>r \<leftarrow> members sg. card (free_idx (rdevs ! r)))"

lemma free_total_pos: "free_total rdevs sg > 0 \<longleftrightarrow> (\<exists>r \<in> set (members sg). free_idx (rdevs ! r) \<noteq> {})"
proof -
  have "free_total rdevs sg = 0 \<longleftrightarrow> (\<forall>r \<in> set (members sg). free_idx (rdevs ! r) = {})"
    unfolding free_total_def by (induction "members sg") (auto simp: sum_list_eq_0_iff)
  then show ?thesis by auto
qed

lemma unat_sum_list_32:
  "sum_list (map unat xs) < 4294967296 \<Longrightarrow> unat (sum_list xs :: 32 word) = sum_list (map unat xs)"
  by (induction xs) (simp_all add: unat_word_ariths)

lemma free_chunk_count_eq:
  assumes "\<forall>r \<in> set (members sg). rdev_ok (rdevs ! r)" "free_total rdevs sg < 4294967296"
  shows "unat (spof_group_free_chunk_count rdevs sg) = free_total rdevs sg"
proof -
  have eq: "map (\<lambda>r. unat (free_chunks_count (rdevs ! r))) (members sg) = map (\<lambda>r. card (free_idx (rdevs ! r))) (members sg)"
    using assms(1) card_free_idx by simp
  have "unat (sum_list (map (\<lambda>r. free_chunks_count (rdevs ! r)) (members sg))) =
      sum_list (map (\<lambda>r. unat (free_chunks_count (rdevs ! r))) (members sg))"
    using unat_sum_list_32 [of "map (\<lambda>r. free_chunks_count (rdevs ! r)) (members sg)"] assms(2)
    unfolding map_map comp_def eq free_total_def by blast
  then show ?thesis unfolding eq spof_group_free_chunk_count_def free_total_def .
qed

section \<open>Properties\<close>

text \<open>The array of devices of a failure domain stays well formed (the devices first, each once,
  then null pointers, and the count exact) under initialisation, addition and removal. Addition
  appends, or is refused with \<open>-ENOSPC\<close> when the array is full; removal takes exactly the
  device out and keeps the order of the others, or is refused with \<open>-ENOENT\<close>.\<close>

lemma spof_group_devices:
  assumes "spof_wf sg"
  shows "spof_wf spof_group_init \<and> members spof_group_init = []
    \<and> (rdev \<notin> set (members sg) \<longrightarrow>
        (case spof_group_add_rdev sg rdev of
           Inl err \<Rightarrow> err = ENOSPC \<and> length (members sg) = NBMAX_DISKS_PER_SPOF_GROUP
         | Inr sg' \<Rightarrow> spof_wf sg' \<and> members sg' = members sg @ [rdev] \<and> sg_id sg' = sg_id sg))
    \<and> (case spof_group_del_rdev sg rdev of
           Inl err \<Rightarrow> err = ENOENT \<and> rdev \<notin> set (members sg)
         | Inr sg' \<Rightarrow> rdev \<in> set (members sg) \<and> spof_wf sg' \<and> members sg' = remove1 rdev (members sg) \<and> sg_id sg' = sg_id sg)"
proof -
  have add: "case spof_group_add_rdev sg rdev of
      Inl err \<Rightarrow> err = ENOSPC \<and> length (members sg) = NBMAX_DISKS_PER_SPOF_GROUP
    | Inr sg' \<Rightarrow> spof_wf sg' \<and> members sg' = members sg @ [rdev] \<and> sg_id sg' = sg_id sg" if "rdev \<notin> set (members sg)"
    using add_rdev_ok [OF assms that] length_members [OF assms] spof_wfD(2) [OF assms] by (auto split: if_splits)
  have del: "case spof_group_del_rdev sg rdev of
      Inl err \<Rightarrow> err = ENOENT \<and> rdev \<notin> set (members sg)
    | Inr sg' \<Rightarrow> rdev \<in> set (members sg) \<and> spof_wf sg' \<and> members sg' = remove1 rdev (members sg) \<and> sg_id sg' = sg_id sg"
  proof (cases "rdev \<in> set (members sg)")
    case True
    then obtain as bs where m: "members sg = as @ rdev # bs" by (meson split_list)
    then have "rdev \<notin> set as" using spof_wfD(4) [OF assms] by auto
    then have "remove1 rdev (members sg) = as @ bs" by (simp add: m remove1_append)
    with del_rdev_ok [OF assms m] True show ?thesis by auto
  next
    case False
    then show ?thesis using del_rdev_absent [OF assms] by simp
  qed
  from add del spof_wf_init show ?thesis by blast
qed


text \<open>A domain of one device.\<close>

definition example_group :: spof_group where
  "example_group = \<lparr> sg_id = 1, realdevs = Some 0 # replicate 63 None, nb_realdevs = 1 \<rparr>"

lemma example_group_wf: "spof_wf example_group" "members example_group = [0]"
proof -
  have "realdevs example_group = map Some [0] @ replicate (NBMAX_DISKS_PER_SPOF_GROUP - 1) None"
    by (simp add: example_group_def NBMAX_DISKS_PER_SPOF_GROUP_def)
  then show "spof_wf example_group" "members example_group = [0]"
    by (rule spof_wfI; simp add: example_group_def NBMAX_DISKS_PER_SPOF_GROUP_def)+
qed


end
