(* ===== verification/Vrt_Storage.thy ===== *)
theory Vrt_Storage
  imports Vrt_Spof
begin

text \<open>
  The storage of a group (\<open>vrt/virtualiseur/src/storage.c\<close>): the failure domains with their
  devices and the size of a chunk, in kilobytes. It cuts its devices into chunks, iterates over
  them, and is written to and read from the superblock. The number of domains is the length of
  their list. A pointer to a domain is its index. The storage does not own the devices: the
  operations on them take and return \<open>rdevs\<close>.
\<close>

record storage =
  spof_groups :: "spof_group list"
  chunk_size :: "32 word"

definition storage_alloc :: storage where
  "storage_alloc = \<lparr> spof_groups = [], chunk_size = 0 \<rparr>"

definition KBYTES_2_SECTORS :: "32 word \<Rightarrow> 32 word" where
  "KBYTES_2_SECTORS nb_kbytes = nb_kbytes * 2"

definition NBMAX_DISKS_PER_GROUP :: nat where
  "NBMAX_DISKS_PER_GROUP = 512"

definition VRT_NBMAX_CHUNKS_PER_GROUP :: "64 word" where
  "VRT_NBMAX_CHUNKS_PER_GROUP = 500000"

definition storage_set_chunk_size :: "32 word \<Rightarrow> storage \<Rightarrow> ((errcode + unit) \<times> storage) option" where
  "storage_set_chunk_size cs storage = do {
     exa_assert (chunk_size storage = 0 \<or> chunk_size storage = cs);
     if cs = 0 then Some (Inl EINVAL, storage) else Some (Inr (), storage\<lparr>chunk_size := cs\<rparr>) }"

definition storage_add_spof_group :: "storage \<Rightarrow> spof_id \<Rightarrow> errcode + (nat \<times> storage)" where
  "storage_add_spof_group storage spof_id =
     (if \<not> SPOF_ID_IS_VALID spof_id then Inl EINVAL
      else if \<exists>sg \<in> set (spof_groups storage). sg_id sg = spof_id then Inl EEXIST
      else if length (spof_groups storage) = EXA_MAX_NODES_NUMBER then Inl ENOSPC
      else Inr (length (spof_groups storage),
             storage\<lparr>spof_groups := spof_groups storage @ [spof_group_init\<lparr>sg_id := spof_id\<rparr>]\<rparr>))"

fun group_index :: "spof_group list \<Rightarrow> spof_id \<Rightarrow> nat option" where
  "group_index [] spof_id = None"
| "group_index (sg # sgs) spof_id =
     (if sg_id sg = spof_id then Some 0 else map_option Suc (group_index sgs spof_id))"

definition storage_get_spof_group_by_id :: "storage \<Rightarrow> spof_id \<Rightarrow> nat option" where
  "storage_get_spof_group_by_id storage spof_id = group_index (spof_groups storage) spof_id"

definition storage_get_spof_group_total_chunk_count :: "rdevs \<Rightarrow> storage \<Rightarrow> spof_id \<Rightarrow> 64 word option" where
  "storage_get_spof_group_total_chunk_count rdevs storage spof_id = do {
     exa_assert (SPOF_ID_IS_VALID spof_id);
     sg \<leftarrow> storage_get_spof_group_by_id storage spof_id;
     Some (spof_group_total_chunk_count rdevs (spof_groups storage ! sg)) }"

definition storage_get_spof_group_free_chunk_count :: "rdevs \<Rightarrow> storage \<Rightarrow> spof_id \<Rightarrow> 64 word option" where
  "storage_get_spof_group_free_chunk_count rdevs storage spof_id = do {
     exa_assert (SPOF_ID_IS_VALID spof_id);
     sg \<leftarrow> storage_get_spof_group_by_id storage spof_id;
     Some (ucast (spof_group_free_chunk_count rdevs (spof_groups storage ! sg))) }"

text \<open>The iterators. A position over the domains is an index; a position over the devices is an
  index of a domain and an index in its array. The end is \<open>SPOF_ID_NONE\<close> and \<open>NULL\<close>.\<close>

definition storage_spof_iterator_begin :: nat where
  "storage_spof_iterator_begin = 0"

definition storage_spof_iterator_get :: "storage \<Rightarrow> nat \<Rightarrow> spof_id \<times> nat" where
  "storage_spof_iterator_get storage index =
     (if index \<ge> length (spof_groups storage) then (SPOF_ID_NONE, index)
      else (sg_id (spof_groups storage ! index), index + 1))"

definition storage_rdev_iterator_begin :: "nat \<times> nat" where
  "storage_rdev_iterator_begin = (0, 0)"

function storage_rdev_iterator_get :: "storage \<Rightarrow> nat \<times> nat \<Rightarrow> nat option \<times> (nat \<times> nat)" where
  "storage_rdev_iterator_get storage (spof_group_index, realdev_index) =
     (if spof_group_index \<ge> length (spof_groups storage) then (None, (spof_group_index, realdev_index))
      else let spof_group = spof_groups storage ! spof_group_index in
        if realdev_index \<ge> nb_realdevs spof_group then storage_rdev_iterator_get storage (spof_group_index + 1, 0)
        else (realdevs spof_group ! realdev_index, (spof_group_index, realdev_index + 1)))"
  by pat_completeness auto
termination
  by (relation "measure (\<lambda>(storage, gi, ri). length (spof_groups storage) - gi)") auto

declare storage_rdev_iterator_get.simps [simp del]

lemma iterator_progress:
  "storage_rdev_iterator_get storage (gi, ri) = (Some r, (gi', ri')) \<Longrightarrow>
   gi < length (spof_groups storage) \<and> (gi < gi' \<or> gi' = gi \<and> ri' = Suc ri \<and> ri < nb_realdevs (spof_groups storage ! gi))"
proof (induction storage "(gi, ri)" arbitrary: gi ri rule: storage_rdev_iterator_get.induct)
  case (1 storage gi ri)
  from "1.prems" "1.hyps" [of "spof_groups storage ! gi"] show ?case
    by (subst (asm) storage_rdev_iterator_get.simps) (auto simp: Let_def split: if_splits)
qed

text \<open>A loop over the iterator visits the devices up to the first null pointer.\<close>

function rdev_iter_list :: "storage \<Rightarrow> nat \<times> nat \<Rightarrow> nat list" where
  "rdev_iter_list storage it =
     (case storage_rdev_iterator_get storage it of
        (None, it') \<Rightarrow> []
      | (Some rdev, it') \<Rightarrow> rdev # rdev_iter_list storage it')"
  by pat_completeness auto
termination
  by (relation "measures [\<lambda>(storage, gi, ri). length (spof_groups storage) - gi,
        \<lambda>(storage, gi, ri). nb_realdevs (spof_groups storage ! gi) - ri]")
     (auto dest!: sym [of _ "storage_rdev_iterator_get _ _"] iterator_progress)

declare rdev_iter_list.simps [simp del]

definition storage_rdevs :: "storage \<Rightarrow> nat list" where
  "storage_rdevs storage = rdev_iter_list storage storage_rdev_iterator_begin"

definition storage_get_num_realdevs :: "storage \<Rightarrow> nat" where
  "storage_get_num_realdevs storage = sum_list (map nb_realdevs (spof_groups storage))"

definition storage_add_rdev :: "storage \<Rightarrow> spof_id \<Rightarrow> nat \<Rightarrow> (errcode + unit) \<times> storage" where
  "storage_add_rdev storage spof_id rdev =
     (if \<not> SPOF_ID_IS_VALID spof_id then (Inl EINVAL, storage)
      else if storage_get_num_realdevs storage = NBMAX_DISKS_PER_GROUP then (Inl ENOSPC, storage)
      else case (case storage_get_spof_group_by_id storage spof_id of
            Some sg \<Rightarrow> Inr (sg, storage)
          | None \<Rightarrow> storage_add_spof_group storage spof_id) of
        Inl err \<Rightarrow> (Inl err, storage)
      | Inr (sg, storage) \<Rightarrow>
          (case spof_group_add_rdev (spof_groups storage ! sg) rdev of
             Inl err \<Rightarrow> (Inl err, storage)
           | Inr g \<Rightarrow> (Inr (), storage\<lparr>spof_groups := (spof_groups storage)[sg := g]\<rparr>)))"

definition storage_del_rdev :: "storage \<Rightarrow> spof_id \<Rightarrow> nat \<Rightarrow> (errcode + unit) \<times> storage" where
  "storage_del_rdev storage spof_id rdev =
     (if \<not> SPOF_ID_IS_VALID spof_id then (Inl EINVAL, storage)
      else case group_index (spof_groups storage) spof_id of
        None \<Rightarrow> (Inl ENOENT, storage)
      | Some sg \<Rightarrow>
          (case spof_group_del_rdev (spof_groups storage ! sg) rdev of
             Inl err \<Rightarrow> (Inl err, storage)
           | Inr g \<Rightarrow> (Inr (), storage\<lparr>spof_groups := (spof_groups storage)[sg := g]\<rparr>)))"

definition storage_get_rdev :: "rdevs \<Rightarrow> storage \<Rightarrow> exa_uuid \<Rightarrow> nat option" where
  "storage_get_rdev rdevs storage uuid =
     List.find (\<lambda>r. uuid_is_equal (rdev_uuid (rdevs ! r)) uuid) (storage_rdevs storage)"

section \<open>Cutting devices into chunks\<close>

definition vrt_realdev_get_usable_size :: "vrt_realdev \<Rightarrow> 64 word" where
  "vrt_realdev_get_usable_size rdev =
     (if real_size rdev < VRT_SB_AREA_SIZE then 0 else real_size rdev - VRT_SB_AREA_SIZE)"

definition storage_initialize_rdev_chunks_info :: "storage \<Rightarrow> 64 word \<Rightarrow> vrt_realdev \<Rightarrow> vrt_realdev option" where
  "storage_initialize_rdev_chunks_info storage n rdev = do {
     let rdev = rdev\<lparr>rdev_chunk_size := KBYTES_2_SECTORS (chunk_size storage),
       total_chunks_count := ucast n, free_chunks_count := ucast n\<rparr>;
     free \<leftarrow> for_each (\<lambda>i free. extent_list_add_value free (of_nat i)) [0..<unat n] (free_chunks rdev);
     Some (rdev\<lparr>free_chunks := free\<rparr>) }"

definition storage_cut_rdev_in_chunks :: "storage \<Rightarrow> vrt_realdev \<Rightarrow> ((errcode + unit) \<times> vrt_realdev) option" where
  "storage_cut_rdev_in_chunks storage rdev = do {
     let total_size = vrt_realdev_get_usable_size rdev;
     let cs = KBYTES_2_SECTORS (chunk_size storage);
     exa_assert (total_size > 0);
     exa_assert (cs > 0);
     if ucast cs > total_size then Some (Inl VRT_ERR_RDEV_TOO_SMALL, rdev)
     else do {
       rdev \<leftarrow> storage_initialize_rdev_chunks_info storage (total_size div ucast cs) rdev;
       Some (Inr (), rdev) } }"

primrec cut_rdevs :: "storage \<Rightarrow> nat list \<Rightarrow> 64 word \<Rightarrow> rdevs \<Rightarrow> ((errcode + 64 word) \<times> rdevs) option" where
  "cut_rdevs storage [] n rdevs = Some (Inr n, rdevs)"
| "cut_rdevs storage (r # rs) n rdevs = do {
     (res, rdev) \<leftarrow> storage_cut_rdev_in_chunks storage (rdevs ! r);
     let rdevs = rdevs[r := rdev];
     case res of
       Inl err \<Rightarrow> Some (Inl err, rdevs)
     | Inr _ \<Rightarrow> cut_rdevs storage rs (n + ucast (total_chunks_count rdev)) rdevs }"

definition storage_cut_in_chunks ::
  "32 word \<Rightarrow> storage \<Rightarrow> rdevs \<Rightarrow> ((errcode + unit) \<times> storage \<times> rdevs) option" where
  "storage_cut_in_chunks cs storage rdevs = do {
     (res, storage) \<leftarrow> storage_set_chunk_size cs storage;
     case res of
       Inl err \<Rightarrow> Some (Inl err, storage, rdevs)
     | Inr _ \<Rightarrow> do {
         (res, rdevs) \<leftarrow> cut_rdevs storage (storage_rdevs storage) 0 rdevs;
         case res of
           Inl err \<Rightarrow> Some (Inl err, storage, rdevs)
         | Inr n \<Rightarrow>
             if n > VRT_NBMAX_CHUNKS_PER_GROUP then Some (Inl VRT_ERR_TOO_MANY_CHUNKS, storage, rdevs)
             else Some (Inr (), storage, rdevs) } }"

section \<open>Serialisation\<close>

definition uuid_bytes :: "exa_uuid \<Rightarrow> byte list" where
  "uuid_bytes u = concat (map le32 (uuid_ids u))"

definition of_uuid_bytes :: "byte list \<Rightarrow> exa_uuid" where
  "of_uuid_bytes bs = Exa_Uuid (of_le32 (take 4 bs)) (of_le32 (take 4 (drop 4 bs))) (of_le32 (take 4 (drop 8 bs)))
     (of_le32 (take 4 (drop 12 bs)))"

record storage_rdev_header =
  srh_uuid :: exa_uuid
  srh_total_chunks_count :: "64 word"

definition storage_rdev_header_read :: "stream \<Rightarrow> (errcode + storage_rdev_header) \<times> stream" where
  "storage_rdev_header_read s =
     (case read_exact stream_read 24 s of
        (Inl err, s') \<Rightarrow> (Inl err, s')
      | (Inr b, s') \<Rightarrow> (Inr \<lparr> srh_uuid = of_uuid_bytes (take 16 b), srh_total_chunks_count = of_le64 (drop 16 b) \<rparr>, s'))"

definition storage_rdev_serialized_size :: "64 word" where
  "storage_rdev_serialized_size = 24"

definition storage_rdev_serialize :: "vrt_realdev \<Rightarrow> stream \<Rightarrow> (errcode + unit) \<times> stream" where
  "storage_rdev_serialize rdev s =
     write_exact stream_write (uuid_bytes (rdev_uuid rdev) @ le64 (ucast (total_chunks_count rdev))) s"

definition storage_rdev_deserialize :: "storage \<Rightarrow> rdevs \<Rightarrow> stream \<Rightarrow> ((errcode + nat) \<times> rdevs \<times> stream) option" where
  "storage_rdev_deserialize storage rdevs s =
     (case storage_rdev_header_read s of
        (Inl err, s) \<Rightarrow> Some (Inl err, rdevs, s)
      | (Inr header, s) \<Rightarrow>
          (case storage_get_rdev rdevs storage (srh_uuid header) of
             None \<Rightarrow> Some (Inl VRT_ERR_SB_CORRUPTION, rdevs, s)
           | Some r \<Rightarrow> do {
               rdev \<leftarrow> storage_initialize_rdev_chunks_info storage (srh_total_chunks_count header) (rdevs ! r);
               Some (Inr r, rdevs[r := rdev], s) }))"

definition STORAGE_HEADER_MAGIC :: "32 word" where
  "STORAGE_HEADER_MAGIC = 0x7700FFCC"

definition STORAGE_HEADER_FORMAT :: "32 word" where
  "STORAGE_HEADER_FORMAT = 1"

record storage_header =
  sh_magic :: "32 word"
  sh_format :: "32 word"
  sh_chunk_size :: "32 word"
  sh_nb_rdevs :: "32 word"

definition storage_header_read :: "stream \<Rightarrow> (errcode + storage_header) \<times> stream" where
  "storage_header_read s =
     (case read_exact stream_read 16 s of
        (Inl err, s') \<Rightarrow> (Inl err, s')
      | (Inr b, s') \<Rightarrow> (Inr \<lparr> sh_magic = of_le32 (take 4 b), sh_format = of_le32 (take 4 (drop 4 b)),
          sh_chunk_size = of_le32 (take 4 (drop 8 b)), sh_nb_rdevs = of_le32 (drop 12 b) \<rparr>, s'))"

definition storage_serialized_size :: "storage \<Rightarrow> 64 word" where
  "storage_serialized_size storage = foldl (\<lambda>n r. n + storage_rdev_serialized_size) 16 (storage_rdevs storage)"

definition storage_serialize :: "rdevs \<Rightarrow> storage \<Rightarrow> stream \<Rightarrow> (errcode + unit) \<times> stream" where
  "storage_serialize rdevs storage s =
     (case write_exact stream_write (le32 STORAGE_HEADER_MAGIC @ le32 STORAGE_HEADER_FORMAT @ le32 (chunk_size storage) @
             le32 (of_nat (storage_get_num_realdevs storage))) s of
        (Inl err, s') \<Rightarrow> (Inl err, s')
      | (Inr _, s') \<Rightarrow> each_io (\<lambda>r. storage_rdev_serialize (rdevs ! r)) (storage_rdevs storage) s')"

primrec deserialize_rdevs :: "nat \<Rightarrow> storage \<Rightarrow> rdevs \<Rightarrow> stream \<Rightarrow> ((errcode + unit) \<times> rdevs \<times> stream) option" where
  "deserialize_rdevs 0 storage rdevs s = Some (Inr (), rdevs, s)"
| "deserialize_rdevs (Suc n) storage rdevs s = do {
     (res, rdevs, s) \<leftarrow> storage_rdev_deserialize storage rdevs s;
     case res of
       Inl err \<Rightarrow> Some (Inl err, rdevs, s)
     | Inr _ \<Rightarrow> deserialize_rdevs n storage rdevs s }"

definition storage_deserialize ::
  "storage \<Rightarrow> rdevs \<Rightarrow> stream \<Rightarrow> ((errcode + unit) \<times> storage \<times> rdevs \<times> stream) option" where
  "storage_deserialize storage rdevs s =
     (case storage_header_read s of
        (Inl err, s) \<Rightarrow> Some (Inl err, storage, rdevs, s)
      | (Inr header, s) \<Rightarrow>
          if sh_magic header \<noteq> STORAGE_HEADER_MAGIC then Some (Inl VRT_ERR_SB_MAGIC, storage, rdevs, s)
          else if sh_format header \<noteq> STORAGE_HEADER_FORMAT then Some (Inl VRT_ERR_SB_FORMAT, storage, rdevs, s)
          else if unat (sh_nb_rdevs header) \<noteq> storage_get_num_realdevs storage
          then Some (Inl VRT_ERR_SB_CORRUPTION, storage, rdevs, s)
          else do {
            (_, storage) \<leftarrow> storage_set_chunk_size (sh_chunk_size header) storage;
            (res, rdevs, s) \<leftarrow> deserialize_rdevs (unat (sh_nb_rdevs header)) storage rdevs s;
            Some (res, storage, rdevs, s) })"

text \<open>The two storages may have their devices in different tables.\<close>

definition storage_equals :: "rdevs \<Rightarrow> storage \<Rightarrow> rdevs \<Rightarrow> storage \<Rightarrow> bool" where
  "storage_equals rdevs1 s1 rdevs2 s2 =
     (chunk_size s1 = chunk_size s2 \<and> storage_get_num_realdevs s1 = storage_get_num_realdevs s2 \<and>
      list_all (\<lambda>r1. case storage_get_rdev rdevs2 s2 (rdev_uuid (rdevs1 ! r1)) of
          None \<Rightarrow> False
        | Some r2 \<Rightarrow> total_chunks_count (rdevs1 ! r1) = total_chunks_count (rdevs2 ! r2)) (storage_rdevs s1))"

section \<open>The devices of a storage\<close>

text \<open>Well-formedness: the domains have valid, different identifiers, their arrays are well formed,
  no device is in two domains.\<close>

definition storage_wf :: "storage \<Rightarrow> bool" where
  "storage_wf storage \<longleftrightarrow> (\<forall>sg \<in> set (spof_groups storage). spof_wf sg \<and> SPOF_ID_IS_VALID (sg_id sg)) \<and>
     distinct (map sg_id (spof_groups storage)) \<and> distinct (concat (map members (spof_groups storage))) \<and>
     length (spof_groups storage) \<le> EXA_MAX_NODES_NUMBER"

lemma iter_skip:
  assumes "gi < length (spof_groups storage)" "nb_realdevs (spof_groups storage ! gi) \<le> ri"
  shows "rdev_iter_list storage (gi, ri) = rdev_iter_list storage (Suc gi, 0)"
proof -
  have "storage_rdev_iterator_get storage (gi, ri) = storage_rdev_iterator_get storage (Suc gi, 0)"
    using assms by (subst storage_rdev_iterator_get.simps) simp
  then show ?thesis by (subst (1 2) rdev_iter_list.simps) simp
qed

lemma iter_end: "length (spof_groups storage) \<le> gi \<Longrightarrow> rdev_iter_list storage (gi, ri) = []"
  by (subst rdev_iter_list.simps) (simp add: storage_rdev_iterator_get.simps)

lemma iter_visit:
  assumes gi: "gi < length (spof_groups storage)" and wf: "spof_wf (spof_groups storage ! gi)"
    and ri: "ri < nb_realdevs (spof_groups storage ! gi)"
  shows "rdev_iter_list storage (gi, ri) = members (spof_groups storage ! gi) ! ri # rdev_iter_list storage (gi, Suc ri)"
proof -
  let ?sg = "spof_groups storage ! gi"
  have "take (nb_realdevs ?sg) (realdevs ?sg) ! ri = Some (members ?sg ! ri)"
    using ri length_members [OF wf] by (simp only: take_realdevs [OF wf]) simp
  then have "realdevs ?sg ! ri = Some (members ?sg ! ri)" using ri by simp
  then have "storage_rdev_iterator_get storage (gi, ri) = (Some (members ?sg ! ri), (gi, Suc ri))"
    using gi ri by (subst storage_rdev_iterator_get.simps) (simp add: Let_def)
  then show ?thesis by (subst rdev_iter_list.simps) simp
qed

lemma iter_group:
  assumes gi: "gi < length (spof_groups storage)" and wf: "spof_wf (spof_groups storage ! gi)"
  shows "rdev_iter_list storage (gi, ri) = drop ri (members (spof_groups storage ! gi)) @ rdev_iter_list storage (Suc gi, 0)"
proof (induction "nb_realdevs (spof_groups storage ! gi) - ri" arbitrary: ri)
  case 0
  then show ?case using iter_skip [OF gi] length_members [OF wf] by simp
next
  case (Suc k)
  then have "ri < length (members (spof_groups storage ! gi))" using length_members [OF wf] by simp
  then have "drop ri (members (spof_groups storage ! gi)) =
      members (spof_groups storage ! gi) ! ri # drop (Suc ri) (members (spof_groups storage ! gi))"
    by (simp add: Cons_nth_drop_Suc)
  with Suc iter_visit [OF gi wf, of ri] show ?case by simp
qed

lemma iter_groups:
  assumes wf: "\<forall>sg \<in> set (spof_groups storage). spof_wf sg"
  shows "rdev_iter_list storage (gi, 0) = concat (map members (drop gi (spof_groups storage)))"
proof (induction "length (spof_groups storage) - gi" arbitrary: gi)
  case 0
  then show ?case by (simp add: iter_end)
next
  case (Suc k)
  then have gi: "gi < length (spof_groups storage)" by simp
  then have "drop gi (spof_groups storage) = spof_groups storage ! gi # drop (Suc gi) (spof_groups storage)"
    by (simp add: Cons_nth_drop_Suc)
  with Suc iter_group [OF gi, of 0] wf gi show ?case by simp
qed

lemma storage_rdevs_eq:
  "storage_wf storage \<Longrightarrow> storage_rdevs storage = concat (map members (spof_groups storage))"
  by (simp add: storage_rdevs_def storage_rdev_iterator_begin_def iter_groups storage_wf_def)

lemma length_storage_rdevs: "storage_wf storage \<Longrightarrow> length (storage_rdevs storage) = storage_get_num_realdevs storage"
proof -
  assume wf: "storage_wf storage"
  have "map (length \<circ> members) (spof_groups storage) = map nb_realdevs (spof_groups storage)"
    using wf by (simp add: storage_wf_def length_members)
  then show ?thesis unfolding storage_rdevs_eq [OF wf] storage_get_num_realdevs_def length_concat map_map by (simp only:)
qed

lemma distinct_storage_rdevs: "storage_wf storage \<Longrightarrow> distinct (storage_rdevs storage)"
  by (simp add: storage_rdevs_eq) (simp add: storage_wf_def)

section \<open>Adding and removing devices\<close>

lemma group_index_Some:
  "group_index sgs spof_id = Some i \<Longrightarrow> i < length sgs \<and> sg_id (sgs ! i) = spof_id"
  by (induction sgs arbitrary: i) (auto split: if_splits)

lemma group_index_None: "group_index sgs spof_id = None \<longleftrightarrow> (\<forall>sg \<in> set sgs. sg_id sg \<noteq> spof_id)"
  by (induction sgs) auto

lemma storage_wf_update:
  assumes wf: "storage_wf storage" and i: "i < length (spof_groups storage)"
    and g: "spof_wf g" "sg_id g = sg_id (spof_groups storage ! i)"
    and new: "set (members g) \<subseteq> set (members (spof_groups storage ! i)) \<union> R" "R \<inter> set (storage_rdevs storage) = {}"
  shows "storage_wf (storage\<lparr>spof_groups := (spof_groups storage)[i := g]\<rparr>)"
proof -
  let ?gs = "spof_groups storage" and ?old = "spof_groups storage ! i"
  have split: "?gs = take i ?gs @ ?old # drop (Suc i) ?gs" using i by (rule id_take_nth_drop)
  have upd: "?gs[i := g] = take i ?gs @ g # drop (Suc i) ?gs" using i by (rule upd_conv_take_nth_drop)
  have "distinct (concat (map members ?gs))" using wf by (simp add: storage_wf_def)
  then have d: "distinct (concat (map members (take i ?gs @ ?old # drop (Suc i) ?gs)))" using split by simp
  have R: "R \<inter> set (concat (map members (take i ?gs @ ?old # drop (Suc i) ?gs))) = {}"
    using new(2) storage_rdevs_eq [OF wf] split by simp
  have "distinct (members g)" using g(1) by (rule spof_wfD)
  then have "distinct (concat (map members (?gs[i := g])))"
    unfolding upd using d R new(1) by (auto simp del: set_concat simp: set_concat [symmetric])
  moreover have "map sg_id (?gs[i := g]) = map sg_id ?gs"
    using i g(2) by (simp add: map_update) (metis list_update_id nth_map)
  moreover have "\<forall>sg \<in> set (?gs[i := g]). spof_wf sg \<and> SPOF_ID_IS_VALID (sg_id sg)"
    using wf i g set_update_subset_insert [of ?gs i g] by (fastforce simp: storage_wf_def)
  ultimately show ?thesis using wf by (simp add: storage_wf_def)
qed

lemma storage_wf_new_group:
  assumes wf: "storage_wf storage" and id': "SPOF_ID_IS_VALID spof_id" "\<forall>sg \<in> set (spof_groups storage). sg_id sg \<noteq> spof_id"
    and room: "length (spof_groups storage) < EXA_MAX_NODES_NUMBER"
  shows "storage_wf (storage\<lparr>spof_groups := spof_groups storage @ [spof_group_init\<lparr>sg_id := spof_id\<rparr>]\<rparr>)"
    and "storage_rdevs (storage\<lparr>spof_groups := spof_groups storage @ [spof_group_init\<lparr>sg_id := spof_id\<rparr>]\<rparr>) = storage_rdevs storage"
proof -
  let ?g = "spof_group_init\<lparr>sg_id := spof_id\<rparr>"
  have g: "spof_wf ?g" "members ?g = []"
    using spof_wf_init by (simp_all add: spof_wf_def members_def)
  show wf': "storage_wf (storage\<lparr>spof_groups := spof_groups storage @ [?g]\<rparr>)"
    using wf id' room g by (auto simp: storage_wf_def)
  show "storage_rdevs (storage\<lparr>spof_groups := spof_groups storage @ [?g]\<rparr>) = storage_rdevs storage"
    using storage_rdevs_eq [OF wf] storage_rdevs_eq [OF wf'] g(2) by simp
qed

lemma storage_rdevs_update:
  assumes "storage_wf storage" "i < length (spof_groups storage)"
    and "storage_wf (storage\<lparr>spof_groups := (spof_groups storage)[i := g]\<rparr>)"
  shows "set (storage_rdevs (storage\<lparr>spof_groups := (spof_groups storage)[i := g]\<rparr>)) =
    (set (storage_rdevs storage) - set (members (spof_groups storage ! i))) \<union> set (members g)"
proof -
  let ?gs = "spof_groups storage"
  have split: "?gs = take i ?gs @ ?gs ! i # drop (Suc i) ?gs" using assms(2) by (rule id_take_nth_drop)
  have upd: "?gs[i := g] = take i ?gs @ g # drop (Suc i) ?gs" using assms(2) by (rule upd_conv_take_nth_drop)
  have "distinct (concat (map members (take i ?gs @ ?gs ! i # drop (Suc i) ?gs)))"
    using assms(1) split by (simp add: storage_wf_def)
  then have "set (concat (map members (take i ?gs @ ?gs ! i # drop (Suc i) ?gs))) - set (members (?gs ! i)) =
      set (concat (map members (take i ?gs @ drop (Suc i) ?gs)))" by auto
  then show ?thesis
    unfolding storage_rdevs_eq [OF assms(1)] storage_rdevs_eq [OF assms(3)] using split
    by (simp only: storage.simps upd) auto
qed

lemma add_rdev_to_group:
  assumes wf: "storage_wf storage" and i: "i < length (spof_groups storage)" and new: "rdev \<notin> set (storage_rdevs storage)"
  shows "case spof_group_add_rdev (spof_groups storage ! i) rdev of
      Inl err \<Rightarrow> err = ENOSPC
    | Inr g \<Rightarrow> storage_wf (storage\<lparr>spof_groups := (spof_groups storage)[i := g]\<rparr>) \<and>
        set (storage_rdevs (storage\<lparr>spof_groups := (spof_groups storage)[i := g]\<rparr>)) = insert rdev (set (storage_rdevs storage))"
proof -
  let ?sg = "spof_groups storage ! i"
  have sg: "spof_wf ?sg" "set (members ?sg) \<subseteq> set (storage_rdevs storage)"
    using wf i storage_rdevs_eq [OF wf] by (auto simp: storage_wf_def intro!: bexI [of _ ?sg])
  then have "rdev \<notin> set (members ?sg)" using new by blast
  from add_rdev_ok [OF sg(1) this] show ?thesis
  proof (cases "nb_realdevs ?sg < NBMAX_DISKS_PER_SPOF_GROUP")
    case True
    with add_rdev_ok [OF sg(1) \<open>rdev \<notin> set (members ?sg)\<close>] obtain g where g: "spof_group_add_rdev ?sg rdev = Inr g"
      "spof_wf g" "members g = members ?sg @ [rdev]" "sg_id g = sg_id ?sg" by auto
    have "storage_wf (storage\<lparr>spof_groups := (spof_groups storage)[i := g]\<rparr>)"
      by (rule storage_wf_update [OF wf i g(2,4), of "{rdev}"]) (use g(3) new in auto)
    with storage_rdevs_update [OF wf i this] g sg(2) show ?thesis by auto
  next
    case False
    with add_rdev_ok [OF sg(1) \<open>rdev \<notin> set (members ?sg)\<close>] show ?thesis by simp
  qed
qed

lemma storage_add_rdev_ok:
  assumes wf: "storage_wf storage" and new: "rdev \<notin> set (storage_rdevs storage)"
  shows "case storage_add_rdev storage spof_id rdev of
      (Inl err, storage') \<Rightarrow> (err = EINVAL \<or> err = ENOSPC) \<and> storage_wf storage' \<and> set (storage_rdevs storage') = set (storage_rdevs storage)
    | (Inr _, storage') \<Rightarrow> storage_wf storage' \<and> set (storage_rdevs storage') = insert rdev (set (storage_rdevs storage))"
proof (cases "\<not> SPOF_ID_IS_VALID spof_id \<or> storage_get_num_realdevs storage = NBMAX_DISKS_PER_GROUP")
  case True
  then show ?thesis using wf by (auto simp: storage_add_rdev_def)
next
  case False
  show ?thesis
  proof (cases "storage_get_spof_group_by_id storage spof_id")
    case (Some i)
    then have "i < length (spof_groups storage)" using group_index_Some by (auto simp: storage_get_spof_group_by_id_def)
    from add_rdev_to_group [OF wf this new] Some False wf show ?thesis
      by (auto simp: storage_add_rdev_def split: sum.splits)
  next
    case None
    then have none: "\<forall>sg \<in> set (spof_groups storage). sg_id sg \<noteq> spof_id"
      by (simp add: storage_get_spof_group_by_id_def group_index_None)
    show ?thesis
    proof (cases "length (spof_groups storage) = EXA_MAX_NODES_NUMBER")
      case True
      then show ?thesis using False None none wf by (simp add: storage_add_rdev_def storage_add_spof_group_def)
    next
      case room: False
      define st n where "st = storage\<lparr>spof_groups := spof_groups storage @ [spof_group_init\<lparr>sg_id := spof_id\<rparr>]\<rparr>"
        and "n = length (spof_groups storage)"
      have lt: "length (spof_groups storage) < EXA_MAX_NODES_NUMBER" using room wf by (simp add: storage_wf_def)
      have st: "storage_wf st" "storage_rdevs st = storage_rdevs storage"
        using storage_wf_new_group [OF wf _ none lt] False by (simp_all add: st_def)
      have i: "n < length (spof_groups st)" by (simp add: st_def n_def)
      have eq: "storage_add_rdev storage spof_id rdev =
          (case spof_group_add_rdev (spof_groups st ! n) rdev of
             Inl err \<Rightarrow> (Inl err, st)
           | Inr g \<Rightarrow> (Inr (), st\<lparr>spof_groups := (spof_groups st)[n := g]\<rparr>))"
      proof -
        have "storage_add_spof_group storage spof_id = Inr (n, st)"
          using False none room by (simp add: storage_add_spof_group_def st_def n_def)
        then show ?thesis using False None by (simp add: storage_add_rdev_def)
      qed
      show ?thesis
        using add_rdev_to_group [OF st(1) i, of rdev] new st
        by (cases "spof_group_add_rdev (spof_groups st ! n) rdev") (simp_all add: eq)
    qed
  qed
qed

lemma storage_del_rdev_ok:
  assumes wf: "storage_wf storage"
  shows "case storage_del_rdev storage spof_id rdev of
      (Inl err, storage') \<Rightarrow> (err = EINVAL \<or> err = ENOENT) \<and> storage' = storage
    | (Inr _, storage') \<Rightarrow> storage_wf storage' \<and> rdev \<in> set (storage_rdevs storage) \<and>
        set (storage_rdevs storage') = set (storage_rdevs storage) - {rdev}"
proof (cases "SPOF_ID_IS_VALID spof_id \<and> group_index (spof_groups storage) spof_id \<noteq> None")
  case False
  then show ?thesis by (auto simp: storage_del_rdev_def split: option.splits)
next
  case True
  then obtain i where i: "group_index (spof_groups storage) spof_id = Some i" by auto
  let ?sg = "spof_groups storage ! i"
  have lt: "i < length (spof_groups storage)" using group_index_Some [OF i] by simp
  have sg: "spof_wf ?sg" "set (members ?sg) \<subseteq> set (storage_rdevs storage)"
    using wf lt storage_rdevs_eq [OF wf] by (auto simp: storage_wf_def intro!: bexI [of _ ?sg])
  show ?thesis
  proof (cases "rdev \<in> set (members ?sg)")
    case mem: True
    then obtain as bs where m: "members ?sg = as @ rdev # bs" by (meson split_list)
    with del_rdev_ok [OF sg(1) m] obtain g where g: "spof_group_del_rdev ?sg rdev = Inr g" "spof_wf g"
      "members g = as @ bs" "sg_id g = sg_id ?sg" by blast
    have d: "rdev \<notin> set as \<union> set bs" using spof_wfD(4) [OF sg(1)] m by auto
    have wf': "storage_wf (storage\<lparr>spof_groups := (spof_groups storage)[i := g]\<rparr>)"
      by (rule storage_wf_update [OF wf lt g(2,4), of "{}"]) (use g(3) m in auto)
    have "set (storage_rdevs (storage\<lparr>spof_groups := (spof_groups storage)[i := g]\<rparr>)) = set (storage_rdevs storage) - {rdev}"
      using storage_rdevs_update [OF wf lt wf'] g(3) m d sg(2) by auto
    with wf' True i g mem sg(2) show ?thesis by (auto simp: storage_del_rdev_def)
  next
    case False
    then show ?thesis using True i del_rdev_absent [OF sg(1)] by (simp add: storage_del_rdev_def)
  qed
qed

section \<open>Cutting\<close>

lemma add_first_values:
  assumes "extents_wf xs" "n < 2 ^ 64"
  shows "\<exists>ys. for_each (\<lambda>i free. extent_list_add_value free (of_nat i)) [0..<n] xs = Some ys \<and> extents_wf ys \<and>
    unat ` values_of ys = {..<n} \<union> unat ` values_of xs"
  using assms(2)
proof (induction n)
  case 0
  then show ?case using assms(1) by simp
next
  case (Suc n)
  then obtain ys where ys: "for_each (\<lambda>i free. extent_list_add_value free (of_nat i)) [0..<n] xs = Some ys" "extents_wf ys"
    "unat ` values_of ys = {..<n} \<union> unat ` values_of xs" by auto
  have u: "unat (of_nat n :: 64 word) = n" using Suc.prems by (simp add: unat_of_nat)
  have "(of_nat n :: 64 word) \<noteq> - 1"
  proof
    assume "(of_nat n :: 64 word) = - 1"
    then have "n = unat (- 1 :: 64 word)" using u by simp
    with Suc.prems show False by (simp add: unsigned_minus_1_eq_mask mask_eq_exp_minus_1)
  qed
  from add_value_spec [OF ys(2) this] obtain zs where "extent_list_add_value ys (of_nat n) = Some zs" "extents_wf zs"
    "values_of zs = insert (of_nat n) (values_of ys)" by blast
  with ys u show ?case by (auto simp: for_each_append)
qed

lemma initialize_chunks_ok:
  assumes fresh: "free_chunks r = []" and n: "n < 4294967296" and cs: "KBYTES_2_SECTORS (chunk_size storage) \<noteq> 0"
  shows "\<exists>r'. storage_initialize_rdev_chunks_info storage (of_nat n) r = Some r' \<and> rdev_ok r' \<and>
    free_idx r' = {..<n} \<and> unat (total_chunks_count r') = n \<and> rdev_chunk_size r' = KBYTES_2_SECTORS (chunk_size storage) \<and>
    rdev_uuid r' = rdev_uuid r"
proof -
  have u: "unat (of_nat n :: 64 word) = n" "unat (of_nat n :: 32 word) = n" using n by (simp_all add: unat_of_nat)
  obtain ys where ys: "for_each (\<lambda>i free. extent_list_add_value free (of_nat i)) [0..<n] [] = Some ys" "extents_wf ys"
    "unat ` values_of ys = {..<n}" using add_first_values [of "[]" n] n by auto
  let ?r = "r\<lparr>rdev_chunk_size := KBYTES_2_SECTORS (chunk_size storage), total_chunks_count := of_nat n,
    free_chunks_count := of_nat n, free_chunks := ys\<rparr>"
  have "card (values_of ys) = card (unat ` values_of ys)"
    by (rule card_image [symmetric]) (auto simp: inj_on_def intro: unsigned_word_eqI)
  then have "card (values_of ys) = n" using ys(3) by simp
  moreover have "unat v < n" if "v \<in> values_of ys" for v using that ys(3) by blast
  ultimately have "rdev_ok ?r" using ys(2) u(2) cs by (simp add: rdev_ok_def)
  moreover have "storage_initialize_rdev_chunks_info storage (of_nat n) r = Some ?r"
    using ys(1) fresh n u by (simp add: storage_initialize_rdev_chunks_info_def)
  moreover have "free_idx ?r = {..<n}" using ys(3) by (simp add: free_idx_def)
  ultimately show ?thesis using u(2) by auto
qed

text \<open>The number of chunks of a device for a chunk size in kilobytes, and when it can be cut.\<close>

definition chunks_of :: "32 word \<Rightarrow> vrt_realdev \<Rightarrow> nat" where
  "chunks_of cs r = unat (vrt_realdev_get_usable_size r) div (2 * unat cs)"

definition can_cut :: "32 word \<Rightarrow> vrt_realdev \<Rightarrow> bool" where
  "can_cut cs r \<longleftrightarrow> free_chunks r = [] \<and> 2 * unat cs \<le> unat (vrt_realdev_get_usable_size r) \<and> chunks_of cs r < 4294967296"

definition whole_free :: "32 word \<Rightarrow> vrt_realdev \<Rightarrow> vrt_realdev \<Rightarrow> bool" where
  "whole_free cs r r' \<longleftrightarrow> rdev_ok r' \<and> free_idx r' = {..<chunks_of cs r} \<and> unat (total_chunks_count r') = chunks_of cs r \<and>
     unat (rdev_chunk_size r') = 2 * unat cs \<and> rdev_uuid r' = rdev_uuid r"

lemma unat_sectors: "unat cs < 2 ^ 31 \<Longrightarrow> unat (KBYTES_2_SECTORS cs) = 2 * unat cs"
  by (simp add: KBYTES_2_SECTORS_def unat_word_ariths)

lemma cut_rdev_ok:
  assumes cs: "chunk_size storage = cs" "cs \<noteq> 0" "unat cs < 2 ^ 31" and r: "can_cut cs r"
  shows "\<exists>r'. storage_cut_rdev_in_chunks storage r = Some (Inr (), r') \<and> whole_free cs r r'"
proof -
  let ?cs = "KBYTES_2_SECTORS cs" and ?u = "vrt_realdev_get_usable_size r"
  have u: "unat ?cs = 2 * unat cs" using cs(3) by (rule unat_sectors)
  have pos: "0 < unat cs" using cs(2) by (simp add: unat_gt_0)
  then have nz: "?cs \<noteq> 0" using u by (metis mult_is_0 unat_0 zero_less_iff_neq_zero zero_neq_numeral)
  have le: "2 * unat cs \<le> unat ?u" "free_chunks r = []" "chunks_of cs r < 4294967296" using r by (simp_all add: can_cut_def)
  have "?u div ucast ?cs = of_nat (chunks_of cs r)"
    by (simp only: word_arith_nat_div unat_ucast_32 u chunks_of_def)
  moreover have "\<not> (ucast ?cs :: 64 word) > ?u" using le(1) u by (simp add: word_less_nat_alt)
  moreover have "?u > 0" "?cs > 0" using le(1) pos u by (simp_all add: word_less_nat_alt)
  moreover obtain r' where "storage_initialize_rdev_chunks_info storage (of_nat (chunks_of cs r)) r = Some r'"
    "whole_free cs r r'"
    using initialize_chunks_ok [OF le(2,3), of storage] nz cs(1) u by (auto simp: whole_free_def)
  ultimately show ?thesis using cs(1) by (simp add: storage_cut_rdev_in_chunks_def)
qed

lemma cut_rdevs_ok:
  assumes cs: "chunk_size storage = cs" "cs \<noteq> 0" "unat cs < 2 ^ 31"
  shows "distinct rs \<Longrightarrow> \<forall>r \<in> set rs. r < length rdevs \<and> can_cut cs (rdevs ! r) \<Longrightarrow>
    \<exists>rdevs'. cut_rdevs storage rs n rdevs = Some (Inr (n + of_nat (\<Sum>r \<leftarrow> rs. chunks_of cs (rdevs ! r))), rdevs') \<and>
      length rdevs' = length rdevs \<and> (\<forall>r \<in> set rs. whole_free cs (rdevs ! r) (rdevs' ! r)) \<and>
      (\<forall>r. r \<notin> set rs \<longrightarrow> rdevs' ! r = rdevs ! r)"
proof (induction rs arbitrary: n rdevs)
  case (Cons x rs)
  obtain r' where r': "storage_cut_rdev_in_chunks storage (rdevs ! x) = Some (Inr (), r')" "whole_free cs (rdevs ! x) r'"
    using cut_rdev_ok [OF cs, of "rdevs ! x"] Cons.prems by auto
  let ?rdevs = "rdevs[x := r']"
  have same: "r \<noteq> x \<Longrightarrow> ?rdevs ! r = rdevs ! r" for r by simp
  have x: "x \<notin> set rs" using Cons.prems(1) by simp
  then have "\<forall>r \<in> set rs. r < length ?rdevs \<and> can_cut cs (?rdevs ! r)" using Cons.prems(2) same by (metis length_list_update list.set_intros(2))
  with Cons.IH [of ?rdevs "n + ucast (total_chunks_count r')"] Cons.prems(1) obtain rdevs' where
    rdevs': "cut_rdevs storage rs (n + ucast (total_chunks_count r')) ?rdevs =
      Some (Inr (n + ucast (total_chunks_count r') + of_nat (\<Sum>r \<leftarrow> rs. chunks_of cs (?rdevs ! r))), rdevs')"
    "length rdevs' = length rdevs" "\<forall>r \<in> set rs. whole_free cs (?rdevs ! r) (rdevs' ! r)"
    "\<forall>r. r \<notin> set rs \<longrightarrow> rdevs' ! r = ?rdevs ! r" by auto
  have "map (\<lambda>r. chunks_of cs (?rdevs ! r)) rs = map (\<lambda>r. chunks_of cs (rdevs ! r)) rs"
    using x same by (intro map_cong refl) metis
  then have "(\<Sum>r \<leftarrow> rs. chunks_of cs (?rdevs ! r)) = (\<Sum>r \<leftarrow> rs. chunks_of cs (rdevs ! r))" by (simp only:)
  moreover have "ucast (total_chunks_count r') = (of_nat (chunks_of cs (rdevs ! x)) :: 64 word)"
    using r'(2) by (simp add: whole_free_def ucast_32_of_nat)
  ultimately have "cut_rdevs storage (x # rs) n rdevs =
      Some (Inr (n + of_nat (\<Sum>r \<leftarrow> x # rs. chunks_of cs (rdevs ! r))), rdevs')"
    using r'(1) rdevs'(1) by (simp add: add.assoc)
  moreover have "whole_free cs (rdevs ! r) (rdevs' ! r)" if "r \<in> set (x # rs)" for r
  proof (cases "r = x")
    case True
    then show ?thesis using rdevs'(4) x r'(2) Cons.prems(2) by simp
  next
    case False
    then show ?thesis using rdevs'(3) that by auto
  qed
  ultimately show ?case using rdevs'(2,4) by auto
qed simp

lemma chunk_inside_device:
  assumes free: "whole_free cs (rdevs ! r) (rdevs' ! r)" and i: "i < chunks_of cs (rdevs ! r)" and cs: "cs \<noteq> 0"
    and small: "chunks_of cs (rdevs ! r) < 4294967296"
  shows "unat (chunk_offset (chunk_at rdevs' r i)) + 2 * unat cs \<le> unat (real_size (rdevs ! r))"
proof -
  let ?n = "chunks_of cs (rdevs ! r)" and ?u = "vrt_realdev_get_usable_size (rdevs ! r)"
  have size: "unat (rdev_chunk_size (rdevs' ! r)) = 2 * unat cs" using free by (simp add: whole_free_def)
  have "i * (2 * unat cs) + 65536 < 2 ^ 64" using area_bound [of i "rdev_chunk_size (rdevs' ! r)"] i small size by simp
  then have off: "unat (chunk_offset (chunk_at rdevs' r i)) = i * (2 * unat cs) + 65536"
    unfolding chunk_at_def chunk_alloc_def offset_of_def chunk.simps size by (rule unat_of_nat_64)
  have pos: "0 < unat cs" using cs by (simp add: unat_gt_0)
  have "i * (2 * unat cs) + 2 * unat cs = Suc i * (2 * unat cs)" by simp
  also have "\<dots> \<le> ?n * (2 * unat cs)" using i by (intro mult_le_mono1) simp
  also have "\<dots> \<le> unat ?u" by (simp add: chunks_of_def)
  finally have le: "i * (2 * unat cs) + 2 * unat cs \<le> unat ?u" .
  with pos have "unat ?u \<noteq> 0" by simp
  then have "\<not> real_size (rdevs ! r) < VRT_SB_AREA_SIZE" "?u = real_size (rdevs ! r) - VRT_SB_AREA_SIZE"
    by (auto simp: vrt_realdev_get_usable_size_def split: if_splits)
  then have "unat ?u = unat (real_size (rdevs ! r)) - 65536" "65536 \<le> unat (real_size (rdevs ! r))"
    by (simp_all add: VRT_SB_AREA_SIZE_def unat_sub word_le_nat_alt not_less)
  with le off show ?thesis by linarith
qed

section \<open>Properties\<close>


lemma storage_wf_alloc: "storage_wf storage_alloc"
  by (simp add: storage_wf_def storage_alloc_def)



text \<open>A storage of one device of four chunks.\<close>

definition example_storage :: storage where
  "example_storage = \<lparr> spof_groups = [example_group], chunk_size = 8 \<rparr>"

definition example_fresh :: vrt_realdev where
  "example_fresh = example_rdev\<lparr>free_chunks := [], real_size := 65600\<rparr>"

lemma example_storage_wf: "storage_wf example_storage" "storage_rdevs example_storage = [0]"
proof -
  have "sg_id example_group = 1" by (simp add: example_group_def)
  then show wf: "storage_wf example_storage"
    by (simp add: storage_wf_def example_storage_def example_group_wf SPOF_ID_IS_VALID_def EXA_MAX_NODES_NUMBER_def)
  show "storage_rdevs example_storage = [0]"
    using storage_rdevs_eq [OF wf] by (simp add: example_storage_def example_group_wf(2))
qed


section \<open>The round trip through a superblock\<close>

lemma uuid_bytes_inverse [simp]: "of_uuid_bytes (uuid_bytes u) = u" "length (uuid_bytes u) = 16"
  by (cases u; simp add: of_uuid_bytes_def uuid_bytes_def uuid_ids_def)+

definition rdev_record :: "vrt_realdev \<Rightarrow> byte list" where
  "rdev_record r = uuid_bytes (rdev_uuid r) @ le64 (ucast (total_chunks_count r))"

definition header_record :: "storage \<Rightarrow> byte list" where
  "header_record storage = le32 STORAGE_HEADER_MAGIC @ le32 STORAGE_HEADER_FORMAT @ le32 (chunk_size storage) @
     le32 (of_nat (storage_get_num_realdevs storage))"

lemma length_records [simp]: "length (rdev_record r) = 24" "length (header_record storage) = 16"
  by (simp_all add: rdev_record_def header_record_def)

lemma storage_serialize_eq:
  "storage_serialize rdevs storage s =
   write_all stream_write (header_record storage # map (\<lambda>r. rdev_record (rdevs ! r)) (storage_rdevs storage)) s"
proof -
  have "each_io (\<lambda>r. storage_rdev_serialize (rdevs ! r)) rs s = write_all stream_write (concat (map (\<lambda>r. [rdev_record (rdevs ! r)]) rs)) s" for rs s
    by (rule each_io_write_all) (auto simp: storage_rdev_serialize_def rdev_record_def split: prod.splits sum.splits)
  then show ?thesis by (auto simp: storage_serialize_def header_record_def split: prod.splits sum.splits)
qed

lemma rdev_header_read_at:
  assumes "store.at s (rdev_record r @ rest)"
  shows "\<exists>s'. storage_rdev_header_read s =
    (Inr \<lparr> srh_uuid = rdev_uuid r, srh_total_chunks_count = ucast (total_chunks_count r) \<rparr>, s') \<and> store.at s' rest"
  using store.read_exact_at [OF assms, of 24] by (auto simp: storage_rdev_header_read_def rdev_record_def)

lemma header_read_at:
  assumes "store.at s (header_record storage @ rest)"
  shows "\<exists>s'. storage_header_read s =
    (Inr \<lparr> sh_magic = STORAGE_HEADER_MAGIC, sh_format = STORAGE_HEADER_FORMAT, sh_chunk_size = chunk_size storage,
       sh_nb_rdevs = of_nat (storage_get_num_realdevs storage) \<rparr>, s') \<and> store.at s' rest"
  using store.read_exact_at [OF assms, of 16] by (auto simp: storage_header_read_def header_record_def)

text \<open>The device with a given identifier, when the identifiers of the devices are different.\<close>

definition uuids_differ :: "rdevs \<Rightarrow> storage \<Rightarrow> bool" where
  "uuids_differ rdevs storage \<longleftrightarrow> distinct (map (\<lambda>r. rdev_uuid (rdevs ! r)) (storage_rdevs storage))"

lemma find_uuid:
  "distinct (map f rs) \<Longrightarrow> r \<in> set rs \<Longrightarrow> List.find (\<lambda>x. f x = f r) rs = Some r"
  by (induction rs) (auto simp: image_iff)

lemma storage_get_rdev_ok:
  assumes "uuids_differ rdevs storage" "r \<in> set (storage_rdevs storage)"
  shows "storage_get_rdev rdevs storage (rdev_uuid (rdevs ! r)) = Some r"
  using find_uuid [of "\<lambda>r. rdev_uuid (rdevs ! r)" "storage_rdevs storage" r] assms
  by (simp add: storage_get_rdev_def uuids_differ_def)

lemma deserialize_rdevs_ok:
  assumes cs: "KBYTES_2_SECTORS (chunk_size storage) \<noteq> 0" and sub: "set rs \<subseteq> set (storage_rdevs storage)" and d: "distinct rs"
    and uuids: "uuids_differ rdevs storage" "\<forall>r \<in> set (storage_rdevs storage). rdev_uuid (old ! r) = rdev_uuid (rdevs ! r)"
    and fresh: "\<forall>r \<in> set rs. r < length rdevs \<and> free_chunks (rdevs ! r) = []"
    and ahead: "store.at s (concat (map (\<lambda>r. rdev_record (old ! r)) rs) @ rest)"
  shows "\<exists>rdevs' s'. deserialize_rdevs (length rs) storage rdevs s = Some (Inr (), rdevs', s') \<and>
    (\<forall>r. rdev_uuid (rdevs' ! r) = rdev_uuid (rdevs ! r)) \<and> (\<forall>r. r \<notin> set rs \<longrightarrow> rdevs' ! r = rdevs ! r) \<and>
    (\<forall>r \<in> set rs. rdev_ok (rdevs' ! r) \<and> total_chunks_count (rdevs' ! r) = total_chunks_count (old ! r) \<and>
      free_idx (rdevs' ! r) = {..<unat (total_chunks_count (old ! r))})"
  using sub d uuids fresh ahead
proof (induction rs arbitrary: rdevs s)
  case Nil
  then show ?case by simp
next
  case (Cons x rs)
  have x: "x \<in> set (storage_rdevs storage)" "x \<notin> set rs" "x < length rdevs" "free_chunks (rdevs ! x) = []"
    using Cons.prems by auto
  obtain s1 where s1: "storage_rdev_header_read s =
      (Inr \<lparr> srh_uuid = rdev_uuid (old ! x), srh_total_chunks_count = ucast (total_chunks_count (old ! x)) \<rparr>, s1)"
    "store.at s1 (concat (map (\<lambda>r. rdev_record (old ! r)) rs) @ rest)"
    using rdev_header_read_at [of s "old ! x"] Cons.prems(6) by auto
  obtain r' where r': "storage_initialize_rdev_chunks_info storage (ucast (total_chunks_count (old ! x))) (rdevs ! x) = Some r'"
    "rdev_ok r'" "free_idx r' = {..<unat (total_chunks_count (old ! x))}" "unat (total_chunks_count r') = unat (total_chunks_count (old ! x))"
    "rdev_uuid r' = rdev_uuid (rdevs ! x)"
    using initialize_chunks_ok [OF x(4) unat_32_less cs, of "total_chunks_count (old ! x)"]
    unfolding ucast_32_of_nat by blast
  let ?rdevs = "rdevs[x := r']"
  have uuid: "rdev_uuid (?rdevs ! r) = rdev_uuid (rdevs ! r)" for r
    using r'(5) x(3) by (cases "r = x") auto
  have "storage_get_rdev rdevs storage (rdev_uuid (old ! x)) = Some x"
    using storage_get_rdev_ok [OF Cons.prems(3) x(1)] Cons.prems(4) x(1) by simp
  then have step: "storage_rdev_deserialize storage rdevs s = Some (Inr x, ?rdevs, s1)"
    using s1(1) r'(1) by (simp add: storage_rdev_deserialize_def)
  have same: "r \<noteq> x \<Longrightarrow> ?rdevs ! r = rdevs ! r" for r by simp
  have "uuids_differ ?rdevs storage" using Cons.prems(3) uuid by (simp add: uuids_differ_def)
  moreover have "\<forall>r \<in> set (storage_rdevs storage). rdev_uuid (old ! r) = rdev_uuid (?rdevs ! r)"
    using Cons.prems(4) uuid by simp
  moreover have "\<forall>r \<in> set rs. r < length ?rdevs \<and> free_chunks (?rdevs ! r) = []"
    using Cons.prems(5) x(2) same by (metis length_list_update list.set_intros(2))
  ultimately obtain rdevs' s' where IH: "deserialize_rdevs (length rs) storage ?rdevs s1 = Some (Inr (), rdevs', s')"
    "\<forall>r. rdev_uuid (rdevs' ! r) = rdev_uuid (?rdevs ! r)" "\<forall>r. r \<notin> set rs \<longrightarrow> rdevs' ! r = ?rdevs ! r"
    "\<forall>r \<in> set rs. rdev_ok (rdevs' ! r) \<and> total_chunks_count (rdevs' ! r) = total_chunks_count (old ! r) \<and>
      free_idx (rdevs' ! r) = {..<unat (total_chunks_count (old ! r))}"
    using Cons.IH [of ?rdevs s1] Cons.prems(1,2) s1(2) by auto
  have "rdevs' ! x = r'" using IH(3) x by simp
  moreover have "total_chunks_count r' = total_chunks_count (old ! x)" using r'(4) by (rule unsigned_word_eqI)
  ultimately show ?case using step IH r' uuid by auto
qed

lemma num_realdevs_bound: "storage_wf storage \<Longrightarrow> storage_get_num_realdevs storage < 4294967296"
proof -
  assume wf: "storage_wf storage"
  have "sum_list (map nb_realdevs (spof_groups storage)) \<le> sum_list (map (\<lambda>_. NBMAX_DISKS_PER_SPOF_GROUP) (spof_groups storage))"
    using wf by (intro sum_list_mono) (auto simp: storage_wf_def dest: spof_wfD)
  also have "\<dots> \<le> EXA_MAX_NODES_NUMBER * NBMAX_DISKS_PER_SPOF_GROUP"
    using wf by (simp add: sum_list_triv storage_wf_def)
  finally show ?thesis
    by (simp add: storage_get_num_realdevs_def EXA_MAX_NODES_NUMBER_def NBMAX_DISKS_PER_SPOF_GROUP_def)
qed



end
