(* ===== verification/Vrt_Pool.thy ===== *)
theory Vrt_Pool
  imports Exa_Prelude "HOL-Library.Multiset"
begin

text \<open>
  The interface between the assembly of slots and the storage that gives the chunks. A pool has
  failure domains, numbered from 0; a chunk is taken from a domain and put back, and the pool
  knows how many chunks each domain has free. The contract \<open>chunk_pool\<close> is what the assembly
  relies on; its laws are about the list of the chunks that are held. Inside it, the greedy
  assembly (every slot takes a chunk from each of the domains with the most free chunks) is
  shown to make as many slots as the counting condition allows, and no more.
\<close>

section \<open>The greedy choice\<close>

text \<open>The counting condition over domains: \<open>S\<close> slots of \<open>w\<close> chunks, at most one from each domain.\<close>

definition dom_fit :: "nat \<Rightarrow> nat \<Rightarrow> (nat \<Rightarrow> nat) \<Rightarrow> nat \<Rightarrow> bool" where
  "dom_fit n w cs S \<longleftrightarrow> w * S \<le> (\<Sum>d < n. min (cs d) S)"

text \<open>A choice of domains such that no other domain has more free chunks.\<close>

definition top_choice :: "nat \<Rightarrow> (nat \<Rightarrow> nat) \<Rightarrow> nat list \<Rightarrow> bool" where
  "top_choice n cs ds \<longleftrightarrow> distinct ds \<and> set ds \<subseteq> {..<n} \<and> (\<forall>d \<in> set ds. \<forall>e \<in> {..<n} - set ds. cs e \<le> cs d)"

definition take_one :: "nat list \<Rightarrow> (nat \<Rightarrow> nat) \<Rightarrow> nat \<Rightarrow> nat" where
  "take_one ds cs d = (if d \<in> set ds then cs d - 1 else cs d)"

lemma dom_split:
  assumes "set ds \<subseteq> {..<n :: nat}"
  shows "(\<Sum>d < n. f d) = (\<Sum>d \<in> set ds. f d) + (\<Sum>d \<in> {..<n} - set ds. (f d :: nat))"
  using sum.subset_diff [OF assms, of f] by (simp add: add.commute)

lemma greedy_positive:
  assumes top: "top_choice n cs ds" and fit: "dom_fit n (length ds) cs (Suc S)" and d: "d \<in> set ds"
  shows "0 < cs d"
proof (rule ccontr)
  assume "\<not> 0 < cs d"
  then have zero: "cs d = 0" by simp
  have sub: "set ds \<subseteq> {..<n}" and dist: "distinct ds" using top by (simp_all add: top_choice_def)
  have "cs e = 0" if "e \<in> {..<n} - set ds" for e
    using top that d zero unfolding top_choice_def by fastforce
  then have "(\<Sum>e \<in> {..<n} - set ds. min (cs e) (Suc S)) = 0" by simp
  moreover have "(\<Sum>e \<in> set ds. min (cs e) (Suc S)) = (\<Sum>e \<in> set ds - {d}. min (cs e) (Suc S))"
    using d zero by (simp add: sum.remove)
  moreover have "\<dots> \<le> card (set ds - {d}) * Suc S"
    using sum_bounded_above [of "set ds - {d}" "\<lambda>e. min (cs e) (Suc S)" "Suc S"] by simp
  moreover have "card (set ds - {d}) < length ds"
    using d dist by (cases ds) (auto simp: distinct_card)
  then have "card (set ds - {d}) * Suc S < length ds * Suc S" by (rule mult_less_mono1) simp
  ultimately show False using fit dom_split [OF sub, of "\<lambda>e. min (cs e) (Suc S)"] unfolding dom_fit_def by linarith
qed

lemma greedy_step:
  assumes top: "top_choice n cs ds" and fit: "dom_fit n (length ds) cs (Suc S)"
  shows "dom_fit n (length ds) (take_one ds cs) S"
proof -
  have sub: "set ds \<subseteq> {..<n}" and dist: "distinct ds" using top by (simp_all add: top_choice_def)
  have pos: "0 < cs d" if "d \<in> set ds" for d using greedy_positive [OF top fit that] .
  let ?other = "{..<n} - set ds"
  have split: "(\<Sum>d < n. min (take_one ds cs d) S) = (\<Sum>d \<in> set ds. min (cs d - 1) S) + (\<Sum>d \<in> ?other. min (cs d) S)"
    unfolding dom_split [OF sub, of "\<lambda>d. min (take_one ds cs d) S"] by (simp add: take_one_def)
  show ?thesis
  proof (cases "\<exists>e \<in> ?other. Suc S \<le> cs e")
    case True
    then have "Suc S \<le> cs d" if "d \<in> set ds" for d
      using top that unfolding top_choice_def by (meson order_trans)
    then have "(\<Sum>d \<in> set ds. min (cs d - 1) S) = (\<Sum>d \<in> set ds. S)"
      by (intro sum.cong refl) fastforce
    also have "\<dots> = length ds * S" using dist by (simp add: distinct_card)
    finally show ?thesis using split unfolding dom_fit_def by simp
  next
    case False
    then have "cs e \<le> S" if "e \<in> ?other" for e using that by (meson not_less_eq_eq)
    then have "(\<Sum>d \<in> ?other. min (cs d) S) = (\<Sum>d \<in> ?other. min (cs d) (Suc S))"
      by (intro sum.cong refl) (simp add: min_absorb1 le_SucI)
    moreover have "(\<Sum>d \<in> set ds. min (cs d) (Suc S)) = (\<Sum>d \<in> set ds. min (cs d - 1) S + 1)"
      using pos by (intro sum.cong) (auto simp: min_def)
    then have "(\<Sum>d \<in> set ds. min (cs d) (Suc S)) = (\<Sum>d \<in> set ds. min (cs d - 1) S) + length ds"
      unfolding sum.distrib using dist by (simp add: distinct_card)
    ultimately show ?thesis
      using fit dom_split [OF sub, of "\<lambda>d. min (cs d) (Suc S)"] split unfolding dom_fit_def by simp
  qed
qed

lemma greedy_back:
  assumes sub: "set ds \<subseteq> {..<n}" "distinct ds" and pos: "\<forall>d \<in> set ds. 0 < cs d"
    and fit: "dom_fit n (length ds) (take_one ds cs) S"
  shows "dom_fit n (length ds) cs (Suc S)"
proof -
  have "(\<Sum>d \<in> set ds. min (take_one ds cs d) S + 1) \<le> (\<Sum>d \<in> set ds. min (cs d) (Suc S))"
    using pos by (intro sum_mono) (auto simp: take_one_def)
  moreover have "(\<Sum>d \<in> set ds. min (take_one ds cs d) S + 1) = (\<Sum>d \<in> set ds. min (take_one ds cs d) S) + length ds"
    unfolding sum.distrib using sub(2) by (simp add: distinct_card)
  moreover have "(\<Sum>d \<in> {..<n} - set ds. min (take_one ds cs d) S) \<le> (\<Sum>d \<in> {..<n} - set ds. min (cs d) (Suc S))"
    by (intro sum_mono) (auto simp: take_one_def)
  ultimately show ?thesis
    using fit dom_split [OF sub(1), of "\<lambda>d. min (cs d) (Suc S)"] dom_split [OF sub(1), of "\<lambda>d. min (take_one ds cs d) S"]
    unfolding dom_fit_def by simp
qed

section \<open>Loops that take\<close>

text \<open>Take a chunk from each of several domains, and repeat an operation that makes something.\<close>

primrec take_each :: "('d \<Rightarrow> 's \<Rightarrow> ('c \<times> 's) option) \<Rightarrow> 'd list \<Rightarrow> 's \<Rightarrow> ('c list \<times> 's) option" where
  "take_each get [] s = Some ([], s)"
| "take_each get (d # ds) s = do {
     (c, s) \<leftarrow> get d s;
     (cs, s) \<leftarrow> take_each get ds s;
     Some (c # cs, s) }"

primrec make_times :: "('s \<Rightarrow> ('a \<times> 's) option) \<Rightarrow> nat \<Rightarrow> 's \<Rightarrow> ('a list \<times> 's) option" where
  "make_times mk 0 s = Some ([], s)"
| "make_times mk (Suc n) s = do {
     (x, s) \<leftarrow> mk s;
     (xs, s) \<leftarrow> make_times mk n s;
     Some (x # xs, s) }"

section \<open>The contract of a pool\<close>

locale chunk_pool =
  fixes get :: "nat \<Rightarrow> 's \<Rightarrow> ('c \<times> 's) option" and put :: "'c \<Rightarrow> 's \<Rightarrow> 's option"
    and free :: "'s \<Rightarrow> nat \<Rightarrow> nat" and dom_of :: "'c \<Rightarrow> nat" and ndoms :: nat
    and same :: "'s \<Rightarrow> 's \<Rightarrow> bool" and ok :: "'s \<Rightarrow> 'c list \<Rightarrow> bool"
  assumes get_law: "ok s held \<Longrightarrow> d < ndoms \<Longrightarrow> 0 < free s d \<Longrightarrow>
      \<exists>c s'. get d s = Some (c, s') \<and> ok s' (c # held) \<and> dom_of c = d \<and> free s' = (free s)(d := free s d - 1) \<and> same s s'"
    and get_empty: "ok s held \<Longrightarrow> d < ndoms \<Longrightarrow> free s d = 0 \<Longrightarrow> get d s = None"
    and put_law: "ok s (c # held) \<Longrightarrow>
      \<exists>s'. put c s = Some s' \<and> ok s' held \<and> free s' = (free s)(dom_of c := free s (dom_of c) + 1) \<and> same s s'"
    and ok_perm: "ok s held \<Longrightarrow> mset held = mset held' \<Longrightarrow> ok s held'"
    and same_refl: "same s s"
    and same_trans: "same s s' \<Longrightarrow> same s' s'' \<Longrightarrow> same s s''"
    and canonical: "ok s held \<Longrightarrow> ok s' held \<Longrightarrow> same s s' \<Longrightarrow> s = s'"
begin

lemma put_all:
  "ok s (cs @ held) \<Longrightarrow> \<exists>s'. for_each put cs s = Some s' \<and> ok s' held \<and> same s s'"
proof (induction cs arbitrary: s)
  case Nil
  then show ?case by (simp add: same_refl)
next
  case (Cons c cs)
  then obtain s1 where s1: "put c s = Some s1" "ok s1 (cs @ held)" "same s s1" using put_law [of s c "cs @ held"] by auto
  with Cons.IH [OF s1(2)] same_trans [OF s1(3)] show ?case by auto
qed

lemma take_each_ok:
  "ok s held \<Longrightarrow> distinct ds \<Longrightarrow> set ds \<subseteq> {..<ndoms} \<Longrightarrow> \<forall>d \<in> set ds. 0 < free s d \<Longrightarrow>
   \<exists>cs s'. take_each get ds s = Some (cs, s') \<and> ok s' (cs @ held) \<and> map dom_of cs = ds \<and>
     free s' = take_one ds (free s) \<and> same s s'"
proof (induction ds arbitrary: s held)
  case Nil
  then show ?case by (simp add: same_refl take_one_def fun_eq_iff)
next
  case (Cons d ds)
  obtain c s1 where s1: "get d s = Some (c, s1)" "ok s1 (c # held)" "dom_of c = d" "free s1 = (free s)(d := free s d - 1)" "same s s1"
    using get_law [OF Cons.prems(1), of d] Cons.prems by auto
  have "\<forall>e \<in> set ds. 0 < free s1 e" using s1(4) Cons.prems(2,4) by auto
  with Cons.IH [OF s1(2)] Cons.prems obtain cs s2 where s2: "take_each get ds s1 = Some (cs, s2)" "ok s2 (cs @ c # held)"
    "map dom_of cs = ds" "free s2 = take_one ds (free s1)" "same s1 s2" by auto
  have "ok s2 ((c # cs) @ held)" using s2(2) by (rule ok_perm) simp
  moreover have "free s2 = take_one (d # ds) (free s)"
    using s2(4) s1(4) Cons.prems(2) by (auto simp: take_one_def fun_eq_iff)
  ultimately show ?case using s1 s2 same_trans [OF s1(5) s2(5)] by auto
qed

lemma take_each_short:
  "ok s held \<Longrightarrow> distinct ds \<Longrightarrow> set ds \<subseteq> {..<ndoms} \<Longrightarrow> \<exists>d \<in> set ds. free s d = 0 \<Longrightarrow> take_each get ds s = None"
proof (induction ds arbitrary: s held)
  case (Cons d ds)
  show ?case
  proof (cases "free s d = 0")
    case True
    then show ?thesis using get_empty [OF Cons.prems(1)] Cons.prems(3) by simp
  next
    case False
    obtain c s1 where s1: "get d s = Some (c, s1)" "ok s1 (c # held)" "free s1 = (free s)(d := free s d - 1)"
      using get_law [OF Cons.prems(1), of d] Cons.prems(3) False by auto
    have "\<exists>e \<in> set ds. free s1 e = 0" using Cons.prems(2,4) False s1(3) by auto
    with Cons.IH [OF s1(2)] Cons.prems s1(1) show ?thesis by auto
  qed
qed simp

text \<open>The greedy assembly of \<open>N\<close> slots succeeds exactly when the counting condition holds; every slot
  then has its chunks in different domains, and every chunk is accounted for.\<close>

lemma greedy_slots:
  assumes pick: "\<forall>s held. ok s held \<longrightarrow> top_choice ndoms (free s) (pick s) \<and> length (pick s) = w"
  shows "ok s held \<Longrightarrow>
    (if dom_fit ndoms w (free s) N
     then \<exists>slots s'. make_times (\<lambda>s. take_each get (pick s) s) N s = Some (slots, s') \<and> length slots = N \<and>
       (\<forall>cs \<in> set slots. length cs = w \<and> distinct (map dom_of cs)) \<and> ok s' (concat slots @ held) \<and> same s s'
     else make_times (\<lambda>s. take_each get (pick s) s) N s = None)"
proof (induction N arbitrary: s held)
  case 0
  then show ?case by (simp add: dom_fit_def same_refl)
next
  case (Suc N)
  let ?mk = "\<lambda>s. take_each get (pick s) s"
  have top: "top_choice ndoms (free s) (pick s)" "length (pick s) = w" using pick Suc.prems by blast+
  then have ds: "distinct (pick s)" "set (pick s) \<subseteq> {..<ndoms}" by (simp_all add: top_choice_def)
  show ?case
  proof (cases "\<forall>d \<in> set (pick s). 0 < free s d")
    case False
    then have "?mk s = None" using take_each_short [OF Suc.prems ds] by auto
    moreover have "\<not> dom_fit ndoms w (free s) (Suc N)" using greedy_positive [OF top(1)] top(2) False by blast
    ultimately show ?thesis by simp
  next
    case True
    obtain cs s1 where s1: "?mk s = Some (cs, s1)" "ok s1 (cs @ held)" "map dom_of cs = pick s"
      "free s1 = take_one (pick s) (free s)" "same s s1" using take_each_ok [OF Suc.prems ds True] by blast
    have cs: "length cs = w" "distinct (map dom_of cs)" using s1(3) top(2) ds(1) by (metis length_map, simp)
    have iff: "dom_fit ndoms w (free s) (Suc N) \<longleftrightarrow> dom_fit ndoms w (free s1) N"
      using greedy_step [OF top(1)] greedy_back [OF ds(2,1) True] top(2) s1(4) by auto
    show ?thesis
    proof (cases "dom_fit ndoms w (free s1) N")
      case fit: True
      from Suc.IH [OF s1(2)] fit obtain slots s2 where s2: "make_times ?mk N s1 = Some (slots, s2)" "length slots = N"
        "\<forall>cs \<in> set slots. length cs = w \<and> distinct (map dom_of cs)" "ok s2 (concat slots @ cs @ held)" "same s1 s2" by auto
      have "ok s2 (concat (cs # slots) @ held)" using s2(4) by (rule ok_perm) simp
      with s1(1) s2 cs iff fit same_trans [OF s1(5) s2(5)] show ?thesis by auto
    next
      case False
      then show ?thesis using Suc.IH [OF s1(2)] s1(1) iff by simp
    qed
  qed
qed

end

end
