(* ===== verification/Vrt_Slot.thy ===== *)
theory Vrt_Slot
  imports Vrt_Pool Vrt_Storage
begin

text \<open>
  Slots (\<open>vrt/assembly/src/assembly_slot.c\<close>). A slot is an array of chunks from different failure
  domains. Making one sorts the domains by their number of free chunks and takes a chunk from
  each of the first ones; freeing it gives the chunks back. The array holds pointers to chunks,
  which may be \<open>NULL\<close>; every use of a \<open>NULL\<close> chunk is a failed assertion. A pointer to a failure
  domain is its index in the array of the storage.

  The storage with its devices is a pool of chunks: \<open>pool\<close> interprets the contract
  \<open>chunk_pool\<close>, for which every chunk of every device is either free or held exactly once.
\<close>

record slot =
  slot_chunks :: "chunk option list"
  slot_width :: "32 word"

definition assembly_slot_map_sector_to_rdev :: "slot \<Rightarrow> nat \<Rightarrow> 64 word \<Rightarrow> (nat \<times> 64 word) option" where
  "assembly_slot_map_sector_to_rdev slot chunk_index offset = do {
     exa_assert (chunk_index < length (slot_chunks slot));
     chunk \<leftarrow> slot_chunks slot ! chunk_index;
     Some (chunk_get_rdev chunk, chunk_get_offset chunk + offset) }"

record spof_info =
  free_count :: "32 word"
  info_group :: nat

text \<open>The differences are taken on 32 bits and returned as an \<open>int\<close>.\<close>

definition spof_info_compare :: "spof_group list \<Rightarrow> spof_info \<Rightarrow> spof_info \<Rightarrow> int" where
  "spof_info_compare groups spof_info1 spof_info2 =
     (if free_count spof_info1 = free_count spof_info2
      then sint (sg_id (groups ! info_group spof_info2) - sg_id (groups ! info_group spof_info1))
      else sint (free_count spof_info2 - free_count spof_info1))"

definition spof_infos :: "spof_group list \<Rightarrow> rdevs \<Rightarrow> spof_info list" where
  "spof_infos groups rdevs = qsort (spof_info_compare groups)
     (map (\<lambda>i. \<lparr> free_count = spof_group_free_chunk_count rdevs (groups ! i), info_group = i \<rparr>)
       [0..<length groups])"

text \<open>Reading the array of the domains beyond its end is undefined.\<close>

definition generic_make_slot :: "spof_group list \<Rightarrow> 32 word \<Rightarrow> rdevs \<Rightarrow> (slot \<times> rdevs) option" where
  "generic_make_slot groups width rdevs = do {
     exa_assert (groups \<noteq> []);
     exa_assert (unat width \<le> length groups);
     (chunks, rdevs) \<leftarrow> take_each (\<lambda>g. spof_group_get_chunk (groups ! g))
       (map info_group (take (unat width) (spof_infos groups rdevs))) rdevs;
     Some (\<lparr> slot_chunks = chunks, slot_width = width \<rparr>, rdevs) }"

definition slot_make :: "spof_group list \<Rightarrow> 32 word \<Rightarrow> rdevs \<Rightarrow> (slot \<times> rdevs) option" where
  "slot_make groups width rdevs = do {
     exa_assert (width > 0);
     generic_make_slot groups width rdevs }"

text \<open>A pointer to a chunk given to an operation that takes a chunk.\<close>

definition put_pointer :: "chunk option \<Rightarrow> rdevs \<Rightarrow> rdevs option" where
  "put_pointer c rdevs = do { chunk \<leftarrow> c; spof_group_put_chunk chunk rdevs }"

definition slot_free :: "slot option \<Rightarrow> rdevs \<Rightarrow> rdevs option" where
  "slot_free slot rdevs =
     (case slot of
        None \<Rightarrow> Some rdevs
      | Some slot \<Rightarrow> for_each put_pointer (take (unat (slot_width slot)) (slot_chunks slot)) rdevs)"

definition slot_equals :: "rdevs \<Rightarrow> slot option \<Rightarrow> slot option \<Rightarrow> bool option" where
  "slot_equals rdevs a b =
     (case (a, b) of
        (Some a, Some b) \<Rightarrow>
          if slot_width a \<noteq> slot_width b then Some False
          else for_all (\<lambda>i. do {
            ca \<leftarrow> slot_chunks a ! i;
            cb \<leftarrow> slot_chunks b ! i;
            Some (chunk_equals rdevs ca cb) }) [0..<unat (slot_width a)]
      | _ \<Rightarrow> Some (a = None \<and> b = None))"

section \<open>Serialisation\<close>

record chunk_header =
  ch_rdev_uuid :: exa_uuid
  ch_offset :: "64 word"

definition chunk_header_read :: "stream \<Rightarrow> (errcode + chunk_header) \<times> stream" where
  "chunk_header_read s =
     (case read_exact stream_read 24 s of
        (Inl err, s') \<Rightarrow> (Inl err, s')
      | (Inr b, s') \<Rightarrow> (Inr \<lparr> ch_rdev_uuid = of_uuid_bytes (take 16 b), ch_offset = of_le64 (drop 16 b) \<rparr>, s'))"

definition chunk_serialize :: "rdevs \<Rightarrow> chunk option \<Rightarrow> stream \<Rightarrow> ((errcode + unit) \<times> stream) option" where
  "chunk_serialize rdevs chunk s = do {
     chunk \<leftarrow> chunk;
     Some (write_exact stream_write
       (uuid_bytes (rdev_uuid (rdevs ! chunk_get_rdev chunk)) @ le64 (chunk_offset chunk)) s) }"

definition chunk_deserialize :: "storage \<Rightarrow> rdevs \<Rightarrow> stream \<Rightarrow> ((errcode + chunk) \<times> rdevs \<times> stream) option" where
  "chunk_deserialize storage rdevs s =
     (case chunk_header_read s of
        (Inl err, s) \<Rightarrow> Some (Inl err, rdevs, s)
      | (Inr header, s) \<Rightarrow>
          (case storage_get_rdev rdevs storage (ch_rdev_uuid header) of
             None \<Rightarrow> Some (Inl VRT_ERR_SB_CORRUPTION, rdevs, s)
           | Some rdev \<Rightarrow> do {
               (chunk, rdevs) \<leftarrow> chunk_get_from_rdev_at_offset rdev (ch_offset header) rdevs;
               Some (Inr chunk, rdevs, s) }))"

definition slot_header_read :: "stream \<Rightarrow> (errcode + 32 word) \<times> stream" where
  "slot_header_read s =
     (case read_exact stream_read 4 s of
        (Inl err, s') \<Rightarrow> (Inl err, s')
      | (Inr b, s') \<Rightarrow> (Inr (of_le32 b), s'))"

definition slot_serialized_size :: "slot \<Rightarrow> 64 word" where
  "slot_serialized_size slot = 4 + ucast (slot_width slot) * 24"

text \<open>The loop over the elements of an array, whose body may also abort.\<close>

primrec each_io_opt ::
  "('a \<Rightarrow> 's \<Rightarrow> ((errcode + unit) \<times> 's) option) \<Rightarrow> 'a list \<Rightarrow> 's \<Rightarrow> ((errcode + unit) \<times> 's) option" where
  "each_io_opt f [] s = Some (Inr (), s)"
| "each_io_opt f (x # xs) s = do {
     (r, s') \<leftarrow> f x s;
     case r of Inl err \<Rightarrow> Some (Inl err, s') | Inr _ \<Rightarrow> each_io_opt f xs s' }"

definition slot_serialize :: "rdevs \<Rightarrow> slot \<Rightarrow> stream \<Rightarrow> ((errcode + unit) \<times> stream) option" where
  "slot_serialize rdevs slot s =
     (case write_exact stream_write (le32 (slot_width slot)) s of
        (Inl err, s') \<Rightarrow> Some (Inl err, s')
      | (Inr _, s') \<Rightarrow> each_io_opt (chunk_serialize rdevs) (take (unat (slot_width slot)) (slot_chunks slot)) s')"

text \<open>The chunks read so far are returned with an error, for they have to be put back.\<close>

primrec deserialize_chunks ::
  "nat \<Rightarrow> storage \<Rightarrow> rdevs \<Rightarrow> stream \<Rightarrow> (errcode option \<times> chunk list \<times> rdevs \<times> stream) option" where
  "deserialize_chunks 0 storage rdevs s = Some (None, [], rdevs, s)"
| "deserialize_chunks (Suc n) storage rdevs s = do {
     (r, rdevs, s) \<leftarrow> chunk_deserialize storage rdevs s;
     case r of
       Inl err \<Rightarrow> Some (Some err, [], rdevs, s)
     | Inr chunk \<Rightarrow> do {
         (err, chunks, rdevs, s) \<leftarrow> deserialize_chunks n storage rdevs s;
         Some (err, chunk # chunks, rdevs, s) } }"

text \<open>When the header cannot be read, the code examines the pointer it was to set, which its caller
  has not initialised: this is undefined.\<close>

definition slot_deserialize :: "storage \<Rightarrow> rdevs \<Rightarrow> stream \<Rightarrow> ((errcode + slot) \<times> rdevs \<times> stream) option" where
  "slot_deserialize storage rdevs s =
     (case slot_header_read s of
        (Inl err, s) \<Rightarrow> None
      | (Inr width, s) \<Rightarrow> do {
          (err, chunks, rdevs, s) \<leftarrow> deserialize_chunks (unat width) storage rdevs s;
          case err of
            None \<Rightarrow> Some (Inr \<lparr> slot_chunks = map Some chunks, slot_width = width \<rparr>, rdevs, s)
          | Some err \<Rightarrow> do {
              rdevs \<leftarrow> for_each chunk_put_to_rdev chunks rdevs;
              Some (Inl err, rdevs, s) } })"

section \<open>The storage as a pool\<close>

text \<open>The number of free chunks of a failure domain, and the failure domain of a chunk.\<close>

definition dom_free :: "storage \<Rightarrow> rdevs \<Rightarrow> nat \<Rightarrow> nat" where
  "dom_free storage rdevs d = (if d < length (spof_groups storage) then free_total rdevs (spof_groups storage ! d) else 0)"

definition dom_of :: "storage \<Rightarrow> chunk option \<Rightarrow> nat" where
  "dom_of storage c = (case c of
     None \<Rightarrow> 0
   | Some c \<Rightarrow> length (takeWhile (\<lambda>sg. chunk_rdev c \<notin> set (members sg)) (spof_groups storage)))"

text \<open>The devices differ in nothing but the free chunks of those of the storage.\<close>

definition pool_same :: "storage \<Rightarrow> rdevs \<Rightarrow> rdevs \<Rightarrow> bool" where
  "pool_same storage rdevs rdevs' \<longleftrightarrow> length rdevs' = length rdevs \<and>
     (\<forall>r < length rdevs. rdev_same (rdevs ! r) (rdevs' ! r) \<and> (r \<notin> set (storage_rdevs storage) \<longrightarrow> rdevs' ! r = rdevs ! r))"

text \<open>The devices are good, and the numbers of chunks and of domains are below \<open>2 ^ 31\<close>, so that the
  comparison of the domains does not overflow; a group has at most 500,000 chunks.\<close>

definition storage_ok :: "storage \<Rightarrow> rdevs \<Rightarrow> bool" where
  "storage_ok storage rdevs \<longleftrightarrow> storage_wf storage \<and>
     (\<forall>r \<in> set (storage_rdevs storage). r < length rdevs \<and> rdev_ok (rdevs ! r)) \<and>
     (\<Sum>r \<leftarrow> storage_rdevs storage. unat (total_chunks_count (rdevs ! r))) < 2 ^ 31 \<and>
     (\<forall>sg \<in> set (spof_groups storage). unat (sg_id sg) < 2 ^ 31)"

text \<open>Every chunk of every device is free or held, never both, and none is held twice.\<close>

definition accounted :: "storage \<Rightarrow> rdevs \<Rightarrow> chunk option list \<Rightarrow> bool" where
  "accounted storage rdevs held \<longleftrightarrow> storage_ok storage rdevs \<and> distinct held \<and>
     (\<forall>c \<in> set held. \<exists>r \<in> set (storage_rdevs storage). \<exists>i < unat (total_chunks_count (rdevs ! r)). c = Some (chunk_at rdevs r i)) \<and>
     (\<forall>r \<in> set (storage_rdevs storage). \<forall>i < unat (total_chunks_count (rdevs ! r)).
       i \<in> free_idx (rdevs ! r) \<longleftrightarrow> Some (chunk_at rdevs r i) \<notin> set held)"

lemma members_in_storage:
  assumes "storage_wf storage" "d < length (spof_groups storage)" "r \<in> set (members (spof_groups storage ! d))"
  shows "r \<in> set (storage_rdevs storage)"
  using assms by (auto simp: storage_rdevs_eq)

lemma dom_of_member:
  assumes wf: "storage_wf storage" and d: "d < length (spof_groups storage)" and r: "r \<in> set (members (spof_groups storage ! d))"
  shows "dom_of storage (Some (chunk_at rdevs r i)) = d"
proof -
  let ?sgs = "spof_groups storage"
  have dist: "distinct (concat (map members ?sgs))" using wf by (simp add: storage_wf_def)
  have split: "?sgs = take d ?sgs @ ?sgs ! d # drop (Suc d) ?sgs" using d by (rule id_take_nth_drop)
  have "\<forall>sg \<in> set (take d ?sgs). r \<notin> set (members sg)"
  proof
    fix sg assume sg: "sg \<in> set (take d ?sgs)"
    have "distinct (concat (map members (take d ?sgs)) @ concat (map members (?sgs ! d # drop (Suc d) ?sgs)))"
      using dist split by (metis concat_append map_append)
    then have "set (concat (map members (take d ?sgs))) \<inter> set (members (?sgs ! d)) = {}" by auto
    with sg r show "r \<notin> set (members sg)" by auto
  qed
  then have "takeWhile (\<lambda>sg. r \<notin> set (members sg)) (take d ?sgs @ ?sgs ! d # drop (Suc d) ?sgs) = take d ?sgs"
    using r by (simp add: takeWhile_append)
  with split d show ?thesis by (simp add: dom_of_def chunk_at_def chunk_alloc_def)
qed

lemma member_exists:
  assumes "storage_wf storage" "r \<in> set (storage_rdevs storage)"
  obtains d where "d < length (spof_groups storage)" "r \<in> set (members (spof_groups storage ! d))"
proof -
  from assms obtain sg where "sg \<in> set (spof_groups storage)" "r \<in> set (members sg)" by (auto simp: storage_rdevs_eq)
  then show thesis by (metis in_set_conv_nth that)
qed

lemma spof_wf_nth: "storage_wf storage \<Longrightarrow> d < length (spof_groups storage) \<Longrightarrow> spof_wf (spof_groups storage ! d)"
  by (simp add: storage_wf_def)

lemma chunk_at_eq_iff:
  assumes "rdev_ok (rdevs ! r)" "i < unat (total_chunks_count (rdevs ! r))" "j < unat (total_chunks_count (rdevs ! x))"
  shows "chunk_at rdevs r i = chunk_at rdevs x j \<longleftrightarrow> r = x \<and> i = j"
proof -
  have "i < 4294967296" "j < 4294967296" using assms unat_32_less less_trans by blast+
  moreover have "rdev_chunk_size (rdevs ! r) \<noteq> 0" using assms(1) by (simp add: rdev_ok_def)
  ultimately show ?thesis using offset_of_inj by (auto simp: chunk_at_def chunk_alloc_def)
qed

lemma chunk_at_update: "rdev_same (rdevs ! r) r' \<Longrightarrow> chunk_at (rdevs[r := r']) x i = chunk_at rdevs x i"
  by (cases "x = r"; cases "r < length rdevs") (simp_all add: chunk_at_def rdev_sameD list_update_beyond)

lemma storage_ok_update:
  assumes "storage_ok storage rdevs" "r \<in> set (storage_rdevs storage)" "rdev_ok r'" "rdev_same (rdevs ! r) r'"
  shows "storage_ok storage (rdevs[r := r'])" "pool_same storage rdevs (rdevs[r := r'])"
proof -
  have t: "total_chunks_count (rdevs[r := r'] ! x) = total_chunks_count (rdevs ! x)" for x
    using assms(4) by (cases "x = r"; cases "r < length rdevs") (simp_all add: rdev_sameD list_update_beyond)
  show "storage_ok storage (rdevs[r := r'])"
    using assms unfolding storage_ok_def t by (auto simp: nth_list_update)
  show "pool_same storage rdevs (rdevs[r := r'])"
    using assms by (auto simp: pool_same_def nth_list_update storage_ok_def)
qed

lemma free_total_sum: "spof_wf sg \<Longrightarrow> free_total rdevs sg = (\<Sum>r \<in> set (members sg). card (free_idx (rdevs ! r)))"
  unfolding free_total_def by (rule sum_list_distinct_conv_sum_set) (rule spof_wfD)

lemma free_total_update:
  assumes "spof_wf sg" "r \<in> set (members sg)" "r < length rdevs"
  shows "free_total (rdevs[r := r']) sg + card (free_idx (rdevs ! r)) = free_total rdevs sg + card (free_idx r')"
proof -
  have "(\<Sum>x \<in> set (members sg). card (free_idx (rdevs[r := r'] ! x))) =
      card (free_idx r') + (\<Sum>x \<in> set (members sg) - {r}. card (free_idx (rdevs ! x)))"
    using assms by (simp add: sum.remove [of _ r])
  moreover have "(\<Sum>x \<in> set (members sg). card (free_idx (rdevs ! x))) =
      card (free_idx (rdevs ! r)) + (\<Sum>x \<in> set (members sg) - {r}. card (free_idx (rdevs ! x)))"
    using assms by (simp add: sum.remove [of _ r])
  ultimately show ?thesis using assms by (simp add: free_total_sum)
qed

lemma free_total_other:
  assumes "spof_wf sg" "r \<notin> set (members sg)"
  shows "free_total (rdevs[r := r']) sg = free_total rdevs sg"
proof -
  have "(\<Sum>x \<in> set (members sg). card (free_idx (rdevs[r := r'] ! x))) = (\<Sum>x \<in> set (members sg). card (free_idx (rdevs ! x)))"
  proof (rule sum.cong [OF refl])
    fix x assume "x \<in> set (members sg)"
    then have "r \<noteq> x" using assms(2) by blast
    then show "card (free_idx (rdevs[r := r'] ! x)) = card (free_idx (rdevs ! x))" by simp
  qed
  then show ?thesis using assms(1) by (simp add: free_total_sum)
qed

text \<open>The effect of a change of one device on the numbers of free chunks of all domains.\<close>

lemma dom_free_update:
  assumes ok: "storage_ok storage rdevs" and d: "d < length (spof_groups storage)" and r: "r \<in> set (members (spof_groups storage ! d))"
    and card: "card (free_idx r') + m = card (free_idx (rdevs ! r)) + n"
  shows "dom_free storage (rdevs[r := r']) = (dom_free storage rdevs)(d := dom_free storage rdevs d + n - m)"
proof
  fix e
  have wf: "storage_wf storage" using ok by (simp add: storage_ok_def)
  have len: "r < length rdevs" using ok members_in_storage [OF wf d r] by (simp add: storage_ok_def)
  show "dom_free storage (rdevs[r := r']) e = ((dom_free storage rdevs)(d := dom_free storage rdevs d + n - m)) e"
  proof (cases "e = d")
    case True
    with free_total_update [OF spof_wf_nth [OF wf d] r len, of r'] card d show ?thesis by (simp add: dom_free_def)
  next
    case False
    have "r \<notin> set (members (spof_groups storage ! e))" if "e < length (spof_groups storage)"
      using dom_of_member [OF wf d r, of undefined 0] dom_of_member [OF wf that, of r undefined 0] False by blast
    with False free_total_other [OF spof_wf_nth [OF wf]] show ?thesis by (simp add: dom_free_def)
  qed
qed

lemma accountedD:
  assumes "accounted storage rdevs held"
  shows "storage_ok storage rdevs" "distinct held"
    "c \<in> set held \<Longrightarrow> \<exists>r \<in> set (storage_rdevs storage). \<exists>i < unat (total_chunks_count (rdevs ! r)). c = Some (chunk_at rdevs r i)"
    "r \<in> set (storage_rdevs storage) \<Longrightarrow> i < unat (total_chunks_count (rdevs ! r)) \<Longrightarrow>
      i \<in> free_idx (rdevs ! r) \<longleftrightarrow> Some (chunk_at rdevs r i) \<notin> set held"
  using assms unfolding accounted_def by blast+

text \<open>A device is replaced by one whose free chunks are those that are not held.\<close>

lemma accounted_update:
  assumes ok: "storage_ok storage rdevs" and r: "r \<in> set (storage_rdevs storage)" and r': "rdev_ok r'" "rdev_same (rdevs ! r) r'"
    and held: "distinct held" "\<forall>c \<in> set held. \<exists>x \<in> set (storage_rdevs storage). \<exists>i < unat (total_chunks_count (rdevs ! x)). c = Some (chunk_at rdevs x i)"
    and free: "\<forall>x \<in> set (storage_rdevs storage). \<forall>i < unat (total_chunks_count (rdevs ! x)).
      i \<in> free_idx (if x = r then r' else rdevs ! x) \<longleftrightarrow> Some (chunk_at rdevs x i) \<notin> set held"
  shows "accounted storage (rdevs[r := r']) held"
proof -
  have len: "r < length rdevs" using ok r by (simp add: storage_ok_def)
  have nth: "rdevs[r := r'] ! x = (if x = r then r' else rdevs ! x)" for x using len by simp
  have tot: "total_chunks_count (if x = r then r' else rdevs ! x) = total_chunks_count (rdevs ! x)" for x
    using r'(2) by (simp add: rdev_sameD)
  show ?thesis
    using storage_ok_update(1) [OF ok r r'] held free
    unfolding accounted_def chunk_at_update [OF r'(2)] nth tot by blast
qed

lemma accounted_take:
  assumes acc: "accounted storage rdevs held" and r: "r \<in> set (storage_rdevs storage)" and i: "i \<in> free_idx (rdevs ! r)"
  shows "accounted storage (rdevs[r := rdev_take (of_nat i) (rdevs ! r)]) (Some (chunk_at rdevs r i) # held)"
    and "pool_same storage rdevs (rdevs[r := rdev_take (of_nat i) (rdevs ! r)])"
proof -
  have ok: "storage_ok storage rdevs" and rok: "rdev_ok (rdevs ! r)"
    using accountedD(1) [OF acc] r by (simp_all add: storage_ok_def)
  note take = rdev_take_ok [OF rok i]
  have less: "i < unat (total_chunks_count (rdevs ! r))" using free_idx_less [OF rok i] .
  show "accounted storage (rdevs[r := rdev_take (of_nat i) (rdevs ! r)]) (Some (chunk_at rdevs r i) # held)"
    using accountedD [OF acc] rok r i less take chunk_at_eq_iff [OF rok less]
    by (intro accounted_update) (auto, metis+)
  show "pool_same storage rdevs (rdevs[r := rdev_take (of_nat i) (rdevs ! r)])"
    using storage_ok_update(2) [OF ok r] take by simp
qed

lemma pool_get:
  assumes acc: "accounted storage rdevs held" and d: "d < length (spof_groups storage)" and free: "0 < dom_free storage rdevs d"
  shows "\<exists>c rdevs'. spof_group_get_chunk (spof_groups storage ! d) rdevs = Some (c, rdevs') \<and> accounted storage rdevs' (c # held) \<and>
    dom_of storage c = d \<and> dom_free storage rdevs' = (dom_free storage rdevs)(d := dom_free storage rdevs d - 1) \<and>
    pool_same storage rdevs rdevs'"
proof -
  have ok: "storage_ok storage rdevs" and wf: "storage_wf storage" using accountedD(1) [OF acc] by (simp_all add: storage_ok_def)
  have mem: "r \<in> set (storage_rdevs storage)" "rdev_ok (rdevs ! r)" if "r \<in> set (members (spof_groups storage ! d))" for r
    using members_in_storage [OF wf d that] ok by (simp_all add: storage_ok_def)
  have "\<exists>r \<in> set (members (spof_groups storage ! d)). free_idx (rdevs ! r) \<noteq> {}"
    using free d free_total_pos by (simp add: dom_free_def)
  with spof_get_chunk_ok [OF spof_wf_nth [OF wf d]] mem(2) obtain r i where r: "r \<in> set (members (spof_groups storage ! d))"
    "i \<in> free_idx (rdevs ! r)"
    "spof_group_get_chunk (spof_groups storage ! d) rdevs = Some (Some (chunk_at rdevs r i), rdevs[r := rdev_take (of_nat i) (rdevs ! r)])"
    by blast
  note take = rdev_take_ok [OF mem(2) [OF r(1)] r(2)]
  note acc' = accounted_take [OF acc mem(1) [OF r(1)] r(2)]
  have "dom_free storage (rdevs[r := rdev_take (of_nat i) (rdevs ! r)]) = (dom_free storage rdevs)(d := dom_free storage rdevs d - 1)"
    using dom_free_update [OF ok d r(1), of _ 1 0] take r(2) card_Suc_Diff1 [of "free_idx (rdevs ! r)" i] by simp
  then show ?thesis using r(3) dom_of_member [OF wf d r(1)] acc' by blast
qed

lemma pool_empty:
  assumes acc: "accounted storage rdevs held" and d: "d < length (spof_groups storage)" and free: "dom_free storage rdevs d = 0"
  shows "spof_group_get_chunk (spof_groups storage ! d) rdevs = None"
proof -
  have ok: "storage_ok storage rdevs" and wf: "storage_wf storage" using accountedD(1) [OF acc] by (simp_all add: storage_ok_def)
  have "free_chunks_count (rdevs ! r) = 0" if "r \<in> set (members (spof_groups storage ! d))" for r
    using members_in_storage [OF wf d that] ok free d that free_total_pos [of rdevs "spof_groups storage ! d"] no_free_iff
    by (auto simp: storage_ok_def dom_free_def)
  then have "least_used_loop rdevs (map Some ms) None = Some None" if "set ms \<subseteq> set (members (spof_groups storage ! d))" for ms
    using that by (induction ms) auto
  then show ?thesis
    using take_realdevs [OF spof_wf_nth [OF wf d]] by (simp add: spof_group_get_chunk_def least_used_rdev_def)
qed

lemma pool_put:
  assumes acc: "accounted storage rdevs (c # held)"
  shows "\<exists>rdevs'. put_pointer c rdevs = Some rdevs' \<and> accounted storage rdevs' held \<and>
    dom_free storage rdevs' = (dom_free storage rdevs)(dom_of storage c := dom_free storage rdevs (dom_of storage c) + 1) \<and>
    pool_same storage rdevs rdevs'"
proof -
  have ok: "storage_ok storage rdevs" and wf: "storage_wf storage" using accountedD(1) [OF acc] by (simp_all add: storage_ok_def)
  obtain r i where r: "r \<in> set (storage_rdevs storage)" "i < unat (total_chunks_count (rdevs ! r))" "c = Some (chunk_at rdevs r i)"
    using accountedD(3) [OF acc, of c] by auto
  have rok: "rdev_ok (rdevs ! r)" using ok r(1) by (simp add: storage_ok_def)
  have held: "i \<notin> free_idx (rdevs ! r)" using accountedD(4) [OF acc r(1,2)] r(3) by simp
  obtain d where d: "d < length (spof_groups storage)" "r \<in> set (members (spof_groups storage ! d))"
    using member_exists [OF wf r(1)] .
  obtain r' where r': "chunk_put_to_rdev (chunk_at rdevs r i) rdevs = Some (rdevs[r := r'])" "rdev_ok r'"
    "free_idx r' = insert i (free_idx (rdevs ! r))" "rdev_same (rdevs ! r) r'"
    using chunk_put_ok [OF rok r(2) held] by blast
  have "accounted storage (rdevs[r := r']) held"
    using accountedD [OF acc] r r' chunk_at_eq_iff [OF rok r(2)]
    by (intro accounted_update) (auto, metis+)
  moreover have "dom_free storage (rdevs[r := r']) = (dom_free storage rdevs)(d := dom_free storage rdevs d + 1)"
    using dom_free_update [OF ok d, of _ 0 1] r'(3) held by simp
  ultimately show ?thesis
    using r r' dom_of_member [OF wf d] storage_ok_update(2) [OF ok r(1) r'(2,4)]
    by (auto simp: put_pointer_def spof_group_put_chunk_def)
qed

lemma pool_same_refl: "pool_same storage s s"
  by (simp add: pool_same_def)

lemma pool_same_trans: "pool_same storage a b \<Longrightarrow> pool_same storage b c \<Longrightarrow> pool_same storage a c"
  using rdev_same_trans by (fastforce simp: pool_same_def)

lemma pool_same_sym: "pool_same storage a b \<Longrightarrow> pool_same storage b a"
  by (simp add: pool_same_def rdev_same_sym)

lemma pool_same_chunk_at:
  "pool_same storage a b \<Longrightarrow> r < length a \<Longrightarrow> chunk_at b r i = chunk_at a r i \<and> total_chunks_count (b ! r) = total_chunks_count (a ! r)"
  using rdev_sameD(1,2) [of "a ! r" "b ! r"] by (simp add: pool_same_def chunk_at_def)

text \<open>The held chunks determine the devices, free lists included.\<close>

lemma free_chunks_unique:
  assumes "rdev_ok a" "rdev_ok b" "rdev_same a b" "free_idx a = free_idx b"
  shows "a = b"
proof -
  have "inj_on unat (values_of (free_chunks a) \<union> values_of (free_chunks b))" by (auto intro!: inj_onI unsigned_word_eqI)
  with assms(4) have "values_of (free_chunks a) = values_of (free_chunks b)"
    unfolding free_idx_def by (metis inj_on_image_eq_iff sup_ge1 sup_ge2)
  then have "free_chunks a = free_chunks b" using assms(1,2) wf_unique by (simp add: rdev_ok_def)
  moreover have "free_chunks_count a = free_chunks_count b"
    using card_free_idx [OF assms(1)] card_free_idx [OF assms(2)] assms(4) by (simp add: word_unat_eq_iff)
  ultimately show ?thesis using assms(3) by (simp add: rdev_same_def)
qed

lemma pool_canonical:
  assumes a: "accounted storage a held" and b: "accounted storage b held" and same: "pool_same storage a b"
  shows "a = b"
proof (rule nth_equalityI)
  show "length a = length b" using same by (simp add: pool_same_def)
next
  fix r assume r: "r < length a"
  show "a ! r = b ! r"
  proof (cases "r \<in> set (storage_rdevs storage)")
    case False
    with same r show ?thesis by (simp add: pool_same_def)
  next
    case True
    have ok: "rdev_ok (a ! r)" "rdev_ok (b ! r)" "rdev_same (a ! r) (b ! r)"
      using accountedD(1) [OF a] accountedD(1) [OF b] same True r by (auto simp: storage_ok_def pool_same_def)
    note at = pool_same_chunk_at [OF same r]
    have "i \<in> free_idx (a ! r) \<longleftrightarrow> i \<in> free_idx (b ! r)" if "i < unat (total_chunks_count (a ! r))" for i
      using accountedD(4) [OF a True that] accountedD(4) [OF b True, of i] that at by simp
    then have "free_idx (a ! r) = free_idx (b ! r)"
      using free_idx_less [OF ok(1)] free_idx_less [OF ok(2)] at by (metis set_eqI)
    with ok show ?thesis by (intro free_chunks_unique)
  qed
qed

interpretation pool: chunk_pool "\<lambda>d. spof_group_get_chunk (spof_groups storage ! d)" put_pointer "dom_free storage"
  "dom_of storage" "length (spof_groups storage)" "pool_same storage" "accounted storage" for storage
proof
  show "mset held = mset held' \<Longrightarrow> accounted storage s held \<Longrightarrow> accounted storage s held'" for s held held'
    using mset_eq_setD mset_eq_imp_distinct_iff unfolding accounted_def by blast
qed (fact pool_get pool_empty pool_put pool_same_refl pool_same_trans pool_canonical)+

section \<open>Making slots\<close>

lemma sint_diff_32:
  assumes "unat (x :: 32 word) < 2 ^ 31" "unat y < 2 ^ 31"
  shows "sint (y - x) \<le> 0 \<longleftrightarrow> unat y \<le> unat x"
proof -
  have "int (unat x) < int (2 ^ 31)" "int (unat y) < int (2 ^ 31)" using assms unfolding of_nat_less_iff by blast+
  then have less: "uint x < 2 ^ 31" "uint y < 2 ^ 31" by simp_all
  have pos: "0 \<le> uint x" "0 \<le> uint y" by simp_all
  have "sint (y - x) = sint (of_int (uint y - uint x) :: 32 word)" by simp
  also have "\<dots> = signed_take_bit 31 (uint y - uint x)" unfolding signed_of_int by simp
  also have "\<dots> = uint y - uint x" using less pos by (intro signed_take_bit_int_eq_self) linarith+
  finally show ?thesis by (simp add: word_le_nat_alt [symmetric] word_le_def)
qed

text \<open>The domains in the order of the code: those with more free chunks first.\<close>

definition picks :: "spof_group list \<Rightarrow> nat \<Rightarrow> rdevs \<Rightarrow> nat list" where
  "picks groups w rdevs = map info_group (take w (spof_infos groups rdevs))"

lemma free_total_le:
  assumes ok: "storage_ok storage rdevs" and d: "d < length (spof_groups storage)"
  shows "free_total rdevs (spof_groups storage ! d) < 2 ^ 31"
proof -
  have wf: "storage_wf storage" using ok by (simp add: storage_ok_def)
  have "card (free_idx (rdevs ! r)) \<le> unat (total_chunks_count (rdevs ! r))" if "r \<in> set (members (spof_groups storage ! d))" for r
  proof -
    have "rdev_ok (rdevs ! r)" using members_in_storage [OF wf d that] ok by (simp add: storage_ok_def)
    then have "free_idx (rdevs ! r) \<subseteq> {..<unat (total_chunks_count (rdevs ! r))}" using free_idx_less by blast
    then show ?thesis by (metis card_lessThan card_mono finite_lessThan)
  qed
  then have "free_total rdevs (spof_groups storage ! d) \<le> (\<Sum>r \<in> set (members (spof_groups storage ! d)). unat (total_chunks_count (rdevs ! r)))"
    unfolding free_total_sum [OF spof_wf_nth [OF wf d]] by (rule sum_mono)
  also have "\<dots> \<le> (\<Sum>r \<in> set (storage_rdevs storage). unat (total_chunks_count (rdevs ! r)))"
    by (rule sum_mono2) (use members_in_storage [OF wf d] in auto)
  also have "\<dots> = (\<Sum>r \<leftarrow> storage_rdevs storage. unat (total_chunks_count (rdevs ! r)))"
    by (rule sum_list_distinct_conv_sum_set [symmetric]) (rule distinct_storage_rdevs [OF wf])
  also have "\<dots> < 2 ^ 31" using ok by (simp add: storage_ok_def)
  finally show ?thesis .
qed

lemma free_count_eq:
  assumes ok: "storage_ok storage rdevs" and d: "d < length (spof_groups storage)"
  shows "unat (spof_group_free_chunk_count rdevs (spof_groups storage ! d)) = dom_free storage rdevs d"
proof -
  have "\<forall>r \<in> set (members (spof_groups storage ! d)). rdev_ok (rdevs ! r)"
    using members_in_storage d ok by (auto simp: storage_ok_def)
  then show ?thesis using free_chunk_count_eq free_total_le [OF ok d] d by (simp add: dom_free_def)
qed

definition info_of :: "spof_group list \<Rightarrow> rdevs \<Rightarrow> nat \<Rightarrow> spof_info" where
  "info_of groups rdevs i = \<lparr> free_count = spof_group_free_chunk_count rdevs (groups ! i), info_group = i \<rparr>"

lemma info_compare:
  assumes ok: "storage_ok storage rdevs" and d: "d < length (spof_groups storage)" "e < length (spof_groups storage)"
  shows "spof_info_compare (spof_groups storage) (info_of (spof_groups storage) rdevs d) (info_of (spof_groups storage) rdevs e) \<le> 0 \<longleftrightarrow>
    dom_free storage rdevs e < dom_free storage rdevs d \<or>
    dom_free storage rdevs e = dom_free storage rdevs d \<and> unat (sg_id (spof_groups storage ! e)) \<le> unat (sg_id (spof_groups storage ! d))"
proof -
  have "unat (spof_group_free_chunk_count rdevs (spof_groups storage ! x)) < 2 ^ 31 \<and> unat (sg_id (spof_groups storage ! x)) < 2 ^ 31"
    if "x < length (spof_groups storage)" for x
    using free_count_eq [OF ok that] free_total_le [OF ok that] ok that by (simp add: dom_free_def storage_ok_def)
  with d show ?thesis
    unfolding free_count_eq [OF ok d(1), symmetric] free_count_eq [OF ok d(2), symmetric]
    by (auto simp: spof_info_compare_def info_of_def sint_diff_32 word_unat_eq_iff)
qed

lemma picks_top:
  assumes ok: "storage_ok storage rdevs" and w: "w \<le> length (spof_groups storage)"
  shows "top_choice (length (spof_groups storage)) (dom_free storage rdevs) (picks (spof_groups storage) w rdevs)"
    and "length (picks (spof_groups storage) w rdevs) = w"
proof -
  let ?sgs = "spof_groups storage" and ?cmp = "\<lambda>a b. spof_info_compare (spof_groups storage) a b \<le> 0"
  let ?xs = "map (info_of ?sgs rdevs) [0..<length ?sgs]"
  have infos: "spof_infos ?sgs rdevs = qsort (spof_info_compare ?sgs) ?xs" by (simp add: spof_infos_def info_of_def [abs_def])
  have "sorted_wrt ?cmp (spof_infos ?sgs rdevs)"
    unfolding infos by (rule sorted_qsort) (auto simp: info_compare [OF ok])
  then have split: "\<forall>a \<in> set (take w (spof_infos ?sgs rdevs)). \<forall>b \<in> set (drop w (spof_infos ?sgs rdevs)). ?cmp a b"
    by (metis append_take_drop_id sorted_wrt_append)
  have perm: "mset (map info_group (spof_infos ?sgs rdevs)) = mset [0..<length ?sgs]"
    by (simp only: infos mset_map mset_qsort) (simp add: info_of_def multiset.map_comp comp_def)
  have dist: "distinct (map info_group (spof_infos ?sgs rdevs))" using perm mset_eq_imp_distinct_iff [OF perm] by simp
  have all: "set (map info_group (spof_infos ?sgs rdevs)) = {..<length ?sgs}" using mset_eq_setD [OF perm] by auto
  have elem: "a = info_of ?sgs rdevs (info_group a) \<and> info_group a < length ?sgs" if "a \<in> set (spof_infos ?sgs rdevs)" for a
    using that unfolding infos by (auto simp: info_of_def)
  have "dom_free storage rdevs e \<le> dom_free storage rdevs d"
    if de: "d \<in> set (picks ?sgs w rdevs)" "e \<in> {..<length ?sgs} - set (picks ?sgs w rdevs)" for d e
  proof -
    obtain a where a: "a \<in> set (take w (spof_infos ?sgs rdevs))" "d = info_group a" using de(1) by (auto simp: picks_def)
    obtain b where b: "b \<in> set (spof_infos ?sgs rdevs)" "e = info_group b" using de(2) all by auto
    have "b \<notin> set (take w (spof_infos ?sgs rdevs))" using de(2) b(2) by (auto simp: picks_def)
    with b(1) have "b \<in> set (drop w (spof_infos ?sgs rdevs))" by (metis Un_iff append_take_drop_id set_append)
    with split a(1) have "?cmp a b" by blast
    with info_compare [OF ok, of d e] elem [OF in_set_takeD [OF a(1)]] elem [OF b(1)] a(2) b(2) show ?thesis by auto
  qed
  moreover have "distinct (picks ?sgs w rdevs)" using dist by (simp add: picks_def take_map [symmetric])
  moreover have "set (picks ?sgs w rdevs) \<subseteq> {..<length ?sgs}"
    using elem in_set_takeD by (fastforce simp: picks_def)
  ultimately show "top_choice (length ?sgs) (dom_free storage rdevs) (picks ?sgs w rdevs)" by (simp add: top_choice_def)
  show "length (picks ?sgs w rdevs) = w" using w by (simp add: picks_def infos)
qed

lemma slot_make_eq:
  assumes "0 < width" "unat width \<le> length groups" "groups \<noteq> []"
  shows "slot_make groups width rdevs = map_option (\<lambda>(cs, rdevs). (\<lparr> slot_chunks = cs, slot_width = width \<rparr>, rdevs))
    (take_each (\<lambda>g. spof_group_get_chunk (groups ! g)) (picks groups (unat width) rdevs) rdevs)"
  using assms by (simp add: slot_make_def generic_make_slot_def picks_def map_conv_bind_option split: prod.split)
    (auto intro!: arg_cong [of _ _ "\<lambda>f. Option.bind _ f"])

lemma make_times_map:
  assumes "\<And>s. mk s = map_option (\<lambda>(x, s). (f x, s)) (mk' s)"
  shows "make_times mk n s = map_option (\<lambda>(xs, s). (map f xs, s)) (make_times mk' n s)"
proof (induction n arbitrary: s)
  case (Suc n)
  show ?case
  proof (cases "mk' s")
    case (Some r)
    then show ?thesis using assms [of s] Suc by (cases r; cases "make_times mk' n (snd r)") auto
  qed (simp add: assms)
qed simp

lemma dom_fit_narrow: "n < w \<Longrightarrow> dom_fit n w cs S \<longleftrightarrow> S = 0"
proof
  assume n: "n < w" and fit: "dom_fit n w cs S"
  have "(\<Sum>d < n. min (cs d) S) \<le> n * S" using sum_bounded_above [of "{..<n}" "\<lambda>d. min (cs d) S" S] by simp
  with fit have "w * S \<le> n * S" unfolding dom_fit_def by (rule order_trans)
  with n show "S = 0" by simp
qed (simp add: dom_fit_def)

text \<open>A slot of a given width whose chunks are all there, and in different domains.\<close>

definition slot_ok :: "storage \<Rightarrow> 32 word \<Rightarrow> slot \<Rightarrow> bool" where
  "slot_ok storage w slot \<longleftrightarrow> slot_width slot = w \<and> length (slot_chunks slot) = unat w \<and>
     distinct (map (dom_of storage) (slot_chunks slot))"

text \<open>Making slots one after the other succeeds exactly when the counting condition holds.\<close>

lemma make_slots_ok:
  assumes acc: "accounted storage rdevs held" and w: "0 < w"
  shows "if dom_fit (length (spof_groups storage)) (unat w) (dom_free storage rdevs) N
    then \<exists>slots rdevs'. make_times (slot_make (spof_groups storage) w) N rdevs = Some (slots, rdevs') \<and> length slots = N \<and>
      (\<forall>slot \<in> set slots. slot_ok storage w slot) \<and>
      accounted storage rdevs' (concat (map slot_chunks slots) @ held) \<and> pool_same storage rdevs rdevs'
    else make_times (slot_make (spof_groups storage) w) N rdevs = None"
proof (cases "unat w \<le> length (spof_groups storage) \<and> spof_groups storage \<noteq> []")
  case True
  let ?mk = "\<lambda>s. take_each (\<lambda>g. spof_group_get_chunk (spof_groups storage ! g)) (picks (spof_groups storage) (unat w) s) s"
  let ?slot = "\<lambda>cs. \<lparr> slot_chunks = cs, slot_width = w \<rparr>"
  have eq: "make_times (slot_make (spof_groups storage) w) N rdevs = map_option (\<lambda>(xs, s). (map ?slot xs, s)) (make_times ?mk N rdevs)"
    using slot_make_eq [OF w, of "spof_groups storage"] True by (intro make_times_map) simp
  have "\<forall>s held. accounted storage s held \<longrightarrow>
      top_choice (length (spof_groups storage)) (dom_free storage s) (picks (spof_groups storage) (unat w) s) \<and>
      length (picks (spof_groups storage) (unat w) s) = unat w"
    using picks_top accountedD(1) True by blast
  note greedy = pool.greedy_slots [of storage "picks (spof_groups storage) (unat w)" "unat w", OF this acc, of N]
  show ?thesis
  proof (cases "dom_fit (length (spof_groups storage)) (unat w) (dom_free storage rdevs) N")
    case fit: True
    with greedy obtain xs s where xs: "make_times ?mk N rdevs = Some (xs, s)" "length xs = N"
      "\<forall>cs \<in> set xs. length cs = unat w \<and> distinct (map (dom_of storage) cs)" "accounted storage s (concat xs @ held)"
      "pool_same storage rdevs s" by auto
    then have "make_times (slot_make (spof_groups storage) w) N rdevs = Some (map ?slot xs, s)" using eq by simp
    with fit xs show ?thesis by (simp add: slot_ok_def comp_def)
  next
    case False
    then show ?thesis using greedy eq by simp
  qed
next
  case False
  then have "length (spof_groups storage) < unat w" using w by (auto simp: word_less_nat_alt)
  then have "dom_fit (length (spof_groups storage)) (unat w) (dom_free storage rdevs) N \<longleftrightarrow> N = 0" by (rule dom_fit_narrow)
  moreover have "slot_make (spof_groups storage) w s = None" for s
    using False by (auto simp: slot_make_def generic_make_slot_def)
  ultimately show ?thesis using acc by (cases N) (auto simp: pool_same_refl)
qed

text \<open>Freeing slots gives their chunks back.\<close>

lemma free_slots_ok:
  assumes "\<forall>slot \<in> set slots. length (slot_chunks slot) = unat (slot_width slot)"
    and "accounted storage rdevs (concat (map slot_chunks slots) @ held)"
  shows "\<exists>rdevs'. for_each (\<lambda>slot. slot_free (Some slot)) slots rdevs = Some rdevs' \<and> accounted storage rdevs' held \<and>
    pool_same storage rdevs rdevs'"
  using assms
proof (induction slots arbitrary: rdevs)
  case Nil
  then show ?case by (simp add: pool_same_refl)
next
  case (Cons slot slots)
  then obtain s1 where s1: "slot_free (Some slot) rdevs = Some s1" "accounted storage s1 (concat (map slot_chunks slots) @ held)"
    "pool_same storage rdevs s1"
    using pool.put_all [of storage rdevs "slot_chunks slot" "concat (map slot_chunks slots) @ held"] by (auto simp: slot_free_def)
  with Cons.IH [OF _ s1(2)] Cons.prems(1) pool_same_trans [OF s1(3)] show ?case by auto
qed

end
