(* ===== verification/Vrt_Assembly.thy ===== *)
theory Vrt_Assembly
  imports Vrt_Slot Vrt_Prediction
begin

text \<open>
  Assembly volumes and the assembly group (\<open>vrt/assembly/src/assembly_volume.c\<close> and
  \<open>assembly_group.c\<close>). A volume is an array of slots; a group is the list of its volumes with the
  width of the slots. Reserving a volume makes slots from the free chunks of the storage,
  resizing makes or frees some, releasing frees them all; the whole is written to and read from
  the superblock. A pointer to a volume of the group is its index in the list. Allocation of
  memory does not fail.
\<close>

section \<open>Volumes\<close>

record assembly_volume =
  av_uuid :: exa_uuid
  av_slots :: "slot list"
  total_slots_count :: "64 word"

definition assembly_volume_alloc :: "exa_uuid \<Rightarrow> assembly_volume" where
  "assembly_volume_alloc uuid = \<lparr> av_uuid = uuid, av_slots = [], total_slots_count = 0 \<rparr>"

definition free_slots :: "slot list \<Rightarrow> 64 word \<Rightarrow> 64 word \<Rightarrow> rdevs \<Rightarrow> rdevs option" where
  "free_slots slots start num_slots rdevs =
     for_each (\<lambda>slot. slot_free (Some slot)) (take (unat num_slots) (drop (unat start) slots)) rdevs"

definition assembly_volume_free :: "assembly_volume \<Rightarrow> rdevs \<Rightarrow> rdevs option" where
  "assembly_volume_free av rdevs = do {
     exa_assert (total_slots_count av = 0 \<or> av_slots av \<noteq> []);
     free_slots (av_slots av) 0 (total_slots_count av) rdevs }"

definition assembly_volume_resize ::
  "assembly_volume \<Rightarrow> storage \<Rightarrow> 32 word \<Rightarrow> 64 word \<Rightarrow> rdevs \<Rightarrow> ((errcode + unit) \<times> assembly_volume \<times> rdevs) option" where
  "assembly_volume_resize av storage width new_slots_count rdevs =
     (let old_slots_count = total_slots_count av; old_slots = av_slots av;
          new_slots = take (unat (min new_slots_count old_slots_count)) old_slots in
      if new_slots_count = old_slots_count then Some (Inr (), av, rdevs)
      else if new_slots_count > old_slots_count then do {
        (slots, rdevs) \<leftarrow> make_times (slot_make (spof_groups storage) width) (unat new_slots_count - unat old_slots_count) rdevs;
        Some (Inr (), av\<lparr>av_slots := new_slots @ slots, total_slots_count := new_slots_count\<rparr>, rdevs) }
      else do {
        rdevs \<leftarrow> free_slots old_slots new_slots_count (old_slots_count - new_slots_count) rdevs;
        Some (Inr (), av\<lparr>av_slots := new_slots, total_slots_count := new_slots_count\<rparr>, rdevs) })"

definition assembly_volume_equals :: "rdevs \<Rightarrow> assembly_volume \<Rightarrow> assembly_volume \<Rightarrow> bool option" where
  "assembly_volume_equals rdevs a b =
     (if \<not> uuid_is_equal (av_uuid a) (av_uuid b) then Some False
      else if total_slots_count a \<noteq> total_slots_count b then Some False
      else for_all (\<lambda>i. slot_equals rdevs (Some (av_slots a ! i)) (Some (av_slots b ! i))) [0..<unat (total_slots_count a)])"

text \<open>The index of the slot is returned as an \<open>unsigned int\<close>.\<close>

definition assembly_volume_map_sector_to_slot :: "assembly_volume \<Rightarrow> 64 word \<Rightarrow> 64 word \<Rightarrow> (32 word \<times> 64 word) option" where
  "assembly_volume_map_sector_to_slot av slot_size vsector = do {
     exa_assert (vsector < total_slots_count av * slot_size);
     let volume_slot_index = vsector div slot_size;
     exa_assert (volume_slot_index < total_slots_count av);
     Some (ucast volume_slot_index, vsector mod slot_size) }"

definition AV_HEADER_MAGIC :: "32 word" where
  "AV_HEADER_MAGIC = 0x77A44A22"

record av_header =
  avh_magic :: "32 word"
  avh_reserved :: "32 word"
  avh_uuid :: exa_uuid
  avh_total_slot_count :: "64 word"

definition assembly_volume_header_read :: "stream \<Rightarrow> (errcode + av_header) \<times> stream" where
  "assembly_volume_header_read s =
     (case read_exact stream_read 32 s of
        (Inl err, s') \<Rightarrow> (Inl err, s')
      | (Inr b, s') \<Rightarrow> (Inr \<lparr> avh_magic = of_le32 (take 4 b), avh_reserved = of_le32 (take 4 (drop 4 b)),
          avh_uuid = of_uuid_bytes (take 16 (drop 8 b)), avh_total_slot_count = of_le64 (drop 24 b) \<rparr>, s'))"

text \<open>The first slot is read even when there is none.\<close>

definition assembly_volume_serialized_size :: "assembly_volume \<Rightarrow> 64 word option" where
  "assembly_volume_serialized_size av = do {
     exa_assert (av_slots av \<noteq> []);
     Some (32 + total_slots_count av * slot_serialized_size (av_slots av ! 0)) }"

definition assembly_volume_serialize :: "rdevs \<Rightarrow> assembly_volume \<Rightarrow> stream \<Rightarrow> ((errcode + unit) \<times> stream) option" where
  "assembly_volume_serialize rdevs av s =
     (case write_exact stream_write
             (le32 AV_HEADER_MAGIC @ le32 0 @ uuid_bytes (av_uuid av) @ le64 (total_slots_count av)) s of
        (Inl err, s) \<Rightarrow> Some (Inl err, s)
      | (Inr _, s) \<Rightarrow> each_io_opt (slot_serialize rdevs) (take (unat (total_slots_count av)) (av_slots av)) s)"

text \<open>The slots read so far are returned with an error.\<close>

primrec deserialize_slots ::
  "nat \<Rightarrow> storage \<Rightarrow> rdevs \<Rightarrow> stream \<Rightarrow> (errcode option \<times> slot list \<times> rdevs \<times> stream) option" where
  "deserialize_slots 0 storage rdevs s = Some (None, [], rdevs, s)"
| "deserialize_slots (Suc n) storage rdevs s = do {
     (r, rdevs, s) \<leftarrow> slot_deserialize storage rdevs s;
     case r of
       Inl err \<Rightarrow> Some (Some err, [], rdevs, s)
     | Inr slot \<Rightarrow> do {
         (err, slots, rdevs, s) \<leftarrow> deserialize_slots n storage rdevs s;
         Some (err, slot # slots, rdevs, s) } }"

definition assembly_volume_deserialize ::
  "storage \<Rightarrow> rdevs \<Rightarrow> stream \<Rightarrow> ((errcode + assembly_volume) \<times> rdevs \<times> stream) option" where
  "assembly_volume_deserialize storage rdevs s =
     (case assembly_volume_header_read s of
        (Inl err, s) \<Rightarrow> Some (Inl err, rdevs, s)
      | (Inr header, s) \<Rightarrow>
          if avh_magic header \<noteq> AV_HEADER_MAGIC then Some (Inl VRT_ERR_SB_MAGIC, rdevs, s)
          else if avh_reserved header \<noteq> 0 then Some (Inl VRT_ERR_SB_CORRUPTION, rdevs, s)
          else do {
            (err, slots, rdevs, s) \<leftarrow> deserialize_slots (unat (avh_total_slot_count header)) storage rdevs s;
            let av = (assembly_volume_alloc (avh_uuid header))\<lparr>av_slots := slots, total_slots_count := of_nat (length slots)\<rparr>;
            case err of
              None \<Rightarrow> Some (Inr av, rdevs, s)
            | Some err \<Rightarrow> do {
                rdevs \<leftarrow> assembly_volume_free av rdevs;
                Some (Inl err, rdevs, s) } })"

section \<open>The group\<close>

record assembly_group =
  initialized :: bool
  ag_slot_size :: "32 word"
  ag_slot_width :: "32 word"
  subspaces :: "assembly_volume list"
  num_subspaces :: "32 word"

definition assembly_group_insert_volume :: "assembly_group \<Rightarrow> assembly_volume \<Rightarrow> assembly_group" where
  "assembly_group_insert_volume ag av = ag\<lparr>subspaces := subspaces ag @ [av], num_subspaces := num_subspaces ag + 1\<rparr>"

definition assembly_group_remove_volume :: "assembly_group \<Rightarrow> nat \<Rightarrow> (assembly_volume \<times> assembly_group) option" where
  "assembly_group_remove_volume ag k = do {
     exa_assert (subspaces ag \<noteq> []);
     exa_assert (k < length (subspaces ag));
     Some (subspaces ag ! k, ag\<lparr>subspaces := take k (subspaces ag) @ drop (Suc k) (subspaces ag),
       num_subspaces := num_subspaces ag - 1\<rparr>) }"

definition assembly_group_init :: assembly_group where
  "assembly_group_init = \<lparr> initialized = True, ag_slot_size = 0, ag_slot_width = 0, subspaces = [], num_subspaces = 0 \<rparr>"

text \<open>The loop always removes the first volume.\<close>

definition assembly_group_cleanup :: "assembly_group \<Rightarrow> rdevs \<Rightarrow> (assembly_group \<times> rdevs) option" where
  "assembly_group_cleanup ag rdevs = do {
     (ag, rdevs) \<leftarrow> for_each (\<lambda>_ (ag, rdevs). do {
       (v, ag) \<leftarrow> assembly_group_remove_volume ag 0;
       rdevs \<leftarrow> assembly_volume_free v rdevs;
       Some (ag, rdevs) }) (subspaces ag) (ag, rdevs);
     Some (ag\<lparr>subspaces := [], num_subspaces := 0\<rparr>, rdevs) }"

fun volumes_equal :: "rdevs \<Rightarrow> assembly_volume list \<Rightarrow> assembly_volume list \<Rightarrow> bool option" where
  "volumes_equal rdevs (av1 # avs1) (av2 # avs2) = do {
     b \<leftarrow> assembly_volume_equals rdevs av1 av2;
     if \<not> b then Some False else volumes_equal rdevs avs1 avs2 }"
| "volumes_equal rdevs avs1 avs2 = Some (avs1 = [] \<and> avs2 = [])"

definition assembly_group_equals :: "rdevs \<Rightarrow> assembly_group \<Rightarrow> assembly_group \<Rightarrow> bool option" where
  "assembly_group_equals rdevs a b =
     (if initialized a \<noteq> initialized b then Some False
      else if ag_slot_size a \<noteq> ag_slot_size b then Some False
      else if ag_slot_width a \<noteq> ag_slot_width b then Some False
      else if num_subspaces a \<noteq> num_subspaces b then Some False
      else volumes_equal rdevs (subspaces a) (subspaces b))"

definition assembly_group_setup :: "assembly_group \<Rightarrow> 32 word \<Rightarrow> 32 word \<Rightarrow> assembly_group option" where
  "assembly_group_setup ag width chunk_sectors = do {
     exa_assert (initialized ag);
     Some (ag\<lparr>ag_slot_width := width, ag_slot_size := width * chunk_sectors\<rparr>) }"

definition assembly_group_get_used_slots_count :: "assembly_group \<Rightarrow> 64 word" where
  "assembly_group_get_used_slots_count ag = sum_list (map total_slots_count (subspaces ag))"

definition assembly_group_get_available_slots_count :: "assembly_group \<Rightarrow> storage \<Rightarrow> rdevs \<Rightarrow> 64 word option" where
  "assembly_group_get_available_slots_count ag storage rdevs =
     assembly_predict_max_slots_without_sparing (of_nat (length (spof_groups storage))) (ucast (ag_slot_width ag))
       (map (\<lambda>sg. ucast (spof_group_free_chunk_count rdevs sg)) (spof_groups storage))"

definition assembly_group_get_max_slots_count :: "assembly_group \<Rightarrow> storage \<Rightarrow> rdevs \<Rightarrow> 64 word option" where
  "assembly_group_get_max_slots_count ag storage rdevs = do {
     available \<leftarrow> assembly_group_get_available_slots_count ag storage rdevs;
     Some (available + assembly_group_get_used_slots_count ag) }"

definition assembly_group_get_slot_width :: "assembly_group \<Rightarrow> 32 word" where
  "assembly_group_get_slot_width ag = ag_slot_width ag"

definition assembly_group_map_sector_to_slot :: "assembly_volume \<Rightarrow> 64 word \<Rightarrow> 64 word \<Rightarrow> (slot \<times> 64 word) option" where
  "assembly_group_map_sector_to_slot av slot_size vsector = do {
     exa_assert (vsector < total_slots_count av * slot_size);
     let volume_slot_index = vsector div slot_size;
     exa_assert (volume_slot_index < total_slots_count av);
     Some (av_slots av ! unat volume_slot_index, vsector mod slot_size) }"

definition assembly_group_resize_volume ::
  "assembly_group \<Rightarrow> assembly_volume \<Rightarrow> 64 word \<Rightarrow> storage \<Rightarrow> rdevs \<Rightarrow> ((errcode + unit) \<times> assembly_volume \<times> rdevs) option" where
  "assembly_group_resize_volume ag av new_slots_count storage rdevs = do {
     max_slots \<leftarrow> assembly_group_get_max_slots_count ag storage rdevs;
     if new_slots_count > max_slots then Some (Inl VRT_ERR_NOT_ENOUGH_FREE_SC, av, rdevs)
     else assembly_volume_resize av storage (ag_slot_width ag) new_slots_count rdevs }"

text \<open>Resizing a volume of the group through a pointer to it changes the group.\<close>

definition resize_subspace ::
  "assembly_group \<Rightarrow> nat \<Rightarrow> 64 word \<Rightarrow> storage \<Rightarrow> rdevs \<Rightarrow> ((errcode + unit) \<times> assembly_group \<times> rdevs) option" where
  "resize_subspace ag k new_slots_count storage rdevs = do {
     (r, av, rdevs) \<leftarrow> assembly_group_resize_volume ag (subspaces ag ! k) new_slots_count storage rdevs;
     Some (r, ag\<lparr>subspaces := (subspaces ag)[k := av]\<rparr>, rdevs) }"

primrec lookup_volume_from :: "nat \<Rightarrow> assembly_volume list \<Rightarrow> exa_uuid \<Rightarrow> nat option" where
  "lookup_volume_from k [] uuid = None"
| "lookup_volume_from k (s # ss) uuid = (if uuid_is_equal (av_uuid s) uuid then Some k else lookup_volume_from (Suc k) ss uuid)"

definition assembly_group_lookup_volume :: "assembly_group \<Rightarrow> exa_uuid \<Rightarrow> nat option" where
  "assembly_group_lookup_volume ag uuid = lookup_volume_from 0 (subspaces ag) uuid"

text \<open>The result is the index of the new volume.\<close>

definition assembly_group_reserve_volume ::
  "assembly_group \<Rightarrow> exa_uuid \<Rightarrow> 64 word \<Rightarrow> storage \<Rightarrow> rdevs \<Rightarrow> ((errcode + nat) \<times> assembly_group \<times> rdevs) option" where
  "assembly_group_reserve_volume ag uuid nb_slots storage rdevs = do {
     let av = assembly_volume_alloc uuid;
     (r, av, rdevs) \<leftarrow> assembly_group_resize_volume ag av nb_slots storage rdevs;
     case r of
       Inl err \<Rightarrow> do {
         rdevs \<leftarrow> assembly_volume_free av rdevs;
         Some (Inl err, ag, rdevs) }
     | Inr _ \<Rightarrow> Some (Inr (length (subspaces ag)), assembly_group_insert_volume ag av, rdevs) }"

definition assembly_group_release_volume :: "assembly_group \<Rightarrow> nat \<Rightarrow> storage \<Rightarrow> rdevs \<Rightarrow> (assembly_group \<times> rdevs) option" where
  "assembly_group_release_volume ag k storage rdevs = do {
     (av, ag) \<leftarrow> assembly_group_remove_volume ag k;
     (r, av, rdevs) \<leftarrow> assembly_group_resize_volume ag av 0 storage rdevs;
     exa_assert (r = Inr ());
     rdevs \<leftarrow> assembly_volume_free av rdevs;
     Some (ag, rdevs) }"

definition AG_HEADER_MAGIC :: "32 word" where
  "AG_HEADER_MAGIC = 0x66A33A11"

definition AG_HEADER_FORMAT :: "32 word" where
  "AG_HEADER_FORMAT = 1"

record ag_header =
  agh_magic :: "32 word"
  agh_format :: "32 word"
  agh_slot_size :: "32 word"
  agh_slot_width :: "32 word"
  agh_num_subspaces :: "32 word"

definition assembly_group_header_read :: "stream \<Rightarrow> (errcode + ag_header) \<times> stream" where
  "assembly_group_header_read s =
     (case read_exact stream_read 20 s of
        (Inl err, s') \<Rightarrow> (Inl err, s')
      | (Inr b, s') \<Rightarrow> (Inr \<lparr> agh_magic = of_le32 (take 4 b), agh_format = of_le32 (take 4 (drop 4 b)),
          agh_slot_size = of_le32 (take 4 (drop 8 b)), agh_slot_width = of_le32 (take 4 (drop 12 b)),
          agh_num_subspaces = of_le32 (drop 16 b) \<rparr>, s'))"

primrec volumes_serialized_size :: "assembly_volume list \<Rightarrow> 64 word \<Rightarrow> 64 word option" where
  "volumes_serialized_size [] n = Some n"
| "volumes_serialized_size (av # avs) n = do {
     size \<leftarrow> assembly_volume_serialized_size av;
     volumes_serialized_size avs (n + size) }"

definition assembly_group_serialized_size :: "assembly_group \<Rightarrow> 64 word option" where
  "assembly_group_serialized_size ag = do {
     total_subspaces_size \<leftarrow> volumes_serialized_size (subspaces ag) 0;
     Some (20 + total_subspaces_size) }"

definition assembly_group_serialize :: "rdevs \<Rightarrow> assembly_group \<Rightarrow> stream \<Rightarrow> ((errcode + unit) \<times> stream) option" where
  "assembly_group_serialize rdevs ag s =
     (case write_exact stream_write (le32 AG_HEADER_MAGIC @ le32 AG_HEADER_FORMAT @ le32 (ag_slot_size ag) @
             le32 (ag_slot_width ag) @ le32 (num_subspaces ag)) s of
        (Inl err, s) \<Rightarrow> Some (Inl err, s)
      | (Inr _, s) \<Rightarrow> each_io_opt (assembly_volume_serialize rdevs) (subspaces ag) s)"

primrec deserialize_volumes ::
  "nat \<Rightarrow> storage \<Rightarrow> assembly_group \<Rightarrow> rdevs \<Rightarrow> stream \<Rightarrow> (errcode option \<times> assembly_group \<times> rdevs \<times> stream) option" where
  "deserialize_volumes 0 storage ag rdevs s = Some (None, ag, rdevs, s)"
| "deserialize_volumes (Suc n) storage ag rdevs s = do {
     (r, rdevs, s) \<leftarrow> assembly_volume_deserialize storage rdevs s;
     case r of
       Inl err \<Rightarrow> Some (Some err, ag, rdevs, s)
     | Inr av \<Rightarrow> deserialize_volumes n storage (assembly_group_insert_volume ag av) rdevs s }"

definition assembly_group_deserialize ::
  "assembly_group \<Rightarrow> storage \<Rightarrow> rdevs \<Rightarrow> stream \<Rightarrow> ((errcode + unit) \<times> assembly_group \<times> rdevs \<times> stream) option" where
  "assembly_group_deserialize ag storage rdevs s =
     (case assembly_group_header_read s of
        (Inl err, s) \<Rightarrow> Some (Inl err, ag, rdevs, s)
      | (Inr header, s) \<Rightarrow>
          if agh_magic header \<noteq> AG_HEADER_MAGIC then Some (Inl VRT_ERR_SB_MAGIC, ag, rdevs, s)
          else if agh_format header \<noteq> AG_HEADER_FORMAT then Some (Inl VRT_ERR_SB_FORMAT, ag, rdevs, s)
          else do {
            let ag = \<lparr> initialized = True, ag_slot_size = agh_slot_size header, ag_slot_width = agh_slot_width header,
                       subspaces = [], num_subspaces = 0 \<rparr>;
            (err, ag, rdevs, s) \<leftarrow> deserialize_volumes (unat (agh_num_subspaces header)) storage ag rdevs s;
            case err of
              None \<Rightarrow> Some (Inr (), ag, rdevs, s)
            | Some err \<Rightarrow> do {
                (ag, rdevs) \<leftarrow> assembly_group_cleanup ag rdevs;
                Some (Inl err, ag, rdevs, s) } })"

section \<open>The invariant of the group\<close>

definition vol_chunks :: "assembly_volume \<Rightarrow> chunk option list" where
  "vol_chunks av = concat (map slot_chunks (av_slots av))"

definition held_chunks :: "assembly_group \<Rightarrow> chunk option list" where
  "held_chunks ag = concat (map vol_chunks (subspaces ag))"

definition volume_ok :: "storage \<Rightarrow> 32 word \<Rightarrow> assembly_volume \<Rightarrow> bool" where
  "volume_ok storage w av \<longleftrightarrow> length (av_slots av) = unat (total_slots_count av) \<and> (\<forall>slot \<in> set (av_slots av). slot_ok storage w slot)"

text \<open>The volumes are good and hold all the chunks of the storage that are not free.\<close>

definition group_ok :: "storage \<Rightarrow> rdevs \<Rightarrow> assembly_group \<Rightarrow> bool" where
  "group_ok storage rdevs ag \<longleftrightarrow> 0 < ag_slot_width ag \<and> (\<forall>av \<in> set (subspaces ag). volume_ok storage (ag_slot_width ag) av) \<and>
     num_subspaces ag = of_nat (length (subspaces ag)) \<and> accounted storage rdevs (held_chunks ag)"

lemma slot_ok_length: "slot_ok storage w slot \<Longrightarrow> length (slot_chunks slot) = unat w \<and> slot_width slot = w"
  by (simp add: slot_ok_def)

text \<open>There are fewer than \<open>2 ^ 31\<close> chunks, free or held.\<close>

lemma held_bound:
  assumes acc: "accounted storage rdevs held"
  shows "length held < 2 ^ 31"
proof -
  let ?rs = "storage_rdevs storage" and ?t = "\<lambda>r. unat (total_chunks_count (rdevs ! r))"
  have wf: "storage_wf storage" using accountedD(1) [OF acc] by (simp add: storage_ok_def)
  have "set held \<subseteq> (\<Union>r \<in> set ?rs. (\<lambda>i. Some (chunk_at rdevs r i)) ` {..<?t r})"
    using accountedD(3) [OF acc] by fastforce
  then have "card (set held) \<le> card (\<Union>r \<in> set ?rs. (\<lambda>i. Some (chunk_at rdevs r i)) ` {..<?t r})"
    by (rule card_mono [rotated]) simp
  also have "\<dots> \<le> (\<Sum>r \<in> set ?rs. card ((\<lambda>i. Some (chunk_at rdevs r i)) ` {..<?t r}))" by (rule card_UN_le) simp
  also have "\<dots> \<le> (\<Sum>r \<in> set ?rs. ?t r)" by (rule sum_mono) (metis card_image_le card_lessThan finite_lessThan)
  also have "\<dots> = (\<Sum>r \<leftarrow> ?rs. ?t r)" by (rule sum_list_distinct_conv_sum_set [symmetric]) (rule distinct_storage_rdevs [OF wf])
  also have "\<dots> < 2 ^ 31" using accountedD(1) [OF acc] by (simp add: storage_ok_def)
  finally show ?thesis using distinct_card [OF accountedD(2) [OF acc]] by simp
qed

lemma sum_list_concat_map: "sum_list (map f (concat xss)) = (\<Sum>xs \<leftarrow> xss. sum_list (map f xs))"
  by (induction xss) simp_all

lemma free_bound:
  assumes ok: "storage_ok storage rdevs"
  shows "sum_list (map (dom_free storage rdevs) [0..<length (spof_groups storage)]) < 2 ^ 31"
proof -
  have wf: "storage_wf storage" using ok by (simp add: storage_ok_def)
  have "map (dom_free storage rdevs) [0..<length (spof_groups storage)] = map (free_total rdevs) (spof_groups storage)"
    by (rule nth_equalityI) (simp_all add: dom_free_def)
  then have "sum_list (map (dom_free storage rdevs) [0..<length (spof_groups storage)]) =
      (\<Sum>r \<leftarrow> storage_rdevs storage. card (free_idx (rdevs ! r)))"
    by (simp add: storage_rdevs_eq [OF wf] sum_list_concat_map comp_def free_total_def [abs_def])
  also have "\<dots> \<le> (\<Sum>r \<leftarrow> storage_rdevs storage. unat (total_chunks_count (rdevs ! r)))"
  proof (rule sum_list_mono)
    fix r assume "r \<in> set (storage_rdevs storage)"
    then have "free_idx (rdevs ! r) \<subseteq> {..<unat (total_chunks_count (rdevs ! r))}"
      using ok free_idx_less by (auto simp: storage_ok_def)
    then show "card (free_idx (rdevs ! r)) \<le> unat (total_chunks_count (rdevs ! r))"
      by (metis card_lessThan card_mono finite_lessThan)
  qed
  also have "\<dots> < 2 ^ 31" using ok by (simp add: storage_ok_def)
  finally show ?thesis .
qed

section \<open>The number of available slots\<close>

lemma fit_iff: "slots_fit w (map f [0..<n]) S \<longleftrightarrow> dom_fit n w f S"
  by (simp add: slots_fit_def dom_fit_def comp_def interv_sum_list_conv_sum_set_nat atLeast0LessThan)

lemma available_ok:
  assumes ok: "storage_ok storage rdevs" and w: "0 < ag_slot_width ag"
  obtains avail where "assembly_group_get_available_slots_count ag storage rdevs = Some avail" "unat avail < 2 ^ 31"
    "\<And>S. dom_fit (length (spof_groups storage)) (unat (ag_slot_width ag)) (dom_free storage rdevs) S \<longleftrightarrow> S \<le> unat avail"
proof -
  let ?n = "length (spof_groups storage)" and ?w = "unat (ag_slot_width ag)"
  define cs where "cs = map (\<lambda>sg. ucast (spof_group_free_chunk_count rdevs sg) :: 64 word) (spof_groups storage)"
  have cs: "map unat cs = map (dom_free storage rdevs) [0..<?n]"
    using free_count_eq [OF ok] by (intro nth_equalityI) (simp_all add: cs_def)
  have len: "length cs = ?n" by (simp add: cs_def)
  have small: "?n \<le> 128" using ok by (simp add: storage_ok_def storage_wf_def EXA_MAX_NODES_NUMBER_def)
  have w': "1 \<le> ?w" "?w < 2 ^ 64" using w unat_32_less [of "ag_slot_width ag"] by (simp_all add: word_less_nat_alt)
  obtain p where p: "assembly_predict_max_slots_without_sparing (of_nat ?n) (of_nat ?w) cs = Some p"
    "\<forall>S. slots_fit ?w (map unat cs) S \<longleftrightarrow> S \<le> unat p"
    using prediction_exact [OF w', of cs] len small free_bound [OF ok] cs by auto
  have "assembly_group_get_available_slots_count ag storage rdevs = Some p"
    using p(1) unfolding assembly_group_get_available_slots_count_def cs_def ucast_32_of_nat .
  moreover have fit: "dom_fit ?n ?w (dom_free storage rdevs) S \<longleftrightarrow> S \<le> unat p" for S
    using p(2) cs fit_iff by simp
  moreover have "unat p < 2 ^ 31"
  proof -
    have "?w * unat p \<le> (\<Sum>d < ?n. min (dom_free storage rdevs d) (unat p))" using fit [of "unat p"] by (simp add: dom_fit_def)
    also have "\<dots> \<le> (\<Sum>d < ?n. dom_free storage rdevs d)" by (rule sum_mono) simp
    also have "\<dots> < 2 ^ 31" using free_bound [OF ok] by (simp add: interv_sum_list_conv_sum_set_nat atLeast0LessThan)
    finally show ?thesis using w'(1) by (metis le_less_trans mult_le_mono1 nat_mult_1)
  qed
  ultimately show thesis using that by blast
qed

lemma length_vol_chunks: "volume_ok storage w av \<Longrightarrow> length (vol_chunks av) = unat w * unat (total_slots_count av)"
proof -
  assume ok: "volume_ok storage w av"
  have "length (concat (map slot_chunks slots)) = unat w * length slots" if "\<forall>slot \<in> set slots. slot_ok storage w slot" for slots
    using that by (induction slots) (simp_all add: slot_ok_def)
  with ok show ?thesis by (simp add: volume_ok_def vol_chunks_def)
qed

lemma used_ok:
  assumes "group_ok storage rdevs ag"
  shows "unat (assembly_group_get_used_slots_count ag) = (\<Sum>av \<leftarrow> subspaces ag. unat (total_slots_count av))"
    and "(\<Sum>av \<leftarrow> subspaces ag. unat (total_slots_count av)) < 2 ^ 31"
proof -
  have w: "1 \<le> unat (ag_slot_width ag)" using assms by (simp add: group_ok_def word_less_nat_alt)
  have "length (concat (map vol_chunks avs)) = unat (ag_slot_width ag) * (\<Sum>av \<leftarrow> avs. unat (total_slots_count av))"
    if "\<forall>av \<in> set avs. volume_ok storage (ag_slot_width ag) av" for avs
    using that by (induction avs) (auto simp: length_vol_chunks [of storage] distrib_left)
  then have "length (held_chunks ag) = unat (ag_slot_width ag) * (\<Sum>av \<leftarrow> subspaces ag. unat (total_slots_count av))"
    using assms by (simp add: held_chunks_def group_ok_def)
  moreover have "length (held_chunks ag) < 2 ^ 31" using assms held_bound unfolding group_ok_def by blast
  ultimately show less: "(\<Sum>av \<leftarrow> subspaces ag. unat (total_slots_count av)) < 2 ^ 31"
    using w by (metis le_less_trans mult_le_mono1 nat_mult_1)
  have "unat (sum_list (map total_slots_count avs)) = (\<Sum>av \<leftarrow> avs. unat (total_slots_count av))"
    if "(\<Sum>av \<leftarrow> avs. unat (total_slots_count av)) < 2 ^ 31" for avs
    using that by (induction avs) (simp_all add: unat_word_ariths)
  with less show "unat (assembly_group_get_used_slots_count ag) = (\<Sum>av \<leftarrow> subspaces ag. unat (total_slots_count av))"
    by (simp add: assembly_group_get_used_slots_count_def)
qed

section \<open>Reserving, resizing and releasing\<close>

lemma volume_ok_alloc: "volume_ok storage w (assembly_volume_alloc uuid)" "vol_chunks (assembly_volume_alloc uuid) = []"
  by (simp_all add: volume_ok_def assembly_volume_alloc_def vol_chunks_def)

lemma volume_shrink:
  assumes av: "volume_ok storage w av" and acc: "accounted storage rdevs (vol_chunks av @ held)" and n: "new_count \<le> total_slots_count av"
  shows "\<exists>av' rdevs'. assembly_volume_resize av storage w new_count rdevs = Some (Inr (), av', rdevs') \<and>
    av' = av\<lparr>av_slots := take (unat new_count) (av_slots av), total_slots_count := new_count\<rparr> \<and> volume_ok storage w av' \<and>
    accounted storage rdevs' (vol_chunks av' @ held) \<and> pool_same storage rdevs rdevs'"
proof (cases "new_count = total_slots_count av")
  case True
  with av acc show ?thesis by (simp add: assembly_volume_resize_def volume_ok_def pool_same_refl)
next
  case False
  with n have less: "new_count < total_slots_count av" by simp
  then have sub: "unat (total_slots_count av - new_count) = unat (total_slots_count av) - unat new_count"
    by (simp add: unat_sub)
  have len: "length (av_slots av) = unat (total_slots_count av)" using av by (simp add: volume_ok_def)
  let ?kept = "take (unat new_count) (av_slots av)" and ?gone = "drop (unat new_count) (av_slots av)"
  have split: "vol_chunks av = concat (map slot_chunks ?kept) @ concat (map slot_chunks ?gone)"
    by (metis append_take_drop_id concat_append map_append vol_chunks_def)
  have "mset (vol_chunks av @ held) = mset (concat (map slot_chunks ?gone) @ concat (map slot_chunks ?kept) @ held)"
    unfolding split by simp
  with acc have "accounted storage rdevs (concat (map slot_chunks ?gone) @ concat (map slot_chunks ?kept) @ held)" by (rule pool.ok_perm)
  moreover have "\<forall>slot \<in> set ?gone. length (slot_chunks slot) = unat (slot_width slot)"
    using av by (auto simp: volume_ok_def slot_ok_def dest!: in_set_dropD)
  ultimately obtain rdevs' where "for_each (\<lambda>slot. slot_free (Some slot)) ?gone rdevs = Some rdevs'"
    "accounted storage rdevs' (concat (map slot_chunks ?kept) @ held)" "pool_same storage rdevs rdevs'" using free_slots_ok by blast
  moreover have "volume_ok storage w (av\<lparr>av_slots := ?kept, total_slots_count := new_count\<rparr>)"
    using av less len by (auto simp: volume_ok_def word_less_nat_alt dest: in_set_takeD)
  ultimately show ?thesis
    using False less sub len by (auto simp: assembly_volume_resize_def Let_def free_slots_def vol_chunks_def min_absorb1)
qed

lemma volume_grow:
  assumes av: "volume_ok storage w av" and acc: "accounted storage rdevs (vol_chunks av @ held)"
    and n: "total_slots_count av < new_count" and w: "0 < w"
  shows "if dom_fit (length (spof_groups storage)) (unat w) (dom_free storage rdevs) (unat new_count - unat (total_slots_count av))
    then \<exists>av' rdevs' slots. assembly_volume_resize av storage w new_count rdevs = Some (Inr (), av', rdevs') \<and>
      av' = av\<lparr>av_slots := av_slots av @ slots, total_slots_count := new_count\<rparr> \<and> volume_ok storage w av' \<and>
      accounted storage rdevs' (vol_chunks av' @ held) \<and> pool_same storage rdevs rdevs'
    else assembly_volume_resize av storage w new_count rdevs = None"
proof -
  let ?N = "unat new_count - unat (total_slots_count av)"
  have len: "length (av_slots av) = unat (total_slots_count av)" using av by (simp add: volume_ok_def)
  have resize: "assembly_volume_resize av storage w new_count rdevs = map_option (\<lambda>(slots, rdevs').
      (Inr (), av\<lparr>av_slots := av_slots av @ slots, total_slots_count := new_count\<rparr>, rdevs'))
      (make_times (slot_make (spof_groups storage) w) ?N rdevs)"
    using n len by (cases "make_times (slot_make (spof_groups storage) w) ?N rdevs")
      (auto simp: assembly_volume_resize_def Let_def min_absorb2 less_imp_le)
  note make = make_slots_ok [OF acc w, of ?N]
  show ?thesis
  proof (cases "dom_fit (length (spof_groups storage)) (unat w) (dom_free storage rdevs) ?N")
    case True
    with make obtain slots rdevs' where slots: "make_times (slot_make (spof_groups storage) w) ?N rdevs = Some (slots, rdevs')"
      "length slots = ?N" "\<forall>slot \<in> set slots. slot_ok storage w slot"
      "accounted storage rdevs' (concat (map slot_chunks slots) @ vol_chunks av @ held)" "pool_same storage rdevs rdevs'" by auto
    let ?av = "av\<lparr>av_slots := av_slots av @ slots, total_slots_count := new_count\<rparr>"
    have "accounted storage rdevs' (vol_chunks ?av @ held)" using slots(4) by (rule pool.ok_perm) (simp add: vol_chunks_def)
    moreover have "volume_ok storage w ?av" using av slots(2,3) len n by (auto simp: volume_ok_def word_less_nat_alt)
    ultimately show ?thesis using True resize slots by auto
  next
    case False
    with make resize show ?thesis by simp
  qed
qed

definition used_slots :: "assembly_group \<Rightarrow> nat" where
  "used_slots ag = (\<Sum>av \<leftarrow> subspaces ag. unat (total_slots_count av))"

lemma max_slots_ok:
  assumes ok: "group_ok storage rdevs ag" and avail: "assembly_group_get_available_slots_count ag storage rdevs = Some avail"
    and small: "unat avail < 2 ^ 31"
  shows "\<exists>m. assembly_group_get_max_slots_count ag storage rdevs = Some m \<and> unat m = unat avail + used_slots ag"
proof -
  have "unat (avail + assembly_group_get_used_slots_count ag) = unat avail + used_slots ag"
    using used_ok [OF ok] small by (simp add: unat_word_ariths used_slots_def)
  then show ?thesis using avail by (simp add: assembly_group_get_max_slots_count_def)
qed

lemma held_split:
  assumes "k < length (subspaces ag)"
  shows "mset (held_chunks ag) = mset (vol_chunks (subspaces ag ! k) @
    concat (map vol_chunks (take k (subspaces ag) @ drop (Suc k) (subspaces ag))))"
  unfolding held_chunks_def by (subst id_take_nth_drop [OF assms]) simp

text \<open>The test of the group before a volume is resized.\<close>

lemma group_resize_none:
  assumes ok: "group_ok storage rdevs ag" and avail: "assembly_group_get_available_slots_count ag storage rdevs = Some avail"
    "unat avail < 2 ^ 31" and more: "unat avail + used_slots ag < unat new_count"
  shows "assembly_group_resize_volume ag av new_count storage rdevs = Some (Inl VRT_ERR_NOT_ENOUGH_FREE_SC, av, rdevs)"
  using max_slots_ok [OF ok avail] more by (auto simp: assembly_group_resize_volume_def word_less_nat_alt)

lemma group_resize_some:
  assumes ok: "group_ok storage rdevs ag" and avail: "assembly_group_get_available_slots_count ag storage rdevs = Some avail"
    "unat avail < 2 ^ 31" and le: "unat new_count \<le> unat avail + used_slots ag"
  shows "assembly_group_resize_volume ag av new_count storage rdevs = assembly_volume_resize av storage (ag_slot_width ag) new_count rdevs"
  using max_slots_ok [OF ok avail] le by (auto simp: assembly_group_resize_volume_def word_less_nat_alt)

lemma group_okD:
  assumes "group_ok storage rdevs ag"
  shows "0 < ag_slot_width ag" "accounted storage rdevs (held_chunks ag)" "storage_ok storage rdevs"
    "av \<in> set (subspaces ag) \<Longrightarrow> volume_ok storage (ag_slot_width ag) av"
  using assms accountedD(1) unfolding group_ok_def by blast+

lemma group_ok_insert:
  assumes ok: "group_ok storage rdevs ag" and av: "volume_ok storage (ag_slot_width ag) av"
    and acc: "accounted storage rdevs' (vol_chunks av @ held_chunks ag)"
  shows "group_ok storage rdevs' (assembly_group_insert_volume ag av)"
proof -
  have "accounted storage rdevs' (held_chunks (assembly_group_insert_volume ag av))"
    using acc by (rule pool.ok_perm) (simp add: held_chunks_def assembly_group_insert_volume_def)
  with ok av show ?thesis by (auto simp: group_ok_def assembly_group_insert_volume_def)
qed

lemma group_ok_update:
  assumes ok: "group_ok storage rdevs ag" and av: "volume_ok storage (ag_slot_width ag) av" and k: "k < length (subspaces ag)"
    and acc: "accounted storage rdevs' (vol_chunks av @ concat (map vol_chunks (take k (subspaces ag) @ drop (Suc k) (subspaces ag))))"
  shows "group_ok storage rdevs' (ag\<lparr>subspaces := (subspaces ag)[k := av]\<rparr>)"
proof -
  have "held_chunks (ag\<lparr>subspaces := (subspaces ag)[k := av]\<rparr>) =
      concat (map vol_chunks (take k (subspaces ag))) @ vol_chunks av @ concat (map vol_chunks (drop (Suc k) (subspaces ag)))"
    unfolding held_chunks_def by (simp add: upd_conv_take_nth_drop [OF k])
  then have "accounted storage rdevs' (held_chunks (ag\<lparr>subspaces := (subspaces ag)[k := av]\<rparr>))"
    using pool.ok_perm [OF acc] by simp
  with ok av show ?thesis using set_update_subset_insert [of "subspaces ag" k av] by (auto simp: group_ok_def)
qed

definition without :: "assembly_group \<Rightarrow> nat \<Rightarrow> assembly_group" where
  "without ag k = ag\<lparr>subspaces := take k (subspaces ag) @ drop (Suc k) (subspaces ag), num_subspaces := num_subspaces ag - 1\<rparr>"

lemma release_ok:
  assumes ok: "group_ok storage rdevs ag" and k: "k < length (subspaces ag)"
  shows "\<exists>rdevs'. assembly_group_release_volume ag k storage rdevs = Some (without ag k, rdevs') \<and>
    group_ok storage rdevs' (without ag k) \<and> pool_same storage rdevs rdevs'"
proof -
  let ?av = "subspaces ag ! k" and ?ag = "without ag k"
  let ?rest = "concat (map vol_chunks (take k (subspaces ag) @ drop (Suc k) (subspaces ag)))"
  note D = group_okD [OF ok]
  have av: "volume_ok storage (ag_slot_width ag) ?av" using D(4) k by simp
  have acc: "accounted storage rdevs (vol_chunks ?av @ ?rest)" using D(2) held_split [OF k] by (rule pool.ok_perm)
  obtain av' rdevs' where r: "assembly_volume_resize ?av storage (ag_slot_width ag) 0 rdevs = Some (Inr (), av', rdevs')"
    "av' = ?av\<lparr>av_slots := [], total_slots_count := 0\<rparr>" "accounted storage rdevs' (vol_chunks av' @ ?rest)" "pool_same storage rdevs rdevs'"
    using volume_shrink [OF av acc, of 0] by auto
  obtain avail where "assembly_group_get_available_slots_count ?ag storage rdevs = Some avail"
    using available_ok [OF D(3), of ?ag] D(1) by (auto simp: without_def)
  then have "assembly_group_resize_volume ?ag ?av 0 storage rdevs = Some (Inr (), av', rdevs')"
    using r(1) by (simp add: assembly_group_resize_volume_def assembly_group_get_max_slots_count_def without_def)
  moreover have "assembly_volume_free av' rdevs' = Some rdevs'"
    using r(2) by (simp add: assembly_volume_free_def free_slots_def)
  moreover have "assembly_group_remove_volume ag k = Some (?av, ?ag)"
    using k by (cases "subspaces ag") (simp_all add: assembly_group_remove_volume_def without_def)
  ultimately have "assembly_group_release_volume ag k storage rdevs = Some (?ag, rdevs')"
    by (simp add: assembly_group_release_volume_def)
  moreover have "held_chunks ?ag = ?rest" by (simp add: held_chunks_def without_def)
  then have "group_ok storage rdevs' ?ag"
    using ok r(2,3) k by (auto simp: group_ok_def without_def vol_chunks_def of_nat_diff dest: in_set_takeD in_set_dropD)
  ultimately show ?thesis using r(4) by blast
qed

lemma reserve_fits:
  assumes ok: "group_ok storage rdevs ag" and avail: "assembly_group_get_available_slots_count ag storage rdevs = Some avail" "unat avail < 2 ^ 31"
    and fits: "\<And>S. dom_fit (length (spof_groups storage)) (unat (ag_slot_width ag)) (dom_free storage rdevs) S \<longleftrightarrow> S \<le> unat avail"
    and n: "unat nb_slots \<le> unat avail"
  shows "\<exists>av rdevs'. assembly_group_resize_volume ag (assembly_volume_alloc uuid) nb_slots storage rdevs = Some (Inr (), av, rdevs') \<and>
    av_uuid av = uuid \<and> total_slots_count av = nb_slots \<and> group_ok storage rdevs' (assembly_group_insert_volume ag av) \<and>
    pool_same storage rdevs rdevs'"
proof -
  let ?new = "assembly_volume_alloc uuid"
  note D = group_okD [OF ok]
  have new: "volume_ok storage (ag_slot_width ag) ?new" "accounted storage rdevs (vol_chunks ?new @ held_chunks ag)" "total_slots_count ?new = 0"
    using D(2) by (simp_all add: volume_ok_alloc) (simp add: assembly_volume_alloc_def)
  have "\<exists>av rdevs'. assembly_volume_resize ?new storage (ag_slot_width ag) nb_slots rdevs = Some (Inr (), av, rdevs') \<and>
      av_uuid av = uuid \<and> total_slots_count av = nb_slots \<and> volume_ok storage (ag_slot_width ag) av \<and>
      accounted storage rdevs' (vol_chunks av @ held_chunks ag) \<and> pool_same storage rdevs rdevs'"
  proof (cases "nb_slots = 0")
    case True
    with volume_shrink [OF new(1,2), of 0] new(3) show ?thesis by (auto simp: assembly_volume_alloc_def)
  next
    case False
    then have "total_slots_count ?new < nb_slots" using new(3) by (simp add: word_neq_0_conv)
    with volume_grow [OF new(1,2) this D(1)] fits n new(3) show ?thesis by (auto simp: assembly_volume_alloc_def)
  qed
  with group_resize_some [OF ok avail, of nb_slots ?new] n group_ok_insert [OF ok] show ?thesis by fastforce
qed

lemma reserve_between:
  assumes ok: "group_ok storage rdevs ag" and avail: "assembly_group_get_available_slots_count ag storage rdevs = Some avail" "unat avail < 2 ^ 31"
    and fits: "\<And>S. dom_fit (length (spof_groups storage)) (unat (ag_slot_width ag)) (dom_free storage rdevs) S \<longleftrightarrow> S \<le> unat avail"
    and n: "unat avail < unat nb_slots" "unat nb_slots \<le> unat avail + used_slots ag"
  shows "assembly_group_resize_volume ag (assembly_volume_alloc uuid) nb_slots storage rdevs = None"
proof -
  let ?new = "assembly_volume_alloc uuid"
  note D = group_okD [OF ok]
  have new: "volume_ok storage (ag_slot_width ag) ?new" "accounted storage rdevs (vol_chunks ?new @ held_chunks ag)" "total_slots_count ?new = 0"
    using D(2) by (simp_all add: volume_ok_alloc) (simp add: assembly_volume_alloc_def)
  have "total_slots_count ?new < nb_slots" using n(1) new(3) by (simp add: word_less_nat_alt)
  with volume_grow [OF new(1,2) this D(1)] fits n new(3) group_resize_some [OF ok avail] show ?thesis by simp
qed

lemma insert_release:
  assumes ok: "group_ok storage rdevs ag" and ok': "group_ok storage rdevs' (assembly_group_insert_volume ag av)"
    and same: "pool_same storage rdevs rdevs'"
  shows "assembly_group_release_volume (assembly_group_insert_volume ag av) (length (subspaces ag)) storage rdevs' = Some (ag, rdevs)"
proof -
  have "without (assembly_group_insert_volume ag av) (length (subspaces ag)) = ag"
    by (simp add: without_def assembly_group_insert_volume_def)
  then obtain rdevs'' where "assembly_group_release_volume (assembly_group_insert_volume ag av) (length (subspaces ag)) storage rdevs' = Some (ag, rdevs'')"
    "group_ok storage rdevs'' ag" "pool_same storage rdevs' rdevs''"
    using release_ok [OF ok', of "length (subspaces ag)"] by (auto simp: assembly_group_insert_volume_def)
  moreover from this have "rdevs = rdevs''"
    using pool.canonical [OF group_okD(2) [OF ok]] group_okD(2) pool_same_trans [OF same] by blast
  ultimately show ?thesis by simp
qed

section \<open>Properties\<close>

text \<open>C5: the outcome of reserving a volume is determined by the number of available slots. When at
  most that many are asked for, the volume is made and appended to the group, all its slots
  have their chunks in different failure domains, every chunk of the storage is still either
  free or in exactly one slot, and releasing the volume restores the group and every device
  exactly. When more slots are asked for than are available and in use together, the error is
  \<open>VRT_ERR_NOT_ENOUGH_FREE_SC\<close> and nothing changes. Between the two, the reservation aborts.\<close>

theorem reserve_volume_outcome:
  assumes "group_ok storage rdevs ag"
  shows "\<exists>avail. assembly_group_get_available_slots_count ag storage rdevs = Some avail \<and>
    (if unat nb_slots \<le> unat avail then
       \<exists>av rdevs'. assembly_group_reserve_volume ag uuid nb_slots storage rdevs =
           Some (Inr (length (subspaces ag)), assembly_group_insert_volume ag av, rdevs') \<and>
         av_uuid av = uuid \<and> total_slots_count av = nb_slots \<and> group_ok storage rdevs' (assembly_group_insert_volume ag av) \<and>
         assembly_group_release_volume (assembly_group_insert_volume ag av) (length (subspaces ag)) storage rdevs' = Some (ag, rdevs)
     else if unat nb_slots > unat avail + used_slots ag then
       assembly_group_reserve_volume ag uuid nb_slots storage rdevs = Some (Inl VRT_ERR_NOT_ENOUGH_FREE_SC, ag, rdevs)
     else assembly_group_reserve_volume ag uuid nb_slots storage rdevs = None)"
proof -
  let ?new = "assembly_volume_alloc uuid"
  obtain avail where avail: "assembly_group_get_available_slots_count ag storage rdevs = Some avail" "unat avail < 2 ^ 31"
    "\<And>S. dom_fit (length (spof_groups storage)) (unat (ag_slot_width ag)) (dom_free storage rdevs) S \<longleftrightarrow> S \<le> unat avail"
    using available_ok [OF group_okD(3,1) [OF assms]] by blast
  consider (fits) "unat nb_slots \<le> unat avail" | (abort) "unat avail < unat nb_slots" "unat nb_slots \<le> unat avail + used_slots ag"
    | (full) "unat avail + used_slots ag < unat nb_slots" by linarith
  then show ?thesis
  proof cases
    case fits
    then show ?thesis
      using reserve_fits [OF assms avail fits, of uuid] insert_release [OF assms] avail(1)
      by (fastforce simp: assembly_group_reserve_volume_def)
  next
    case abort
    then show ?thesis using reserve_between [OF assms avail abort, of uuid] avail(1) by (simp add: assembly_group_reserve_volume_def)
  next
    case full
    then show ?thesis using group_resize_none [OF assms avail(1,2) full, of ?new] avail(1)
      by (simp add: assembly_group_reserve_volume_def assembly_volume_free_def free_slots_def assembly_volume_alloc_def)
  qed
qed

text \<open>A storage of one device whose four chunks are free, and a group on it without a volume.\<close>

lemma accounted_fresh:
  assumes "storage_ok storage rdevs" "\<forall>r \<in> set (storage_rdevs storage). free_idx (rdevs ! r) = {..<unat (total_chunks_count (rdevs ! r))}"
  shows "accounted storage rdevs []"
  using assms by (simp add: accounted_def)

definition example_free_rdev :: vrt_realdev where
  "example_free_rdev = example_rdev\<lparr>free_chunks := [extent_new 0 3], free_chunks_count := 4\<rparr>"

definition example_ag :: assembly_group where
  "example_ag = \<lparr> initialized = True, ag_slot_size = 8, ag_slot_width = 1, subspaces = [], num_subspaces = 0 \<rparr>"

lemma example_free_values: "values_of [extent_new 0 3] = {0, 1, 2, 3}"
proof -
  have "x = 0 \<or> x = 1 \<or> x = 2 \<or> x = 3" if "x \<le> 3" for x :: "64 word"
  proof -
    have "unat x \<le> 3" using that by (simp add: word_le_nat_alt)
    then have "unat x = 0 \<or> unat x = 1 \<or> unat x = 2 \<or> unat x = 3" by linarith
    then show ?thesis unfolding word_unat_eq_iff by simp
  qed
  then show ?thesis by (auto simp: ext_values_def extent_new_def)
qed

lemma example_free_rdev_ok: "rdev_ok example_free_rdev" "free_idx example_free_rdev = {..<4}"
proof -
  have f: "free_chunks example_free_rdev = [extent_new 0 3]" "free_chunks_count example_free_rdev = 4"
    "total_chunks_count example_free_rdev = 4" "rdev_chunk_size example_free_rdev = 8"
    by (simp_all add: example_free_rdev_def example_rdev_def)
  have "extents_wf [extent_new 0 3]" by (simp add: extents_wf_def)
  then show "rdev_ok example_free_rdev" unfolding rdev_ok_def f example_free_values by simp
  show "free_idx example_free_rdev = {..<4}" unfolding free_idx_def f example_free_values by auto
qed

lemma example_ag_ok: "group_ok example_storage [example_free_rdev] example_ag"
proof -
  have "storage_ok example_storage [example_free_rdev]"
    using example_storage_wf example_free_rdev_ok
    by (simp add: storage_ok_def) (simp add: example_storage_def example_group_def example_free_rdev_def example_rdev_def)
  then have "accounted example_storage [example_free_rdev] []"
    using example_free_rdev_ok example_storage_wf(2)
    by (intro accounted_fresh) (simp_all add: example_free_rdev_def example_rdev_def)
  then show ?thesis by (simp add: group_ok_def example_ag_def held_chunks_def)
qed

theorem reserve_volume_outcome_witness:
  "assembly_group_get_available_slots_count example_ag example_storage [example_free_rdev] = Some 4 \<and>
   (\<exists>ag' rdevs'. assembly_group_reserve_volume example_ag uuid_zero 3 example_storage [example_free_rdev] = Some (Inr 0, ag', rdevs') \<and>
     group_ok example_storage rdevs' ag' \<and> assembly_group_release_volume ag' 0 example_storage rdevs' = Some (example_ag, [example_free_rdev]))"
proof -
  have "assembly_group_get_available_slots_count example_ag example_storage [example_free_rdev] = Some 4"
    by code_simp
  with reserve_volume_outcome [OF example_ag_ok, of 3 uuid_zero] show ?thesis
    by (fastforce simp: example_ag_def)
qed

text \<open>C12: changing the size of a volume of a group. The new size is reached exactly when the slots to
  add, if any, are available; the slots that remain are the same, in the same order, every
  slot has its chunks in different domains, and every chunk is still either free or in
  exactly one slot of the group. More slots than available and in use together is the error
  \<open>VRT_ERR_NOT_ENOUGH_FREE_SC\<close>, which changes nothing; between the two, the call aborts. Making
  a volume smaller therefore always succeeds.\<close>

theorem resize_volume_outcome:
  assumes ok: "group_ok storage rdevs ag" and k: "k < length (subspaces ag)"
  shows "\<exists>avail. assembly_group_get_available_slots_count ag storage rdevs = Some avail \<and>
    (if unat new_count \<le> unat avail + unat (total_slots_count (subspaces ag ! k)) then
       \<exists>av rdevs'. resize_subspace ag k new_count storage rdevs = Some (Inr (), ag\<lparr>subspaces := (subspaces ag)[k := av]\<rparr>, rdevs') \<and>
         av_uuid av = av_uuid (subspaces ag ! k) \<and> total_slots_count av = new_count \<and>
         (\<exists>slots. av_slots av = take (unat new_count) (av_slots (subspaces ag ! k)) @ slots) \<and>
         group_ok storage rdevs' (ag\<lparr>subspaces := (subspaces ag)[k := av]\<rparr>)
     else if unat new_count > unat avail + used_slots ag then
       resize_subspace ag k new_count storage rdevs = Some (Inl VRT_ERR_NOT_ENOUGH_FREE_SC, ag, rdevs)
     else resize_subspace ag k new_count storage rdevs = None)"
proof -
  let ?av = "subspaces ag ! k"
  let ?rest = "concat (map vol_chunks (take k (subspaces ag) @ drop (Suc k) (subspaces ag)))"
  note D = group_okD [OF ok]
  obtain avail where avail: "assembly_group_get_available_slots_count ag storage rdevs = Some avail" "unat avail < 2 ^ 31"
    "\<And>S. dom_fit (length (spof_groups storage)) (unat (ag_slot_width ag)) (dom_free storage rdevs) S \<longleftrightarrow> S \<le> unat avail"
    using available_ok [OF D(3,1)] by blast
  have av: "volume_ok storage (ag_slot_width ag) ?av" using D(4) k by simp
  have acc: "accounted storage rdevs (vol_chunks ?av @ ?rest)" using D(2) held_split [OF k] by (rule pool.ok_perm)
  have used: "unat (total_slots_count ?av) \<le> used_slots ag" using k elem_le_sum_list [of k "map (\<lambda>av. unat (total_slots_count av)) (subspaces ag)"] by (simp add: used_slots_def)
  note some = group_resize_some [OF ok avail(1,2), of new_count ?av]
  consider (shrink) "new_count \<le> total_slots_count ?av"
    | (grow) "total_slots_count ?av < new_count" "unat new_count \<le> unat avail + used_slots ag"
    | (full) "unat avail + used_slots ag < unat new_count" by fastforce
  then show ?thesis
  proof cases
    case shrink
    then have "unat new_count \<le> unat (total_slots_count ?av)" by (simp add: word_le_nat_alt)
    with volume_shrink [OF av acc shrink] used some group_ok_update [OF ok _ k] avail(1) show ?thesis
      by (fastforce simp: resize_subspace_def)
  next
    case grow
    note g = volume_grow [OF av acc grow(1) D(1)]
    show ?thesis
    proof (cases "unat new_count \<le> unat avail + unat (total_slots_count ?av)")
      case True
      then have "unat new_count - unat (total_slots_count ?av) \<le> unat avail" by simp
      with g avail(3) obtain av' rdevs' slots where "assembly_volume_resize ?av storage (ag_slot_width ag) new_count rdevs = Some (Inr (), av', rdevs')"
        "av' = ?av\<lparr>av_slots := av_slots ?av @ slots, total_slots_count := new_count\<rparr>" "volume_ok storage (ag_slot_width ag) av'"
        "accounted storage rdevs' (vol_chunks av' @ ?rest)" by auto
      moreover have "take (unat new_count) (av_slots ?av) = av_slots ?av" using av grow(1) by (simp add: volume_ok_def word_less_nat_alt)
      ultimately show ?thesis using True some grow(2) group_ok_update [OF ok _ k] avail(1) by (auto simp: resize_subspace_def)
    next
      case False
      with g avail(3) some grow(2) avail(1) show ?thesis by (simp add: resize_subspace_def)
    qed
  next
    case full
    with used group_resize_none [OF ok avail(1,2) full, of ?av] avail(1) show ?thesis by (simp add: resize_subspace_def)
  qed
qed

lemma example_reserved:
  obtains av rdevs where "group_ok example_storage rdevs (assembly_group_insert_volume example_ag av)" "total_slots_count av = 3"
    "pool_same example_storage [example_free_rdev] rdevs"
proof -
  have avail: "assembly_group_get_available_slots_count example_ag example_storage [example_free_rdev] = Some 4" by code_simp
  obtain a where a: "assembly_group_get_available_slots_count example_ag example_storage [example_free_rdev] = Some a"
    "\<And>S. dom_fit (length (spof_groups example_storage)) (unat (ag_slot_width example_ag)) (dom_free example_storage [example_free_rdev]) S \<longleftrightarrow> S \<le> unat a"
    using available_ok [OF group_okD(3,1) [OF example_ag_ok]] by metis
  then have "a = 4" using avail by simp
  with reserve_fits [OF example_ag_ok avail, of 3] a(2) that show thesis by auto
qed

theorem resize_volume_outcome_witness:
  "\<exists>ag rdevs ag' rdevs'. group_ok example_storage rdevs ag \<and> subspaces ag \<noteq> [] \<and>
     resize_subspace ag 0 1 example_storage rdevs = Some (Inr (), ag', rdevs') \<and> group_ok example_storage rdevs' ag'"
proof -
  obtain av rdevs where av: "group_ok example_storage rdevs (assembly_group_insert_volume example_ag av)" "total_slots_count av = 3"
    by (rule example_reserved)
  have sub: "subspaces (assembly_group_insert_volume example_ag av) = [av]"
    by (simp add: assembly_group_insert_volume_def example_ag_def)
  with resize_volume_outcome [OF av(1), of 0 1] av obtain ag' rdevs' where
    "resize_subspace (assembly_group_insert_volume example_ag av) 0 1 example_storage rdevs = Some (Inr (), ag', rdevs')"
    "group_ok example_storage rdevs' ag'" by auto
  with av(1) sub show ?thesis by (metis list.distinct(1))
qed

end
