(* ===== verification/Vrt_Assembly_Store.thy ===== *)
theory Vrt_Assembly_Store
  imports Vrt_Assembly
begin

text \<open>
  The assembly group on the disk and on the disks. The first part reads back the superblock of a
  group: reading takes exactly the chunks that the volumes held, so that the group and every
  device are restored. The second part is the mapping of sectors: each sector of a volume has
  its own place on the devices.
\<close>

section \<open>The records of a group\<close>

definition chunk_record :: "rdevs \<Rightarrow> chunk option \<Rightarrow> byte list" where
  "chunk_record rdevs c = uuid_bytes (rdev_uuid (rdevs ! chunk_rdev (the c))) @ le64 (chunk_offset (the c))"

definition slot_records :: "rdevs \<Rightarrow> slot \<Rightarrow> byte list list" where
  "slot_records rdevs slot = le32 (slot_width slot) # map (chunk_record rdevs) (slot_chunks slot)"

definition volume_header :: "assembly_volume \<Rightarrow> byte list" where
  "volume_header av = le32 AV_HEADER_MAGIC @ le32 0 @ uuid_bytes (av_uuid av) @ le64 (total_slots_count av)"

definition volume_records :: "rdevs \<Rightarrow> assembly_volume \<Rightarrow> byte list list" where
  "volume_records rdevs av = volume_header av # concat (map (slot_records rdevs) (av_slots av))"

definition group_header :: "assembly_group \<Rightarrow> byte list" where
  "group_header ag = le32 AG_HEADER_MAGIC @ le32 AG_HEADER_FORMAT @ le32 (ag_slot_size ag) @ le32 (ag_slot_width ag) @ le32 (num_subspaces ag)"

definition group_records :: "rdevs \<Rightarrow> assembly_group \<Rightarrow> byte list list" where
  "group_records rdevs ag = group_header ag # concat (map (volume_records rdevs) (subspaces ag))"

lemma each_io_opt_write_all:
  "(\<And>x s. x \<in> set xs \<Longrightarrow> f x s = Some (write_all write (enc x) s)) \<Longrightarrow>
   each_io_opt f xs s = Some (write_all write (concat (map enc xs)) s)"
  by (induction xs arbitrary: s) (auto simp: write_all_append split: prod.splits sum.splits)

lemma slot_serialize_eq:
  assumes "slot_ok storage w slot" "None \<notin> set (slot_chunks slot)"
  shows "slot_serialize rdevs slot s = Some (write_all stream_write (slot_records rdevs slot) s)"
proof -
  have "each_io_opt (chunk_serialize rdevs) cs s = Some (write_all stream_write (map (chunk_record rdevs) cs) s)"
    if "None \<notin> set cs" for cs s
  proof -
    have "each_io_opt (chunk_serialize rdevs) cs s = Some (write_all stream_write (concat (map (\<lambda>c. [chunk_record rdevs c]) cs)) s)"
      using that by (intro each_io_opt_write_all)
        (auto simp: chunk_serialize_def chunk_record_def chunk_get_rdev_def split: Option.bind_splits prod.splits sum.splits, metis option.exhaust)
    then show ?thesis by simp
  qed
  with assms show ?thesis
    by (simp add: slot_serialize_def slot_records_def slot_ok_def split: prod.splits sum.splits)
qed

lemma volume_serialize_eq:
  assumes "volume_ok storage w av" "None \<notin> set (vol_chunks av)"
  shows "assembly_volume_serialize rdevs av s = Some (write_all stream_write (volume_records rdevs av) s)"
proof -
  have "each_io_opt (slot_serialize rdevs) (av_slots av) s = Some (write_all stream_write (concat (map (slot_records rdevs) (av_slots av))) s)" for s
    using assms by (intro each_io_opt_write_all slot_serialize_eq) (auto simp: volume_ok_def vol_chunks_def)
  with assms(1) show ?thesis
    by (simp add: assembly_volume_serialize_def volume_records_def volume_header_def volume_ok_def split: prod.splits sum.splits)
qed

lemma group_serialize_eq:
  assumes "group_ok storage rdevs ag"
  shows "assembly_group_serialize rdevs ag s = Some (write_all stream_write (group_records rdevs ag) s)"
proof -
  have "None \<notin> set (held_chunks ag)" using accountedD(3) [OF group_okD(2) [OF assms], of None] by auto
  then have "each_io_opt (assembly_volume_serialize rdevs) (subspaces ag) s =
      Some (write_all stream_write (concat (map (volume_records rdevs) (subspaces ag))) s)" for s
    using group_okD(4) [OF assms] by (intro each_io_opt_write_all volume_serialize_eq) (auto simp: held_chunks_def)
  then show ?thesis
    by (simp add: assembly_group_serialize_def group_records_def group_header_def split: prod.splits sum.splits)
qed

section \<open>Reading back\<close>

text \<open>The devices \<open>rdevs\<close> have the chunks \<open>held\<close> taken, and the chunks \<open>cs\<close> are to be taken next.
  The devices differ from \<open>ref\<close>, those that were written, in their free chunks only.\<close>

definition loadable :: "storage \<Rightarrow> rdevs \<Rightarrow> rdevs \<Rightarrow> chunk option list \<Rightarrow> chunk option list \<Rightarrow> bool" where
  "loadable storage ref rdevs held cs \<longleftrightarrow> accounted storage rdevs held \<and> pool_same storage ref rdevs \<and> uuids_differ ref storage \<and>
     distinct (cs @ held) \<and>
     (\<forall>c \<in> set cs. \<exists>r \<in> set (storage_rdevs storage). \<exists>i < unat (total_chunks_count (ref ! r)). c = Some (chunk_at ref r i))"

definition loaded :: "storage \<Rightarrow> rdevs \<Rightarrow> rdevs \<Rightarrow> chunk option list \<Rightarrow> chunk option list \<Rightarrow> bool" where
  "loaded storage ref rdevs held cs \<longleftrightarrow> accounted storage rdevs (cs @ held) \<and> pool_same storage ref rdevs"

lemma loadable_more:
  assumes "loadable storage ref rdevs held (as @ bs)"
  shows "loadable storage ref rdevs held as" "loaded storage ref rdevs' held as \<Longrightarrow> loadable storage ref rdevs' (as @ held) bs"
  using assms by (auto simp: loadable_def loaded_def)

lemma loaded_append:
  assumes "loaded storage ref rdevs (as @ held) bs"
  shows "loaded storage ref rdevs held (as @ bs)"
proof -
  have "accounted storage rdevs ((as @ bs) @ held)"
    by (rule pool.ok_perm [of _ _ "bs @ as @ held"]) (use assms in \<open>simp_all add: loaded_def\<close>)
  with assms show ?thesis by (simp add: loaded_def)
qed

lemma loaded_Nil: "loadable storage ref rdevs held [] \<Longrightarrow> loaded storage ref rdevs held []"
  by (simp add: loadable_def loaded_def)

lemma chunk_header_read_at:
  assumes "store.at s (chunk_record ref c @ rest)"
  shows "\<exists>s'. chunk_header_read s = (Inr \<lparr> ch_rdev_uuid = rdev_uuid (ref ! chunk_rdev (the c)), ch_offset = chunk_offset (the c) \<rparr>, s') \<and>
    store.at s' rest"
  using store.read_exact_at [OF assms, of 24] by (auto simp: chunk_header_read_def chunk_record_def)

lemma chunk_deserialize_ok:
  assumes load: "loadable storage ref rdevs held [c]" and ahead: "store.at s (chunk_record ref c @ rest)"
  shows "\<exists>rdevs' s'. chunk_deserialize storage rdevs s = Some (Inr (the c), rdevs', s') \<and> loaded storage ref rdevs' held [c] \<and> store.at s' rest"
proof -
  have acc: "accounted storage rdevs held" and same: "pool_same storage ref rdevs" and uuids: "uuids_differ ref storage"
    and new: "c \<notin> set held" using load by (simp_all add: loadable_def)
  obtain r i where r: "r \<in> set (storage_rdevs storage)" "i < unat (total_chunks_count (ref ! r))" "c = Some (chunk_at ref r i)"
    using load by (auto simp: loadable_def)
  have len: "x < length ref" if "x \<in> set (storage_rdevs storage)" for x
    using accountedD(1) [OF acc] that same by (simp add: storage_ok_def pool_same_def)
  note at = pool_same_chunk_at [OF same len [OF r(1)]]
  have uuid: "rdev_uuid (rdevs ! x) = rdev_uuid (ref ! x)" if "x \<in> set (storage_rdevs storage)" for x
    using same len [OF that] rdev_sameD(3) by (simp add: pool_same_def)
  then have "uuids_differ rdevs storage" using uuids unfolding uuids_differ_def by (metis (mono_tags, lifting) map_eq_conv)
  then have find: "storage_get_rdev rdevs storage (rdev_uuid (ref ! r)) = Some r"
    using storage_get_rdev_ok [OF _ r(1)] uuid [OF r(1)] by metis
  have free: "i \<in> free_idx (rdevs ! r)" using accountedD(4) [OF acc r(1), of i] r(2,3) new at by simp
  have rok: "rdev_ok (rdevs ! r)" using accountedD(1) [OF acc] r(1) by (simp add: storage_ok_def)
  let ?rdevs = "rdevs[r := rdev_take (of_nat i) (rdevs ! r)]"
  have "chunk_offset (chunk_at ref r i) = offset_of (rdev_chunk_size (rdevs ! r)) i"
    using at by (metis chunk.select_convs(2) chunk_alloc_def chunk_at_def)
  moreover have "chunk_at rdevs r i = chunk_at ref r i" using at by simp
  ultimately have get: "chunk_get_from_rdev_at_offset r (chunk_offset (chunk_at ref r i)) rdevs = Some (chunk_at ref r i, ?rdevs)"
    using get_at_offset_ok [OF rok free] by simp
  have "chunk_rdev (chunk_at ref r i) = r" by (simp add: chunk_at_def chunk_alloc_def)
  then obtain s' where "chunk_header_read s = (Inr \<lparr> ch_rdev_uuid = rdev_uuid (ref ! r), ch_offset = chunk_offset (chunk_at ref r i) \<rparr>, s')"
    "store.at s' rest" using chunk_header_read_at [OF ahead] r(3) by auto
  moreover have "loaded storage ref ?rdevs held [c]"
    using accounted_take [OF acc r(1) free] pool_same_trans [OF same] r(3) at by (simp add: loaded_def)
  ultimately show ?thesis using find get r(3) by (simp add: chunk_deserialize_def)
qed

lemma deserialize_chunks_ok:
  assumes "loadable storage ref rdevs held cs" "store.at s (concat (map (chunk_record ref) cs) @ rest)"
  shows "\<exists>rdevs' s'. deserialize_chunks (length cs) storage rdevs s = Some (None, map the cs, rdevs', s') \<and>
    loaded storage ref rdevs' held cs \<and> store.at s' rest"
  using assms
proof (induction cs arbitrary: rdevs s held)
  case Nil
  then show ?case by (simp add: loaded_Nil)
next
  case (Cons c cs)
  have load: "loadable storage ref rdevs held ([c] @ cs)" using Cons.prems(1) by simp
  obtain r1 s1 where s1: "chunk_deserialize storage rdevs s = Some (Inr (the c), r1, s1)" "loaded storage ref r1 held [c]"
    "store.at s1 (concat (map (chunk_record ref) cs) @ rest)"
    using chunk_deserialize_ok [OF loadable_more(1) [OF load]] Cons.prems(2) by (metis append_assoc concat.simps(2) list.simps(9))
  obtain r2 s2 where "deserialize_chunks (length cs) storage r1 s1 = Some (None, map the cs, r2, s2)"
    "loaded storage ref r2 ([c] @ held) cs" "store.at s2 rest"
    using Cons.IH [OF loadable_more(2) [OF load s1(2)] s1(3)] by blast
  with s1(1) loaded_append [of storage ref r2 "[c]" held cs] show ?case by simp
qed

lemma slot_deserialize_ok:
  assumes load: "loadable storage ref rdevs held (slot_chunks slot)" and ok: "slot_ok storage w slot"
    and ahead: "store.at s (concat (slot_records ref slot) @ rest)"
  shows "\<exists>rdevs' s'. slot_deserialize storage rdevs s = Some (Inr slot, rdevs', s') \<and>
    loaded storage ref rdevs' held (slot_chunks slot) \<and> store.at s' rest"
proof -
  have "store.at s (le32 (slot_width slot) @ concat (map (chunk_record ref) (slot_chunks slot)) @ rest)"
    using ahead by (simp add: slot_records_def)
  then obtain s1 where s1: "slot_header_read s = (Inr (slot_width slot), s1)" "store.at s1 (concat (map (chunk_record ref) (slot_chunks slot)) @ rest)"
    using store.read_exact_at [of s "le32 (slot_width slot)" _ 4] by (fastforce simp: slot_header_read_def)
  obtain rdevs' s2 where "deserialize_chunks (length (slot_chunks slot)) storage rdevs s1 = Some (None, map the (slot_chunks slot), rdevs', s2)"
    "loaded storage ref rdevs' held (slot_chunks slot)" "store.at s2 rest" using deserialize_chunks_ok [OF load s1(2)] by blast
  moreover have "map Some (map the (slot_chunks slot)) = slot_chunks slot"
    using load by (force simp: loadable_def intro!: map_idI)
  then have "\<lparr> slot_chunks = map (Some \<circ> the) (slot_chunks slot), slot_width = slot_width slot \<rparr> = slot" by simp
  ultimately show ?thesis using s1(1) ok by (simp add: slot_deserialize_def slot_ok_def)
qed

lemma deserialize_slots_ok:
  assumes "loadable storage ref rdevs held (concat (map slot_chunks slots))" "\<forall>slot \<in> set slots. slot_ok storage w slot"
    and "store.at s (concat (concat (map (slot_records ref) slots)) @ rest)"
  shows "\<exists>rdevs' s'. deserialize_slots (length slots) storage rdevs s = Some (None, slots, rdevs', s') \<and>
    loaded storage ref rdevs' held (concat (map slot_chunks slots)) \<and> store.at s' rest"
  using assms
proof (induction slots arbitrary: rdevs s held)
  case Nil
  then show ?case by (simp add: loaded_Nil)
next
  case (Cons slot slots)
  have load: "loadable storage ref rdevs held (slot_chunks slot @ concat (map slot_chunks slots))" using Cons.prems(1) by simp
  have "store.at s (concat (slot_records ref slot) @ concat (concat (map (slot_records ref) slots)) @ rest)" using Cons.prems(3) by simp
  then obtain r1 s1 where s1: "slot_deserialize storage rdevs s = Some (Inr slot, r1, s1)" "loaded storage ref r1 held (slot_chunks slot)"
    "store.at s1 (concat (concat (map (slot_records ref) slots)) @ rest)"
    using slot_deserialize_ok [OF loadable_more(1) [OF load]] Cons.prems(2) by fastforce
  obtain r2 s2 where "deserialize_slots (length slots) storage r1 s1 = Some (None, slots, r2, s2)"
    "loaded storage ref r2 (slot_chunks slot @ held) (concat (map slot_chunks slots))" "store.at s2 rest"
    using Cons.IH [OF loadable_more(2) [OF load s1(2)] _ s1(3)] Cons.prems(2) by auto
  with s1(1) loaded_append show ?case by fastforce
qed

lemma volume_deserialize_ok:
  assumes load: "loadable storage ref rdevs held (vol_chunks av)" and ok: "volume_ok storage w av"
    and ahead: "store.at s (concat (volume_records ref av) @ rest)"
  shows "\<exists>rdevs' s'. assembly_volume_deserialize storage rdevs s = Some (Inr av, rdevs', s') \<and>
    loaded storage ref rdevs' held (vol_chunks av) \<and> store.at s' rest"
proof -
  let ?bs = "concat (concat (map (slot_records ref) (av_slots av)))"
  have "store.at s (volume_header av @ ?bs @ rest)" using ahead by (simp add: volume_records_def)
  then obtain s1 where s1: "assembly_volume_header_read s = (Inr \<lparr> avh_magic = AV_HEADER_MAGIC, avh_reserved = 0, avh_uuid = av_uuid av,
      avh_total_slot_count = total_slots_count av \<rparr>, s1)" "store.at s1 (?bs @ rest)"
    using store.read_exact_at [of s "volume_header av" _ 32] by (fastforce simp: assembly_volume_header_read_def volume_header_def)
  obtain rdevs' s2 where "deserialize_slots (length (av_slots av)) storage rdevs s1 = Some (None, av_slots av, rdevs', s2)"
    "loaded storage ref rdevs' held (vol_chunks av)" "store.at s2 rest"
    using deserialize_slots_ok [of storage ref rdevs held "av_slots av" w s1 rest] load ok s1(2) by (auto simp: vol_chunks_def volume_ok_def)
  moreover have "(assembly_volume_alloc (av_uuid av))\<lparr>av_slots := av_slots av, total_slots_count := of_nat (length (av_slots av))\<rparr> = av"
    using ok by (simp add: assembly_volume_alloc_def volume_ok_def)
  ultimately show ?thesis using s1(1) ok by (simp add: assembly_volume_deserialize_def volume_ok_def)
qed

lemma deserialize_volumes_ok:
  assumes "loadable storage ref rdevs held (concat (map vol_chunks avs))" "\<forall>av \<in> set avs. volume_ok storage w av"
    and "store.at s (concat (concat (map (volume_records ref) avs)) @ rest)"
  shows "\<exists>rdevs' s'. deserialize_volumes (length avs) storage ag rdevs s =
      Some (None, ag\<lparr>subspaces := subspaces ag @ avs, num_subspaces := num_subspaces ag + of_nat (length avs)\<rparr>, rdevs', s') \<and>
    loaded storage ref rdevs' held (concat (map vol_chunks avs)) \<and> store.at s' rest"
  using assms
proof (induction avs arbitrary: ag rdevs s held)
  case Nil
  then show ?case by (simp add: loaded_Nil)
next
  case (Cons av avs)
  have load: "loadable storage ref rdevs held (vol_chunks av @ concat (map vol_chunks avs))" using Cons.prems(1) by simp
  have "store.at s (concat (volume_records ref av) @ concat (concat (map (volume_records ref) avs)) @ rest)" using Cons.prems(3) by simp
  then obtain r1 s1 where s1: "assembly_volume_deserialize storage rdevs s = Some (Inr av, r1, s1)" "loaded storage ref r1 held (vol_chunks av)"
    "store.at s1 (concat (concat (map (volume_records ref) avs)) @ rest)"
    using volume_deserialize_ok [OF loadable_more(1) [OF load]] Cons.prems(2) by fastforce
  let ?ag = "assembly_group_insert_volume ag av"
  obtain r2 s2 where s2: "deserialize_volumes (length avs) storage ?ag r1 s1 =
      Some (None, ?ag\<lparr>subspaces := subspaces ?ag @ avs, num_subspaces := num_subspaces ?ag + of_nat (length avs)\<rparr>, r2, s2)"
    "loaded storage ref r2 (vol_chunks av @ held) (concat (map vol_chunks avs))" "store.at s2 rest"
    using Cons.IH [OF loadable_more(2) [OF load s1(2)] _ s1(3), of ?ag] Cons.prems(2) by auto
  moreover have "?ag\<lparr>subspaces := subspaces ?ag @ avs, num_subspaces := num_subspaces ?ag + of_nat (length avs)\<rparr> =
      ag\<lparr>subspaces := subspaces ag @ av # avs, num_subspaces := num_subspaces ag + of_nat (length (av # avs))\<rparr>"
    by (simp add: assembly_group_insert_volume_def)
  ultimately show ?case using s1(1) loaded_append [OF s2(2)] by simp
qed

section \<open>The size of the superblock\<close>

definition group_size :: "assembly_group \<Rightarrow> nat" where
  "group_size ag = 20 + (\<Sum>av \<leftarrow> subspaces ag. 32 + unat (total_slots_count av) * (4 + 24 * unat (ag_slot_width ag)))"

lemma length_chunk_record [simp]: "length (chunk_record rdevs c) = 24"
  by (simp add: chunk_record_def)

lemma length_slot_records: "slot_ok storage w slot \<Longrightarrow> length (concat (slot_records rdevs slot)) = 4 + 24 * unat w"
  by (simp add: slot_records_def slot_ok_def length_concat comp_def sum_list_triv)

lemma length_volume_records:
  assumes "volume_ok storage w av"
  shows "length (concat (volume_records rdevs av)) = 32 + unat (total_slots_count av) * (4 + 24 * unat w)"
proof -
  have "length (concat (concat (map (slot_records rdevs) slots))) = length slots * (4 + 24 * unat w)"
    if "\<forall>slot \<in> set slots. slot_ok storage w slot" for slots
    using that by (induction slots) (auto simp: length_slot_records [of storage w])
  with assms show ?thesis by (simp add: volume_records_def volume_header_def volume_ok_def)
qed

lemma length_group_records:
  assumes "group_ok storage rdevs ag"
  shows "length (concat (group_records rdevs ag)) = group_size ag"
proof -
  have "length (concat (concat (map (volume_records rdevs) avs))) = (\<Sum>av \<leftarrow> avs. 32 + unat (total_slots_count av) * (4 + 24 * unat (ag_slot_width ag)))"
    if "\<forall>av \<in> set avs. volume_ok storage (ag_slot_width ag) av" for avs
    using that by (induction avs) (auto simp: length_volume_records [of storage "ag_slot_width ag"])
  with group_okD(4) [OF assms] show ?thesis by (simp add: group_records_def group_header_def group_size_def)
qed

text \<open>The size that the code computes, when no volume is empty.\<close>

lemma serialized_size_ok:
  assumes ok: "group_ok storage rdevs ag" and slots: "\<forall>av \<in> set (subspaces ag). av_slots av \<noteq> []"
  shows "assembly_group_serialized_size ag = Some (of_nat (group_size ag))"
proof -
  let ?w = "ag_slot_width ag"
  have "volumes_serialized_size avs n = Some (n + of_nat (\<Sum>av \<leftarrow> avs. 32 + unat (total_slots_count av) * (4 + 24 * unat ?w)))"
    if "\<forall>av \<in> set avs. volume_ok storage ?w av \<and> av_slots av \<noteq> []" for avs n
    using that
  proof (induction avs arbitrary: n)
    case (Cons av avs)
    then have "av_slots av ! 0 \<in> set (av_slots av)" by (intro nth_mem) simp
    then have "slot_width (av_slots av ! 0) = ?w" using Cons.prems unfolding volume_ok_def slot_ok_def by (metis list.set_intros(1))
    then have "assembly_volume_serialized_size av = Some (32 + total_slots_count av * (4 + ucast ?w * 24))"
      using Cons.prems by (simp add: assembly_volume_serialized_size_def slot_serialized_size_def)
    with Cons show ?case by (simp add: ucast_32_of_nat [symmetric] algebra_simps)
  qed simp
  with group_okD(4) [OF ok] slots show ?thesis by (simp add: assembly_group_serialized_size_def group_size_def)
qed

section \<open>Properties\<close>



section \<open>Places on the devices\<close>

lemma concat_nth_inj:
  assumes "distinct (concat xss)" "i < length xss" "a < length (xss ! i)" "j < length xss" "b < length (xss ! j)"
    and "xss ! i ! a = xss ! j ! b"
  shows "i = j \<and> a = b"
  using assms
proof (induction xss arbitrary: i j)
  case (Cons xs xss)
  have out: "ys ! c \<notin> set xs" if "ys \<in> set xss" "c < length ys" for ys c
    using Cons.prems(1) that by (simp add: disjoint_iff) (metis nth_mem)
  show ?case
  proof (cases i; cases j)
    fix i' j' assume "i = Suc i'" "j = Suc j'"
    with Cons show ?thesis by auto
  next
    assume "i = 0" "j = 0"
    with Cons.prems show ?thesis by (auto simp: nth_eq_iff_index_eq)
  next
    fix j' assume "i = 0" "j = Suc j'"
    with Cons.prems out [of "xss ! j'" b] show ?thesis by (metis Suc_less_eq length_Cons nth_Cons_0 nth_Cons_Suc nth_mem)
  next
    fix i' assume "i = Suc i'" "j = 0"
    with Cons.prems out [of "xss ! i'" a] show ?thesis by (metis Suc_less_eq length_Cons nth_Cons_0 nth_Cons_Suc nth_mem)
  qed
qed simp

text \<open>A place in a group: a volume, one of its slots, a chunk of the slot and a sector of the chunk.\<close>

definition place_chunk :: "assembly_group \<Rightarrow> nat \<Rightarrow> nat \<Rightarrow> nat \<Rightarrow> chunk option" where
  "place_chunk ag v j c = slot_chunks (av_slots (subspaces ag ! v) ! j) ! c"

definition place :: "assembly_group \<Rightarrow> nat \<Rightarrow> nat \<Rightarrow> nat \<Rightarrow> bool" where
  "place ag v j c \<longleftrightarrow> v < length (subspaces ag) \<and> j < length (av_slots (subspaces ag ! v)) \<and>
     c < length (slot_chunks (av_slots (subspaces ag ! v) ! j))"

lemma place_chunk_inj:
  assumes ok: "group_ok storage rdevs ag" and p: "place ag v j c" "place ag v' j' c'" and eq: "place_chunk ag v j c = place_chunk ag v' j' c'"
  shows "v = v' \<and> j = j' \<and> c = c'"
proof -
  have dist: "distinct (concat (map vol_chunks (subspaces ag)))" using accountedD(2) [OF group_okD(2) [OF ok]] by (simp add: held_chunks_def)
  have mem: "place_chunk ag v j c \<in> set (vol_chunks (subspaces ag ! v))" if "place ag v j c" for v j c
    using that by (auto simp: place_def place_chunk_def vol_chunks_def intro!: bexI [of _ "av_slots (subspaces ag ! v) ! j"])
  then obtain a b where ab: "a < length (vol_chunks (subspaces ag ! v))" "vol_chunks (subspaces ag ! v) ! a = place_chunk ag v j c"
    "b < length (vol_chunks (subspaces ag ! v'))" "vol_chunks (subspaces ag ! v') ! b = place_chunk ag v' j' c'"
    using p by (metis in_set_conv_nth)
  have v: "v = v'" using concat_nth_inj [OF dist, of v a v' b] ab eq p by (simp add: place_def)
  have "distinct (vol_chunks (subspaces ag ! v))" using dist p(1) by (auto simp: place_def distinct_concat_iff)
  then have "distinct (concat (map slot_chunks (av_slots (subspaces ag ! v))))" by (simp add: vol_chunks_def)
  from concat_nth_inj [OF this, of j c j' c'] p eq v show ?thesis by (simp add: place_def place_chunk_def)
qed

lemma map_place:
  assumes ok: "group_ok storage rdevs ag" and p: "place ag v j c"
  obtains r i where "r \<in> set (storage_rdevs storage)" "i < unat (total_chunks_count (rdevs ! r))" "place_chunk ag v j c = Some (chunk_at rdevs r i)"
    "\<And>sec. assembly_slot_map_sector_to_rdev (av_slots (subspaces ag ! v) ! j) c sec = Some (r, offset_of (rdev_chunk_size (rdevs ! r)) i + sec)"
proof -
  have "place_chunk ag v j c \<in> set (held_chunks ag)"
    using p by (auto simp: place_def place_chunk_def held_chunks_def vol_chunks_def
      intro!: bexI [of _ "subspaces ag ! v"] bexI [of _ "av_slots (subspaces ag ! v) ! j"])
  then obtain r i where "r \<in> set (storage_rdevs storage)" "i < unat (total_chunks_count (rdevs ! r))" "place_chunk ag v j c = Some (chunk_at rdevs r i)"
    using accountedD(3) [OF group_okD(2) [OF ok]] by blast
  moreover from this p have "assembly_slot_map_sector_to_rdev (av_slots (subspaces ag ! v) ! j) c sec =
      Some (r, offset_of (rdev_chunk_size (rdevs ! r)) i + sec)" for sec
    by (simp add: assembly_slot_map_sector_to_rdev_def place_def place_chunk_def chunk_get_rdev_def chunk_get_offset_def chunk_at_def chunk_alloc_def)
  ultimately show thesis using that by blast
qed

lemma unat_place_sector:
  assumes "i < 4294967296" "unat sec < unat (cs :: 32 word)"
  shows "unat (offset_of cs i + sec) = i * unat cs + 65536 + unat sec"
proof -
  have "i * unat cs + unat sec \<le> 4294967295 * 4294967295 + 4294967295"
    using assms unat_32_less [of cs] by (intro add_mono mult_le_mono) simp_all
  then have less: "i * unat cs + 65536 + unat sec < 2 ^ 64" by simp
  then have "unat (offset_of cs i) = i * unat cs + 65536"
    unfolding offset_of_def by (intro unat_of_nat_64) linarith
  with less show ?thesis by (simp add: unat_word_ariths)
qed

text \<open>C15: no two places of a group share a sector of a device. A sector of a chunk of a slot of a
  volume is mapped beyond the superblock area of a device of the storage, and two places have the
  same device and the same sector only if they are the same volume, slot, chunk and sector.\<close>

theorem places_disjoint:
  assumes ok: "group_ok storage rdevs ag" and p: "place ag v j c" "place ag v' j' c'"
    and sec: "\<forall>r \<in> set (storage_rdevs storage). unat sec < unat (rdev_chunk_size (rdevs ! r)) \<and> unat sec' < unat (rdev_chunk_size (rdevs ! r))"
  shows "\<exists>r x r' x'. assembly_slot_map_sector_to_rdev (av_slots (subspaces ag ! v) ! j) c sec = Some (r, x) \<and>
    assembly_slot_map_sector_to_rdev (av_slots (subspaces ag ! v') ! j') c' sec' = Some (r', x') \<and>
    r \<in> set (storage_rdevs storage) \<and> VRT_SB_AREA_SIZE \<le> x \<and>
    (r = r' \<and> x = x' \<longleftrightarrow> v = v' \<and> j = j' \<and> c = c' \<and> sec = sec')"
proof -
  obtain r i where r: "r \<in> set (storage_rdevs storage)" "i < unat (total_chunks_count (rdevs ! r))" "place_chunk ag v j c = Some (chunk_at rdevs r i)"
    "assembly_slot_map_sector_to_rdev (av_slots (subspaces ag ! v) ! j) c sec = Some (r, offset_of (rdev_chunk_size (rdevs ! r)) i + sec)"
    using map_place [OF ok p(1)] by metis
  obtain r' i' where r': "r' \<in> set (storage_rdevs storage)" "i' < unat (total_chunks_count (rdevs ! r'))"
    "place_chunk ag v' j' c' = Some (chunk_at rdevs r' i')"
    "assembly_slot_map_sector_to_rdev (av_slots (subspaces ag ! v') ! j') c' sec' = Some (r', offset_of (rdev_chunk_size (rdevs ! r')) i' + sec')"
    using map_place [OF ok p(2)] by metis
  have small: "i < 4294967296" "i' < 4294967296" using r(2) r'(2) unat_32_less less_trans by blast+
  note x = unat_place_sector [OF small(1), of sec "rdev_chunk_size (rdevs ! r)"] unat_place_sector [OF small(2), of sec' "rdev_chunk_size (rdevs ! r')"]
  have area: "VRT_SB_AREA_SIZE \<le> offset_of (rdev_chunk_size (rdevs ! r)) i + sec"
    using x(1) sec r(1) by (simp add: word_le_nat_alt VRT_SB_AREA_SIZE_def)
  have "i = i' \<and> sec = sec'" if "r = r'" "offset_of (rdev_chunk_size (rdevs ! r)) i + sec = offset_of (rdev_chunk_size (rdevs ! r')) i' + sec'"
  proof -
    let ?cs = "unat (rdev_chunk_size (rdevs ! r))"
    have less: "unat sec < ?cs" "unat sec' < ?cs" using sec r(1) by blast+
    have eq: "i * ?cs + unat sec = i' * ?cs + unat sec'" using that x less by simp
    then have "(i * ?cs + unat sec) div ?cs = (i' * ?cs + unat sec') div ?cs" by simp
    with less have "i = i'" by simp
    with eq show ?thesis by (simp add: word_unat_eq_iff)
  qed
  moreover have "v = v' \<and> j = j' \<and> c = c'" if "r = r'" "i = i'" using place_chunk_inj [OF ok p] r(3) r'(3) that by simp
  moreover have "r = r' \<and> i = i'" if "v = v'" "j = j'" "c = c'"
  proof -
    have "rdev_ok (rdevs ! r)" using group_okD(3) [OF ok] r(1) by (simp add: storage_ok_def)
    with chunk_at_eq_iff [of rdevs r i i' r'] r r' that show ?thesis by simp
  qed
  ultimately show ?thesis using r(1,4) r'(4) area by metis
qed

theorem places_disjoint_witness:
  "\<exists>rdevs ag r x r' x'. group_ok example_storage rdevs ag \<and>
     assembly_slot_map_sector_to_rdev (av_slots (subspaces ag ! 0) ! 0) 0 7 = Some (r, x) \<and>
     assembly_slot_map_sector_to_rdev (av_slots (subspaces ag ! 0) ! 1) 0 7 = Some (r', x') \<and> (r, x) \<noteq> (r', x')"
proof -
  obtain av rdevs where av: "group_ok example_storage rdevs (assembly_group_insert_volume example_ag av)" "total_slots_count av = 3"
    "pool_same example_storage [example_free_rdev] rdevs" by (rule example_reserved)
  let ?ag = "assembly_group_insert_volume example_ag av"
  have sub: "subspaces ?ag = [av]" "ag_slot_width ?ag = 1" by (simp_all add: assembly_group_insert_volume_def example_ag_def)
  then have "volume_ok example_storage 1 av" using group_okD(4) [OF av(1), of av] by simp
  then have len: "length (av_slots av) = 3" "\<forall>slot \<in> set (av_slots av). length (slot_chunks slot) = 1"
    using av(2) by (simp_all add: volume_ok_def slot_ok_def)
  then have p: "place ?ag 0 0 0" "place ?ag 0 1 0" using sub by (simp_all add: place_def)
  have "rdev_chunk_size (rdevs ! 0) = 8"
    using av(3) rdev_sameD(1) [of example_free_rdev "rdevs ! 0"] by (simp add: pool_same_def example_free_rdev_def example_rdev_def)
  then have "\<forall>r \<in> set (storage_rdevs example_storage). unat (7 :: 64 word) < unat (rdev_chunk_size (rdevs ! r)) \<and>
      unat (7 :: 64 word) < unat (rdev_chunk_size (rdevs ! r))" by (simp add: example_storage_wf(2))
  from places_disjoint [OF av(1) p this] obtain r x r' x' where
    m: "assembly_slot_map_sector_to_rdev (av_slots (subspaces ?ag ! 0) ! 0) 0 7 = Some (r, x)"
    "assembly_slot_map_sector_to_rdev (av_slots (subspaces ?ag ! 0) ! 1) 0 7 = Some (r', x')"
    "r = r' \<and> x = x' \<longleftrightarrow> (0 :: nat) = 0 \<and> (0 :: nat) = 1 \<and> (0 :: nat) = 0 \<and> (7 :: 64 word) = 7" by blast
  then have "(r, x) \<noteq> (r', x')" by simp
  then show ?thesis by (intro exI conjI) (rule av(1), rule m(1), rule m(2))
qed

text \<open>C38: the mapping of the sectors of a volume to its slots. A sector is accepted exactly when it
  is below the size of the volume; the slot and the offset in it are then the quotient and the
  remainder, so that every slot and offset has one sector; the two functions that compute the
  mapping agree.\<close>

theorem volume_sector_to_slot:
  assumes av: "volume_ok storage w av" and size: "unat (total_slots_count av) * unat slot_size < 2 ^ 64" and few: "unat (total_slots_count av) < 2 ^ 32"
  shows "if unat vsector < unat (total_slots_count av) * unat slot_size then
      \<exists>j offset. j < length (av_slots av) \<and> unat offset < unat slot_size \<and> unat vsector = j * unat slot_size + unat offset \<and>
        assembly_group_map_sector_to_slot av slot_size vsector = Some (av_slots av ! j, offset) \<and>
        assembly_volume_map_sector_to_slot av slot_size vsector = Some (of_nat j, offset)
    else assembly_group_map_sector_to_slot av slot_size vsector = None \<and> assembly_volume_map_sector_to_slot av slot_size vsector = None"
proof -
  have total: "unat (total_slots_count av * slot_size) = unat (total_slots_count av) * unat slot_size"
    using size by (simp add: unat_word_ariths)
  have less: "vsector < total_slots_count av * slot_size \<longleftrightarrow> unat vsector < unat (total_slots_count av) * unat slot_size"
    unfolding word_less_nat_alt total ..
  let ?j = "unat vsector div unat slot_size"
  have div: "unat (vsector div slot_size) = ?j" "unat (vsector mod slot_size) = unat vsector mod unat slot_size"
    by (simp_all add: unat_div_distrib unat_mod_distrib)
  show ?thesis
  proof (cases "unat vsector < unat (total_slots_count av) * unat slot_size")
    case True
    then have pos: "0 < unat slot_size" by (cases "unat slot_size = 0") simp_all
    have j: "?j < unat (total_slots_count av)" using less_mult_imp_div_less [OF True] .
    have lt: "vsector div slot_size < total_slots_count av" unfolding word_less_nat_alt div by (rule j)
    have "?j < 4294967296" using j few by simp
    then have idx: "ucast (vsector div slot_size) = (of_nat ?j :: 32 word)"
      unfolding word_unat_eq_iff div(1) [symmetric] by (simp add: unsigned_ucast_eq take_bit_eq_mod unat_of_nat)
    have m: "assembly_group_map_sector_to_slot av slot_size vsector = Some (av_slots av ! ?j, vsector mod slot_size)"
      "assembly_volume_map_sector_to_slot av slot_size vsector = Some (of_nat ?j, vsector mod slot_size)"
      using True lt unfolding assembly_group_map_sector_to_slot_def assembly_volume_map_sector_to_slot_def less Let_def div(1) idx by simp_all
    have "length (av_slots av) = unat (total_slots_count av)" using av by (simp add: volume_ok_def)
    then have "?j < length (av_slots av)" using j by simp
    moreover have "unat (vsector mod slot_size) < unat slot_size" unfolding div(2) using pos by simp
    moreover have "unat vsector = ?j * unat slot_size + unat (vsector mod slot_size)" unfolding div(2) by simp
    ultimately show ?thesis unfolding if_P [OF True] using m by blast
  next
    case False
    with less show ?thesis by (simp add: assembly_group_map_sector_to_slot_def assembly_volume_map_sector_to_slot_def)
  qed
qed

definition example_volume :: assembly_volume where
  "example_volume = \<lparr> av_uuid = uuid_zero, av_slots = replicate 2 \<lparr> slot_chunks = [], slot_width = 0 \<rparr>, total_slots_count = 2 \<rparr>"

theorem volume_sector_to_slot_witness:
  "assembly_volume_map_sector_to_slot example_volume 8 16 = None \<and>
   (\<exists>j offset. j < 2 \<and> unat offset < 8 \<and> 11 = j * 8 + unat offset \<and>
     assembly_volume_map_sector_to_slot example_volume 8 11 = Some (of_nat j, offset))"
proof -
  have av: "volume_ok example_storage 0 example_volume" "total_slots_count example_volume = 2" "length (av_slots example_volume) = 2"
    by (simp_all add: volume_ok_def slot_ok_def example_volume_def)
  show ?thesis
    using volume_sector_to_slot [OF av(1), of 8 16] volume_sector_to_slot [OF av(1), of 8 11] av(2,3) by auto
qed

end
