(* ===== verification/Bdev_Stream.thy ===== *)
theory Bdev_Stream
  imports Vrt_Stream_Store
begin

text \<open>
  Block devices (\<open>blockdevice/src/blockdevice.c\<close>), the provider on a file of the system
  (\<open>blockdevice/src/sys_blockdevice.c\<close>) and the stream with a write-back sector cache that the
  superblocks are read and written through (\<open>blockdevice/src/blockdevice_stream.c\<close>).

  A block device is a context with the operations of its provider, which are fields of the record
  as they are fields of the C structure. A request is submitted and waited for: the operation of a
  provider returns what the request completed with. Contents read are the value of a completed
  read, as many bytes as were asked for. The cache is smaller than 4 GiB, so that the 32-bit
  offsets inside it are naturals.

  \<open>block_provider\<close> is what a provider promises: reads return the contents, a write that completes
  is done, and one that fails may have changed any of the bytes it was to write but no other. The
  stream then behaves as the array \<open>stream_view\<close>, the device with the cached sectors over it, whatever
  fails.
\<close>

datatype blockdevice_access = BLOCKDEVICE_ACCESS_READ | BLOCKDEVICE_ACCESS_WRITE | BLOCKDEVICE_ACCESS_RW

datatype blockdevice_io_type = BLOCKDEVICE_IO_READ | BLOCKDEVICE_IO_WRITE

record blockdevice_io =
  io_type :: blockdevice_io_type
  start_sector :: nat
  io_buf :: "byte list option"
  io_size :: nat
  flush_cache :: bool

record 'c blockdevice =
  bdev_context :: 'c
  get_sector_count_op :: "'c \<Rightarrow> nat"
  submit_io_op :: "'c \<Rightarrow> blockdevice_io \<Rightarrow> (errcode + byte list) \<times> 'c"
  bdev_access :: blockdevice_access

definition SECTOR_SIZE :: nat where
  "SECTOR_SIZE = 512"

section \<open>Block devices\<close>

definition blockdevice_open ::
  "'c \<Rightarrow> ('c \<Rightarrow> nat) \<Rightarrow> ('c \<Rightarrow> blockdevice_io \<Rightarrow> (errcode + byte list) \<times> 'c) \<Rightarrow> blockdevice_access \<Rightarrow> 'c blockdevice" where
  "blockdevice_open context sector_count submit access =
     \<lparr> bdev_context = context, get_sector_count_op = sector_count, submit_io_op = submit, bdev_access = access \<rparr>"

definition blockdevice_get_sector_count :: "'c blockdevice \<Rightarrow> nat" where
  "blockdevice_get_sector_count bdev = get_sector_count_op bdev (bdev_context bdev)"

definition blockdevice_size :: "'c blockdevice \<Rightarrow> nat" where
  "blockdevice_size bdev = blockdevice_get_sector_count bdev * SECTOR_SIZE"

definition blockdevice_submit_io ::
  "'c blockdevice \<Rightarrow> blockdevice_io_type \<Rightarrow> nat \<Rightarrow> byte list option \<Rightarrow> nat \<Rightarrow> bool \<Rightarrow>
   (errcode + byte list) \<times> 'c blockdevice" where
  "blockdevice_submit_io bdev type sector buf size' flush =
     (if buf = None \<and> size' \<noteq> 0 then (Inl EINVAL, bdev)
      else let (r, context) = submit_io_op bdev (bdev_context bdev)
             \<lparr> io_type = type, start_sector = sector, io_buf = buf, io_size = size', flush_cache = flush \<rparr>
           in (r, bdev\<lparr>bdev_context := context\<rparr>))"

definition blockdevice_read :: "'c blockdevice \<Rightarrow> byte list \<Rightarrow> nat \<Rightarrow> nat \<Rightarrow> (errcode + byte list) \<times> 'c blockdevice" where
  "blockdevice_read bdev buf size' sector =
     blockdevice_submit_io bdev BLOCKDEVICE_IO_READ sector (Some buf) size' False"

definition blockdevice_write :: "'c blockdevice \<Rightarrow> byte list \<Rightarrow> nat \<Rightarrow> nat \<Rightarrow> (errcode + byte list) \<times> 'c blockdevice" where
  "blockdevice_write bdev buf size' sector =
     (if bdev_access bdev = BLOCKDEVICE_ACCESS_READ then (Inl EINVAL, bdev)
      else blockdevice_submit_io bdev BLOCKDEVICE_IO_WRITE sector (Some buf) size' False)"

definition blockdevice_flush :: "'c blockdevice \<Rightarrow> (errcode + byte list) \<times> 'c blockdevice" where
  "blockdevice_flush bdev = blockdevice_submit_io bdev BLOCKDEVICE_IO_WRITE 0 None 0 True"

section \<open>The provider on a system file\<close>

text \<open>The context is the contents of the file. Writing is not implemented and fails.\<close>

definition sys_blockdevice_get_sector_count :: "byte list \<Rightarrow> nat" where
  "sys_blockdevice_get_sector_count file = length file div SECTOR_SIZE"

definition sys_blockdevice_do_read :: "byte list \<Rightarrow> nat \<Rightarrow> nat \<Rightarrow> errcode + byte list" where
  "sys_blockdevice_do_read file size' sector =
     (let buf = take size' (drop (sector * SECTOR_SIZE) file) in
      if length buf \<noteq> size' then Inl EIO else Inr buf)"

definition sys_blockdevice_do_write :: "byte list \<Rightarrow> byte list \<Rightarrow> nat \<Rightarrow> nat \<Rightarrow> errcode + byte list" where
  "sys_blockdevice_do_write file buf size' sector = Inl EIO"

definition sys_blockdevice_submit_io :: "byte list \<Rightarrow> blockdevice_io \<Rightarrow> (errcode + byte list) \<times> byte list" where
  "sys_blockdevice_submit_io file io =
     (let block_size = 512;
          aligned_size = (if io_size io mod block_size = 0 then io_size io
                          else io_size io + block_size - io_size io mod block_size)
      in case io_type io of
           BLOCKDEVICE_IO_READ \<Rightarrow>
             (case sys_blockdevice_do_read file aligned_size (start_sector io) of
                Inl err \<Rightarrow> (Inl err, file)
              | Inr buf \<Rightarrow> (Inr (take (io_size io) buf), file))
         | BLOCKDEVICE_IO_WRITE \<Rightarrow>
             (sys_blockdevice_do_write file (case io_buf io of Some buf \<Rightarrow> buf | None \<Rightarrow> []) aligned_size (start_sector io), file))"

section \<open>The stream with a sector cache\<close>

record cache =
  cache_buffer :: "byte list"
  cache_size :: nat
  cache_first_sector :: nat
  cache_valid :: bool
  cache_dirty :: bool

record 'c bdev_stream =
  bs_bdev :: "'c blockdevice"
  bs_offset :: nat
  bs_cache :: cache

definition sector_is_cached :: "'c bdev_stream \<Rightarrow> nat \<Rightarrow> bool" where
  "sector_is_cached ctx sector \<longleftrightarrow>
     sector \<ge> cache_first_sector (bs_cache ctx) \<and>
     sector < cache_first_sector (bs_cache ctx) + cache_size (bs_cache ctx) div SECTOR_SIZE"

definition blockdev_stream_flush :: "'c bdev_stream \<Rightarrow> (errcode + unit) \<times> 'c bdev_stream" where
  "blockdev_stream_flush ctx =
     (let cache = bs_cache ctx in
      if \<not> cache_valid cache \<or> \<not> cache_dirty cache then (Inr (), ctx)
      else case blockdevice_write (bs_bdev ctx) (cache_buffer cache) (cache_size cache) (cache_first_sector cache) of
             (Inl err, bdev) \<Rightarrow> (Inl err, ctx\<lparr>bs_bdev := bdev\<rparr>)
           | (Inr _, bdev) \<Rightarrow>
               (Inr (), ctx\<lparr>bs_bdev := snd (blockdevice_flush bdev), bs_cache := cache\<lparr>cache_dirty := False\<rparr>\<rparr>))"

text \<open>The cache is moved away from the sectors it holds when the next sector is not one of them,
  then filled from the next sector on. Reading marks the new cache clean, writing leaves the mark
  to the copy that follows.\<close>

definition cache_leave :: "'c bdev_stream \<Rightarrow> nat \<Rightarrow> (errcode + unit) \<times> 'c bdev_stream" where
  "cache_leave ctx sector =
     (if cache_valid (bs_cache ctx) \<and> \<not> sector_is_cached ctx sector
      then (let (r, ctx) = (if cache_dirty (bs_cache ctx) then blockdev_stream_flush ctx else (Inr (), ctx)) in
            case r of
              Inl err \<Rightarrow> (Inl err, ctx)
            | Inr _ \<Rightarrow> (Inr (), ctx\<lparr>bs_cache := (bs_cache ctx)\<lparr>cache_valid := False\<rparr>\<rparr>))
      else (Inr (), ctx))"

definition cache_enter :: "(cache \<Rightarrow> cache) \<Rightarrow> 'c bdev_stream \<Rightarrow> nat \<Rightarrow> (errcode + unit) \<times> 'c bdev_stream" where
  "cache_enter mark ctx sector =
     (let cache = bs_cache ctx in
      if cache_valid cache then (Inr (), ctx)
      else case blockdevice_read (bs_bdev ctx) (cache_buffer cache) (cache_size cache) sector of
             (Inl err, bdev) \<Rightarrow> (Inl err, ctx\<lparr>bs_bdev := bdev\<rparr>)
           | (Inr buf, bdev) \<Rightarrow>
               (Inr (), ctx\<lparr>bs_bdev := bdev, bs_cache := mark (cache\<lparr>cache_buffer := buf,
                  cache_valid := True, cache_first_sector := sector\<rparr>)\<rparr>))"

definition cache_sector :: "(cache \<Rightarrow> cache) \<Rightarrow> 'c bdev_stream \<Rightarrow> (errcode + unit) \<times> 'c bdev_stream" where
  "cache_sector mark ctx =
     (let sector = bs_offset ctx div SECTOR_SIZE in
      case cache_leave ctx sector of
        (Inl err, ctx) \<Rightarrow> (Inl err, ctx)
      | (Inr _, ctx) \<Rightarrow> cache_enter mark ctx sector)"

definition mark_clean :: "cache \<Rightarrow> cache" where
  "mark_clean cache = cache\<lparr>cache_dirty := False\<rparr>"

definition keep_mark :: "cache \<Rightarrow> cache" where
  "keep_mark cache = cache"

definition inside_cache :: "'c bdev_stream \<Rightarrow> nat" where
  "inside_cache ctx = bs_offset ctx - cache_first_sector (bs_cache ctx) * SECTOR_SIZE"

function read_loop :: "'c bdev_stream \<Rightarrow> nat \<Rightarrow> ((errcode + byte list) \<times> 'c bdev_stream) option" where
  "read_loop ctx n =
     (if n = 0 then Some (Inr [], ctx)
      else case cache_sector mark_clean ctx of
        (Inl err, ctx) \<Rightarrow> Some (Inl err, ctx)
      | (Inr _, ctx) \<Rightarrow>
          (let inside = inside_cache ctx; cache = bs_cache ctx in
           if \<not> inside < cache_size cache then None
           else (let k = min n (cache_size cache - inside) in
             case read_loop (ctx\<lparr>bs_offset := bs_offset ctx + k\<rparr>) (n - k) of
               None \<Rightarrow> None
             | Some (Inl err, ctx) \<Rightarrow> Some (Inl err, ctx)
             | Some (Inr buf, ctx) \<Rightarrow> Some (Inr (take k (drop inside (cache_buffer cache)) @ buf), ctx))))"
  by pat_completeness auto
termination
  by (relation "measure snd") auto

function write_loop :: "'c bdev_stream \<Rightarrow> byte list \<Rightarrow> ((errcode + nat) \<times> 'c bdev_stream) option" where
  "write_loop ctx buf =
     (if buf = [] then Some (Inr 0, ctx)
      else case cache_sector keep_mark ctx of
        (Inl err, ctx) \<Rightarrow> Some (Inl err, ctx)
      | (Inr _, ctx) \<Rightarrow>
          (let inside = inside_cache ctx; cache = bs_cache ctx in
           if \<not> inside < cache_size cache then None
           else (let k = min (length buf) (cache_size cache - inside) in
             case write_loop (ctx\<lparr>bs_cache := cache\<lparr>cache_buffer := overwrite (cache_buffer cache) inside (take k buf),
                                   cache_dirty := True\<rparr>, bs_offset := bs_offset ctx + k\<rparr>) (drop k buf) of
               None \<Rightarrow> None
             | Some (Inl err, ctx) \<Rightarrow> Some (Inl err, ctx)
             | Some (Inr w, ctx) \<Rightarrow> Some (Inr (k + w), ctx))))"
  by pat_completeness auto
termination
  by (relation "measure (length \<circ> snd)") auto

declare read_loop.simps [simp del] write_loop.simps [simp del]

definition blockdev_stream_read :: "'c bdev_stream \<Rightarrow> nat \<Rightarrow> ((errcode + byte list) \<times> 'c bdev_stream) option" where
  "blockdev_stream_read ctx n =
     (let real_size = blockdevice_size (bs_bdev ctx);
          n = (if bs_offset ctx + n > real_size then u64 (int real_size - int (bs_offset ctx)) else n)
      in if n = 0 then Some (Inr [], ctx) else read_loop ctx n)"

definition blockdev_stream_write :: "'c bdev_stream \<Rightarrow> byte list \<Rightarrow> ((errcode + nat) \<times> 'c bdev_stream) option" where
  "blockdev_stream_write ctx buf =
     (if length buf = 0 then Some (Inr 0, ctx)
      else if bs_offset ctx + length buf > blockdevice_size (bs_bdev ctx) then Some (Inl ENOSPC, ctx)
      else write_loop ctx buf)"

definition blockdev_stream_seek :: "'c bdev_stream \<Rightarrow> int \<Rightarrow> stream_seek_mode \<Rightarrow> (errcode + unit) \<times> 'c bdev_stream" where
  "blockdev_stream_seek ctx offset mode =
     (let real_size = blockdevice_size (bs_bdev ctx); ofs = bs_offset ctx in
      case mode of
        STREAM_SEEK_FROM_BEGINNING \<Rightarrow>
          if offset < 0 \<or> u64 offset > real_size then (Inl EINVAL, ctx)
          else (Inr (), ctx\<lparr>bs_offset := u64 offset\<rparr>)
      | STREAM_SEEK_FROM_POS \<Rightarrow>
          if s64 ofs + offset < 0 \<or> u64 (int ofs + offset) > real_size then (Inl EINVAL, ctx)
          else (Inr (), ctx\<lparr>bs_offset := u64 (int ofs + offset)\<rparr>)
      | STREAM_SEEK_FROM_END \<Rightarrow>
          if u64 (int real_size + offset) > real_size \<or> s64 real_size + offset < 0 then (Inl EINVAL, ctx)
          else (Inr (), ctx\<lparr>bs_offset := u64 (int real_size + offset)\<rparr>))"

definition blockdev_stream_tell :: "'c bdev_stream \<Rightarrow> nat" where
  "blockdev_stream_tell ctx = bs_offset ctx"

definition blockdevice_stream_on :: "'c blockdevice \<Rightarrow> nat \<Rightarrow> stream_access \<Rightarrow> errcode + 'c bdev_stream" where
  "blockdevice_stream_on bdev size' access =
     (if (access = STREAM_ACCESS_WRITE \<or> access = STREAM_ACCESS_RW) \<and> bdev_access bdev = BLOCKDEVICE_ACCESS_READ
      then Inl EPERM
      else Inr \<lparr> bs_bdev = bdev, bs_offset = 0,
        bs_cache = \<lparr> cache_buffer = replicate size' 0, cache_size = size', cache_first_sector = 0,
          cache_valid = False, cache_dirty = False \<rparr> \<rparr>)"

section \<open>What a provider promises\<close>

definition device :: "('c \<Rightarrow> byte list) \<Rightarrow> 'c bdev_stream \<Rightarrow> byte list" where
  "device bytes ctx = bytes (bdev_context (bs_bdev ctx))"

text \<open>The array the stream stands for: the device under the cached sectors.\<close>

definition stream_view :: "('c \<Rightarrow> byte list) \<Rightarrow> 'c bdev_stream \<Rightarrow> byte list" where
  "stream_view bytes ctx =
     (if cache_valid (bs_cache ctx)
      then overwrite (device bytes ctx) (cache_first_sector (bs_cache ctx) * SECTOR_SIZE) (cache_buffer (bs_cache ctx))
      else device bytes ctx)"

definition cache_holds :: "('c \<Rightarrow> byte list) \<Rightarrow> 'c bdev_stream \<Rightarrow> bool" where
  "cache_holds bytes ctx \<longleftrightarrow>
     length (cache_buffer (bs_cache ctx)) = cache_size (bs_cache ctx) \<and>
     cache_first_sector (bs_cache ctx) * SECTOR_SIZE + cache_size (bs_cache ctx) \<le> length (device bytes ctx) \<and>
     (\<not> cache_dirty (bs_cache ctx) \<longrightarrow> cache_buffer (bs_cache ctx) =
        take (cache_size (bs_cache ctx)) (drop (cache_first_sector (bs_cache ctx) * SECTOR_SIZE) (device bytes ctx)))"

definition cache_ok :: "('c \<Rightarrow> byte list) \<Rightarrow> 'c bdev_stream \<Rightarrow> bool" where
  "cache_ok bytes ctx \<longleftrightarrow>
     0 < cache_size (bs_cache ctx) \<and> SECTOR_SIZE dvd cache_size (bs_cache ctx) \<and>
     bs_offset ctx \<le> length (device bytes ctx) \<and> length (device bytes ctx) < 2 ^ 63 \<and>
     (cache_valid (bs_cache ctx) \<longrightarrow> cache_holds bytes ctx)"

text \<open>Equal but for the bytes from \<open>p\<close> to \<open>p + n\<close>.\<close>

definition same_outside :: "nat \<Rightarrow> nat \<Rightarrow> byte list \<Rightarrow> byte list \<Rightarrow> bool" where
  "same_outside p n xs ys \<longleftrightarrow> length xs = length ys \<and> take p xs = take p ys \<and> drop (p + n) xs = drop (p + n) ys"

definition on_provider ::
  "('c \<Rightarrow> nat) \<Rightarrow> ('c \<Rightarrow> blockdevice_io \<Rightarrow> (errcode + byte list) \<times> 'c) \<Rightarrow> 'c bdev_stream \<Rightarrow> bool" where
  "on_provider sector_count submit ctx \<longleftrightarrow>
     get_sector_count_op (bs_bdev ctx) = sector_count \<and> submit_io_op (bs_bdev ctx) = submit"

text \<open>Writes at given places, one after the other, each sought from the beginning.\<close>

fun run_writes :: "'c bdev_stream \<Rightarrow> (nat \<times> byte list) list \<Rightarrow> ((errcode + unit) \<times> 'c bdev_stream) option" where
  "run_writes ctx [] = Some (Inr (), ctx)"
| "run_writes ctx ((p, b) # ops) =
     (case blockdev_stream_seek ctx (int p) STREAM_SEEK_FROM_BEGINNING of
        (Inl err, ctx) \<Rightarrow> Some (Inl err, ctx)
      | (Inr _, ctx) \<Rightarrow>
          (case blockdev_stream_write ctx b of
             None \<Rightarrow> None
           | Some (Inl err, ctx) \<Rightarrow> Some (Inl err, ctx)
           | Some (Inr _, ctx) \<Rightarrow> run_writes ctx ops))"

definition written_array :: "byte list \<Rightarrow> (nat \<times> byte list) list \<Rightarrow> byte list" where
  "written_array xs ops = foldl (\<lambda>xs (p, b). overwrite xs p b) xs ops"

definition partly_written :: "byte list \<Rightarrow> (nat \<times> byte list) list \<Rightarrow> byte list \<Rightarrow> bool" where
  "partly_written xs ops ys \<longleftrightarrow> ys = written_array xs ops \<or>
     (\<exists>i < length ops. \<exists>k. ys = overwrite (written_array xs (take i ops)) (fst (ops ! i)) (take k (snd (ops ! i))))"

lemma written_array_simps [simp]:
  "written_array xs [] = xs"
  "written_array xs (ops @ [(p, b)]) = overwrite (written_array xs ops) p b"
  by (simp_all add: written_array_def)

lemma run_writes_snoc:
  "run_writes ctx (ops @ [op]) =
     (case run_writes ctx ops of
        Some (Inr _, ctx) \<Rightarrow> run_writes ctx [op]
      | r \<Rightarrow> r)"
proof (induction ctx ops rule: run_writes.induct)
  case (1 ctx)
  then show ?case by simp
next
  case (2 ctx p b ops)
  then show ?case by (auto split: prod.splits sum.splits option.splits)
qed

lemma run_writes_snocE:
  assumes "run_writes ctx (ops @ [op]) = Some (Inr (), ctx')"
  obtains c1 where "run_writes ctx ops = Some (Inr (), c1)" "run_writes c1 [op] = Some (Inr (), ctx')"
  using assms by (auto simp: run_writes_snoc simp del: run_writes.simps split: option.splits prod.splits sum.splits)

lemma partly_written_snoc:
  assumes ys: "partly_written xs ops ys" and p: "p \<le> length (written_array xs ops)"
    and zs: "zs = ys \<or> (\<exists>j \<le> length b. zs = overwrite (written_array xs ops) p (take j b))"
  shows "partly_written xs (ops @ [(p, b)]) zs"
proof -
  have new: "partly_written xs (ops @ [(p, b)]) (overwrite (written_array xs ops) p (take j b))" for j
    unfolding partly_written_def by (rule disjI2, rule exI [of _ "length ops"]) auto
  from zs show ?thesis
  proof
    assume z: "zs = ys"
    from ys show ?thesis unfolding partly_written_def
    proof
      assume "ys = written_array xs ops"
      with z new [of 0] p show "zs = written_array xs (ops @ [(p, b)]) \<or> (\<exists>i < length (ops @ [(p, b)]). \<exists>k.
          zs = overwrite (written_array xs (take i (ops @ [(p, b)]))) (fst ((ops @ [(p, b)]) ! i)) (take k (snd ((ops @ [(p, b)]) ! i))))"
        by (simp add: partly_written_def)
    next
      assume "\<exists>i < length ops. \<exists>k. ys = overwrite (written_array xs (take i ops)) (fst (ops ! i)) (take k (snd (ops ! i)))"
      then obtain i k where i: "i < length ops" "ys = overwrite (written_array xs (take i ops)) (fst (ops ! i)) (take k (snd (ops ! i)))"
        by blast
      then show "zs = written_array xs (ops @ [(p, b)]) \<or> (\<exists>i < length (ops @ [(p, b)]). \<exists>k.
          zs = overwrite (written_array xs (take i (ops @ [(p, b)]))) (fst ((ops @ [(p, b)]) ! i)) (take k (snd ((ops @ [(p, b)]) ! i))))"
        using z by (intro disjI2 exI [of _ i] conjI exI [of _ k]) (simp_all add: nth_append)
    qed
  qed (use new in blast)
qed

lemma overwrite_same_outside:
  "same_outside p (length bs) xs ys \<Longrightarrow> overwrite xs p bs = overwrite ys p bs"
  by (simp add: same_outside_def overwrite_def)

lemma same_outside_overwrite:
  "p + n \<le> length xs \<Longrightarrow> length bs \<le> n \<Longrightarrow> same_outside p n xs (overwrite xs p bs)"
  by (simp add: same_outside_def overwrite_def add.commute)

lemma same_outside_refl [simp]: "same_outside p n xs xs"
  by (simp add: same_outside_def)

lemma overwrite_slice:
  assumes "p + n \<le> length xs"
  shows "overwrite xs p (take n (drop p xs)) = xs"
proof -
  have "take n (drop p xs) @ drop (p + n) xs = drop p xs" by (metis append_take_drop_id drop_drop add.commute)
  then show ?thesis using assms by (simp add: overwrite_def)
qed

lemma overwrite_twice:
  "length bs = length cs \<Longrightarrow> p + length bs \<le> length xs \<Longrightarrow> overwrite (overwrite xs p bs) p cs = overwrite xs p cs"
  by (simp add: overwrite_def)

lemma overwrite_inside:
  "i + length b \<le> length cs \<Longrightarrow> p + length cs \<le> length xs \<Longrightarrow>
   overwrite xs p (overwrite cs i b) = overwrite (overwrite xs p cs) (p + i) b"
  by (simp add: overwrite_def drop_drop algebra_simps)

lemma slice_inside:
  "i + k \<le> length cs \<Longrightarrow> p + length cs \<le> length xs \<Longrightarrow>
   take k (drop (p + i) (overwrite xs p cs)) = take k (drop i cs)"
  by (simp add: overwrite_def)

lemma cache_okD:
  assumes "cache_ok bytes ctx" "cache_valid (bs_cache ctx)"
  shows "length (cache_buffer (bs_cache ctx)) = cache_size (bs_cache ctx)"
    and "cache_first_sector (bs_cache ctx) * SECTOR_SIZE + cache_size (bs_cache ctx) \<le> length (device bytes ctx)"
    and "\<not> cache_dirty (bs_cache ctx) \<Longrightarrow> cache_buffer (bs_cache ctx) =
      take (cache_size (bs_cache ctx)) (drop (cache_first_sector (bs_cache ctx) * SECTOR_SIZE) (device bytes ctx))"
  using assms unfolding cache_ok_def cache_holds_def by blast+

lemma cache_okI:
  assumes "cache_ok bytes ctx" "bs_offset ctx' \<le> length (device bytes ctx')"
    "length (device bytes ctx') = length (device bytes ctx)" "cache_size (bs_cache ctx') = cache_size (bs_cache ctx)"
    and "cache_valid (bs_cache ctx') \<Longrightarrow> cache_holds bytes ctx'"
  shows "cache_ok bytes ctx'"
  using assms by (simp add: cache_ok_def)

lemma cache_ok_offset: "cache_ok bytes ctx \<Longrightarrow> bs_offset ctx \<le> length (device bytes ctx)"
  by (simp add: cache_ok_def)

locale block_provider =
  fixes sector_count :: "'c \<Rightarrow> nat"
    and submit :: "'c \<Rightarrow> blockdevice_io \<Rightarrow> (errcode + byte list) \<times> 'c"
    and bytes :: "'c \<Rightarrow> byte list"
  assumes bytes_size: "length (bytes c) = sector_count c * SECTOR_SIZE"
    and read_keeps: "io_type io = BLOCKDEVICE_IO_READ \<Longrightarrow> submit c io = (r, c') \<Longrightarrow> bytes c' = bytes c"
    and read_done: "io_type io = BLOCKDEVICE_IO_READ \<Longrightarrow> 0 < io_size io \<Longrightarrow> submit c io = (Inr b, c') \<Longrightarrow>
      start_sector io * SECTOR_SIZE + io_size io \<le> length (bytes c) \<and>
      b = take (io_size io) (drop (start_sector io * SECTOR_SIZE) (bytes c))"
    and write_confined: "io_type io = BLOCKDEVICE_IO_WRITE \<Longrightarrow> submit c io = (r, c') \<Longrightarrow>
      same_outside (start_sector io * SECTOR_SIZE) (io_size io) (bytes c) (bytes c')"
    and write_done: "io_type io = BLOCKDEVICE_IO_WRITE \<Longrightarrow> io_buf io = Some buf \<Longrightarrow> io_size io = length buf \<Longrightarrow>
      submit c io = (Inr b, c') \<Longrightarrow> bytes c' = overwrite (bytes c) (start_sector io * SECTOR_SIZE) buf"
begin

text \<open>The device keeps its size, the stream its offset and the size of its cache.\<close>

definition kept :: "'c bdev_stream \<Rightarrow> 'c bdev_stream \<Rightarrow> bool" where
  "kept ctx ctx' \<longleftrightarrow> on_provider sector_count submit ctx' \<and> cache_ok bytes ctx' \<and> stream_view bytes ctx' = stream_view bytes ctx \<and>
     bs_offset ctx' = bs_offset ctx \<and> length (device bytes ctx') = length (device bytes ctx) \<and>
     cache_size (bs_cache ctx') = cache_size (bs_cache ctx)"

lemma kept_refl: "on_provider sector_count submit ctx \<Longrightarrow> cache_ok bytes ctx \<Longrightarrow> kept ctx ctx"
  by (simp add: kept_def)

lemma kept_trans: "kept a b \<Longrightarrow> kept b c \<Longrightarrow> kept a c"
  by (simp add: kept_def)

lemma same_outside_zero: "same_outside 0 0 xs ys \<Longrightarrow> xs = ys"
  by (simp add: same_outside_def)

lemma write_sectors:
  assumes "submit_io_op bdev = submit" "blockdevice_write bdev buf (length buf) sector = (r, bdev')"
  shows "get_sector_count_op bdev' = get_sector_count_op bdev \<and> submit_io_op bdev' = submit \<and>
      same_outside (sector * SECTOR_SIZE) (length buf) (bytes (bdev_context bdev)) (bytes (bdev_context bdev'))"
    and "r = Inr b \<Longrightarrow>
      bytes (bdev_context bdev') = overwrite (bytes (bdev_context bdev)) (sector * SECTOR_SIZE) buf"
proof -
  let ?io = "\<lparr> io_type = BLOCKDEVICE_IO_WRITE, start_sector = sector, io_buf = Some buf, io_size = length buf,
    flush_cache = False \<rparr>"
  obtain r1 c1 where io: "submit (bdev_context bdev) ?io = (r1, c1)" by fastforce
  have "bdev_access bdev = BLOCKDEVICE_ACCESS_READ \<and> r = Inl EINVAL \<and> bdev' = bdev \<or>
      r = r1 \<and> bdev' = bdev\<lparr>bdev_context := c1\<rparr>"
    using assms io by (auto simp: blockdevice_write_def blockdevice_submit_io_def split: if_splits)
  then show "get_sector_count_op bdev' = get_sector_count_op bdev \<and> submit_io_op bdev' = submit \<and>
      same_outside (sector * SECTOR_SIZE) (length buf) (bytes (bdev_context bdev)) (bytes (bdev_context bdev'))"
    and "r = Inr b \<Longrightarrow> bytes (bdev_context bdev') = overwrite (bytes (bdev_context bdev)) (sector * SECTOR_SIZE) buf"
    using assms(1) write_confined [OF _ io] write_done [of ?io buf "bdev_context bdev" b c1] io by auto
qed

lemma flush_device:
  assumes "submit_io_op bdev = submit"
  shows "get_sector_count_op (snd (blockdevice_flush bdev)) = get_sector_count_op bdev \<and>
    submit_io_op (snd (blockdevice_flush bdev)) = submit \<and>
    bytes (bdev_context (snd (blockdevice_flush bdev))) = bytes (bdev_context bdev)"
proof -
  let ?io = "\<lparr> io_type = BLOCKDEVICE_IO_WRITE, start_sector = 0, io_buf = None, io_size = 0, flush_cache = True \<rparr>"
  obtain r1 c1 where io: "submit (bdev_context bdev) ?io = (r1, c1)" by fastforce
  have "bytes (bdev_context bdev) = bytes c1"
    using write_confined [OF _ io] by (intro same_outside_zero) simp
  then show ?thesis using assms io by (simp add: blockdevice_flush_def blockdevice_submit_io_def)
qed

lemma read_sectors:
  assumes "submit_io_op bdev = submit" "blockdevice_read bdev buf n sector = (r, bdev')" "0 < n"
  shows "get_sector_count_op bdev' = get_sector_count_op bdev \<and> submit_io_op bdev' = submit \<and>
      bytes (bdev_context bdev') = bytes (bdev_context bdev)"
    and "r = Inr b \<Longrightarrow> sector * SECTOR_SIZE + n \<le> length (bytes (bdev_context bdev)) \<and>
      b = take n (drop (sector * SECTOR_SIZE) (bytes (bdev_context bdev)))"
proof -
  let ?io = "\<lparr> io_type = BLOCKDEVICE_IO_READ, start_sector = sector, io_buf = Some buf, io_size = n,
    flush_cache = False \<rparr>"
  obtain r1 c1 where io: "submit (bdev_context bdev) ?io = (r1, c1)" by fastforce
  have "r = r1" "bdev' = bdev\<lparr>bdev_context := c1\<rparr>"
    using assms io by (auto simp: blockdevice_read_def blockdevice_submit_io_def)
  then show "get_sector_count_op bdev' = get_sector_count_op bdev \<and> submit_io_op bdev' = submit \<and>
      bytes (bdev_context bdev') = bytes (bdev_context bdev)"
    and "r = Inr b \<Longrightarrow> sector * SECTOR_SIZE + n \<le> length (bytes (bdev_context bdev)) \<and>
      b = take n (drop (sector * SECTOR_SIZE) (bytes (bdev_context bdev)))"
    using assms(1,3) read_keeps [OF _ io] read_done [of ?io "bdev_context bdev" b c1] io by auto
qed

lemma clean_view:
  assumes ok: "cache_ok bytes ctx" and c: "\<not> cache_valid (bs_cache ctx) \<or> \<not> cache_dirty (bs_cache ctx)"
  shows "stream_view bytes ctx = device bytes ctx"
proof (cases "cache_valid (bs_cache ctx)")
  case True
  then have "cache_buffer (bs_cache ctx) = take (cache_size (bs_cache ctx))
      (drop (cache_first_sector (bs_cache ctx) * SECTOR_SIZE) (device bytes ctx))"
    "cache_first_sector (bs_cache ctx) * SECTOR_SIZE + cache_size (bs_cache ctx) \<le> length (device bytes ctx)"
    using cache_okD [OF ok True] c by auto
  then show ?thesis using True overwrite_slice unfolding stream_view_def by metis
qed (simp add: stream_view_def)

lemma flush_dirty:
  assumes on: "on_provider sector_count submit ctx" and ok: "cache_ok bytes ctx"
    and flush: "blockdev_stream_flush ctx = (r, ctx')"
    and True: "cache_valid (bs_cache ctx)" "cache_dirty (bs_cache ctx)"
  shows "kept ctx ctx' \<and> (r = Inr () \<longrightarrow> device bytes ctx' = stream_view bytes ctx) \<and> cache_valid (bs_cache ctx')"
proof -
  let ?c = "bs_cache ctx"
  note len = cache_okD(1,2) [OF ok True(1)]
  obtain r1 bdev where w: "blockdevice_write (bs_bdev ctx) (cache_buffer ?c) (length (cache_buffer ?c))
      (cache_first_sector ?c) = (r1, bdev)" by fastforce
  have sub: "submit_io_op (bs_bdev ctx) = submit" using on by (simp add: on_provider_def)
  note W = write_sectors [OF sub w]
  show ?thesis
  proof (cases r1)
    case (Inl err)
    then have ctx': "r = Inl err" "ctx' = ctx\<lparr>bs_bdev := bdev\<rparr>"
      using flush True w len(1) by (simp_all add: blockdev_stream_flush_def)
    have S: "same_outside (cache_first_sector ?c * SECTOR_SIZE) (length (cache_buffer ?c)) (device bytes ctx) (device bytes ctx')"
      using W(1) ctx'(2) by (simp add: device_def)
    have same: "length (device bytes ctx') = length (device bytes ctx)" "stream_view bytes ctx' = stream_view bytes ctx"
      using S overwrite_same_outside [OF S] True ctx'(2) by (simp_all only: same_outside_def) (simp add: stream_view_def)
    have "cache_ok bytes ctx'"
      using ctx'(2) same(1) True len cache_ok_offset [OF ok] by (intro cache_okI [OF ok]) (simp_all add: cache_holds_def)
    then show ?thesis using ctx' on W(1) True same by (simp add: kept_def on_provider_def)
  next
    case (Inr b)
    then have ctx': "r = Inr ()" "ctx' = ctx\<lparr>bs_bdev := snd (blockdevice_flush bdev), bs_cache := ?c\<lparr>cache_dirty := False\<rparr>\<rparr>"
      using flush True w len(1) by (simp_all add: blockdev_stream_flush_def)
    have dev: "device bytes ctx' = stream_view bytes ctx"
      using W(2) [OF Inr] W(1) flush_device [of bdev] ctx'(2) True by (simp add: device_def stream_view_def)
    then have v: "stream_view bytes ctx' = stream_view bytes ctx" using ctx'(2) True len
      by (simp add: stream_view_def overwrite_twice)
    have l: "length (device bytes ctx') = length (device bytes ctx)" unfolding dev
      using True len by (simp add: stream_view_def)
    have "take (cache_size ?c) (drop (cache_first_sector ?c * SECTOR_SIZE) (device bytes ctx')) = cache_buffer ?c"
      unfolding dev using True len slice_inside [of 0 "cache_size ?c" "cache_buffer ?c"] by (simp add: stream_view_def)
    then have "cache_ok bytes ctx'"
      using ctx'(2) l True len cache_ok_offset [OF ok] by (intro cache_okI [OF ok]) (simp_all add: cache_holds_def)
    then show ?thesis using ctx' on W(1) flush_device [of bdev] v l dev True
      by (simp add: kept_def on_provider_def)
  qed
qed

lemma flush_cache_ok:
  assumes on: "on_provider sector_count submit ctx" and ok: "cache_ok bytes ctx"
    and flush: "blockdev_stream_flush ctx = (r, ctx')"
  shows "kept ctx ctx'" and "r = Inr () \<Longrightarrow> device bytes ctx' = stream_view bytes ctx"
    and "cache_valid (bs_cache ctx') = cache_valid (bs_cache ctx)"
proof -
  have "kept ctx ctx' \<and> (r = Inr () \<longrightarrow> device bytes ctx' = stream_view bytes ctx) \<and>
    cache_valid (bs_cache ctx') = cache_valid (bs_cache ctx)"
  proof (cases "cache_valid (bs_cache ctx) \<and> cache_dirty (bs_cache ctx)")
    case False
    then have "ctx' = ctx" using flush by (auto simp: blockdev_stream_flush_def Let_def split: if_splits)
    then show ?thesis using kept_refl [OF on ok] clean_view [OF ok] False by simp
  next
    case True
    then show ?thesis using flush_dirty [OF on ok flush] by simp
  qed
  then show "kept ctx ctx'" and "r = Inr () \<Longrightarrow> device bytes ctx' = stream_view bytes ctx"
    and "cache_valid (bs_cache ctx') = cache_valid (bs_cache ctx)" by simp_all
qed

lemma cache_leave_ok:
  assumes on: "on_provider sector_count submit ctx" and ok: "cache_ok bytes ctx"
    and leave: "cache_leave ctx sector = (r, ctx')"
  shows "kept ctx ctx' \<and> (r = Inr () \<longrightarrow> (cache_valid (bs_cache ctx') \<longrightarrow> sector_is_cached ctx' sector) \<and>
    (device bytes ctx' = device bytes ctx \<or> device bytes ctx' = stream_view bytes ctx))"
proof (cases "cache_valid (bs_cache ctx) \<and> \<not> sector_is_cached ctx sector")
  case False
  then have "r = Inr ()" "ctx' = ctx" using leave by (auto simp: cache_leave_def)
  then show ?thesis using kept_refl [OF on ok] False by simp
next
  case True
  obtain r1 ctx1 where f: "(if cache_dirty (bs_cache ctx) then blockdev_stream_flush ctx else (Inr (), ctx)) = (r1, ctx1)"
    by fastforce
  have "kept ctx ctx1 \<and> (r1 = Inr () \<longrightarrow> device bytes ctx1 = stream_view bytes ctx)"
  proof (cases "cache_dirty (bs_cache ctx)")
    case True
    with f flush_cache_ok(1,2) [OF on ok, of r1 ctx1] show ?thesis by simp
  next
    case False
    with f kept_refl [OF on ok] clean_view [OF ok] show ?thesis by simp
  qed
  then have k: "kept ctx ctx1" "r1 = Inr () \<Longrightarrow> device bytes ctx1 = stream_view bytes ctx" by simp_all
  show ?thesis
  proof (cases r1)
    case (Inl err)
    then have "r = Inl err" "ctx' = ctx1" using leave True f by (simp_all add: cache_leave_def)
    then show ?thesis using k(1) by simp
  next
    case (Inr u)
    then have r: "r = Inr ()" "ctx' = ctx1\<lparr>bs_cache := (bs_cache ctx1)\<lparr>cache_valid := False\<rparr>\<rparr>"
      using leave True f by (simp_all add: cache_leave_def)
    have d: "device bytes ctx' = stream_view bytes ctx" using k(2) Inr r(2) by (simp add: device_def)
    then have v: "stream_view bytes ctx' = stream_view bytes ctx" using r(2) by (simp add: stream_view_def)
    have "cache_ok bytes ctx1" using k(1) by (simp add: kept_def)
    then have "cache_ok bytes ctx'"
      by (rule cache_okI) (use cache_ok_offset [of bytes ctx1] k(1) r(2) in \<open>simp_all add: device_def kept_def\<close>)
    then show ?thesis using k(1) r d v by (simp add: kept_def on_provider_def device_def)
  qed
qed

lemma cache_enter_ok:
  assumes on: "on_provider sector_count submit ctx" and ok: "cache_ok bytes ctx"
    and mark: "mark = mark_clean \<or> mark = keep_mark"
    and cached: "cache_valid (bs_cache ctx) \<Longrightarrow> sector_is_cached ctx sector"
    and enter: "cache_enter mark ctx sector = (r, ctx')"
  shows "kept ctx ctx' \<and> device bytes ctx' = device bytes ctx \<and>
    (r = Inr () \<longrightarrow> cache_valid (bs_cache ctx') \<and> sector_is_cached ctx' sector)"
proof (cases "cache_valid (bs_cache ctx)")
  case True
  then have "r = Inr ()" "ctx' = ctx" using enter by (auto simp: cache_enter_def)
  then show ?thesis using kept_refl [OF on ok] True cached by simp
next
  case False
  let ?c = "bs_cache ctx"
  obtain r1 bdev where io: "blockdevice_read (bs_bdev ctx) (cache_buffer ?c) (cache_size ?c) sector = (r1, bdev)"
    by fastforce
  have sub: "submit_io_op (bs_bdev ctx) = submit" using on by (simp add: on_provider_def)
  have "0 < cache_size ?c" using ok by (simp add: cache_ok_def)
  note R = read_sectors [OF sub io this]
  show ?thesis
  proof (cases r1)
    case (Inl err)
    then have r: "r = Inl err" "ctx' = ctx\<lparr>bs_bdev := bdev\<rparr>"
      using enter False io by (simp_all add: cache_enter_def)
    have d: "device bytes ctx' = device bytes ctx" using R(1) r(2) by (simp add: device_def)
    have "cache_ok bytes ctx'"
      by (rule cache_okI [OF ok]) (use cache_ok_offset [OF ok] False d r(2) in simp_all)
    then show ?thesis using r d R(1) on False by (simp add: kept_def on_provider_def stream_view_def)
  next
    case (Inr buf)
    then have r: "r = Inr ()" "ctx' = ctx\<lparr>bs_bdev := bdev, bs_cache := mark (?c\<lparr>cache_buffer := buf,
        cache_valid := True, cache_first_sector := sector\<rparr>)\<rparr>"
      using enter False io by (simp_all add: cache_enter_def)
    have d: "device bytes ctx' = device bytes ctx" using R(1) r(2) by (simp add: device_def)
    have c: "cache_buffer (bs_cache ctx') = buf" "cache_size (bs_cache ctx') = cache_size ?c"
      "cache_valid (bs_cache ctx')" "cache_first_sector (bs_cache ctx') = sector" "bs_offset ctx' = bs_offset ctx"
      using mark r(2) by (auto simp: mark_clean_def keep_mark_def)
    have buf: "sector * SECTOR_SIZE + cache_size ?c \<le> length (device bytes ctx)"
      "buf = take (cache_size ?c) (drop (sector * SECTOR_SIZE) (device bytes ctx))"
      using R(2) [OF Inr] by (simp_all add: device_def)
    have "cache_holds bytes ctx'" unfolding cache_holds_def c d using buf by simp
    then have ok': "cache_ok bytes ctx'"
      by (intro cache_okI [OF ok]) (use cache_ok_offset [OF ok] d c in simp_all)
    have v: "stream_view bytes ctx' = stream_view bytes ctx"
      using False overwrite_slice [OF buf(1)] unfolding stream_view_def c d by (simp add: buf(2) [symmetric])
    have "0 < cache_size ?c div SECTOR_SIZE" using ok by (auto simp: cache_ok_def SECTOR_SIZE_def)
    then have "sector_is_cached ctx' sector" by (simp add: sector_is_cached_def c)
    then show ?thesis using r(1) d c v ok' R(1) on r(2) by (simp add: kept_def on_provider_def)
  qed
qed

lemma cache_sector_ok:
  assumes on: "on_provider sector_count submit ctx" and ok: "cache_ok bytes ctx"
    and mark: "mark = mark_clean \<or> mark = keep_mark" and sec: "cache_sector mark ctx = (r, ctx')"
  shows "kept ctx ctx'"
    and "r = Inr () \<Longrightarrow> cache_valid (bs_cache ctx') \<and> sector_is_cached ctx' (bs_offset ctx div SECTOR_SIZE) \<and>
      (device bytes ctx' = device bytes ctx \<or> device bytes ctx' = stream_view bytes ctx)"
proof -
  let ?s = "bs_offset ctx div SECTOR_SIZE"
  obtain r1 ctx1 where l: "cache_leave ctx ?s = (r1, ctx1)" by fastforce
  note L = cache_leave_ok [OF on ok l]
  have "kept ctx ctx' \<and> (r = Inr () \<longrightarrow> cache_valid (bs_cache ctx') \<and> sector_is_cached ctx' ?s \<and>
      (device bytes ctx' = device bytes ctx \<or> device bytes ctx' = stream_view bytes ctx))"
  proof (cases r1)
    case (Inl err)
    then have "r = Inl err" "ctx' = ctx1" using sec l by (simp_all add: cache_sector_def Let_def)
    then show ?thesis using L by simp
  next
    case (Inr u)
    then have e: "cache_enter mark ctx1 ?s = (r, ctx')" using sec l by (simp add: cache_sector_def Let_def)
    have "on_provider sector_count submit ctx1" "cache_ok bytes ctx1" using L by (simp_all add: kept_def)
    from cache_enter_ok [OF this mark _ e] L Inr kept_trans [of ctx ctx1 ctx'] show ?thesis by auto
  qed
  then show "kept ctx ctx'"
    and "r = Inr () \<Longrightarrow> cache_valid (bs_cache ctx') \<and> sector_is_cached ctx' ?s \<and>
      (device bytes ctx' = device bytes ctx \<or> device bytes ctx' = stream_view bytes ctx)" by simp_all
qed

lemma inside_cached:
  assumes ok: "cache_ok bytes ctx" and cached: "sector_is_cached ctx (bs_offset ctx div SECTOR_SIZE)"
  shows "bs_offset ctx = cache_first_sector (bs_cache ctx) * SECTOR_SIZE + inside_cache ctx"
    and "inside_cache ctx < cache_size (bs_cache ctx)"
proof -
  obtain k where k: "cache_size (bs_cache ctx) = SECTOR_SIZE * k" using ok by (auto simp: cache_ok_def)
  let ?f = "cache_first_sector (bs_cache ctx)"
  have f: "?f \<le> bs_offset ctx div SECTOR_SIZE" "bs_offset ctx div SECTOR_SIZE < ?f + k"
    using cached k by (simp_all add: sector_is_cached_def SECTOR_SIZE_def)
  have lo: "?f * SECTOR_SIZE \<le> bs_offset ctx" using f(1) by (simp add: SECTOR_SIZE_def)
  have hi: "bs_offset ctx < (?f + k) * SECTOR_SIZE" using f(2) by (simp add: SECTOR_SIZE_def)
  show "bs_offset ctx = ?f * SECTOR_SIZE + inside_cache ctx" using lo by (simp add: inside_cache_def)
  show "inside_cache ctx < cache_size (bs_cache ctx)" using lo hi k by (simp add: inside_cache_def algebra_simps)
qed

lemma cached_view:
  assumes "cache_valid (bs_cache ctx)"
  shows "stream_view bytes ctx = overwrite (device bytes ctx) (cache_first_sector (bs_cache ctx) * SECTOR_SIZE)
    (cache_buffer (bs_cache ctx))"
  using assms by (simp add: stream_view_def)

lemma cached_slice:
  assumes ok: "cache_ok bytes ctx" and valid: "cache_valid (bs_cache ctx)"
    and cached: "sector_is_cached ctx (bs_offset ctx div SECTOR_SIZE)"
    and k: "inside_cache ctx + k \<le> cache_size (bs_cache ctx)"
  shows "take k (drop (inside_cache ctx) (cache_buffer (bs_cache ctx))) = take k (drop (bs_offset ctx) (stream_view bytes ctx))"
  unfolding cached_view [OF valid] inside_cached(1) [OF ok cached]
  by (rule slice_inside [symmetric]) (use cache_okD(1,2) [OF ok valid] k in simp_all)

lemma forward_ok:
  "cache_ok bytes ctx \<Longrightarrow> p \<le> length (device bytes ctx) \<Longrightarrow> cache_ok bytes (ctx\<lparr>bs_offset := p\<rparr>)"
  by (simp add: cache_ok_def cache_holds_def device_def)

lemma forward_same [simp]:
  "device bytes (ctx\<lparr>bs_offset := p\<rparr>) = device bytes ctx"
  "stream_view bytes (ctx\<lparr>bs_offset := p\<rparr>) = stream_view bytes ctx"
  "on_provider sector_count submit (ctx\<lparr>bs_offset := p\<rparr>) = on_provider sector_count submit ctx"
  by (simp_all add: device_def stream_view_def on_provider_def)

text \<open>A read never aborts; if it completes, it returns the bytes of the view. It changes no byte.\<close>

definition read_outcome :: "'c bdev_stream \<Rightarrow> nat \<Rightarrow> errcode + byte list \<Rightarrow> 'c bdev_stream \<Rightarrow> bool" where
  "read_outcome ctx n r ctx' \<longleftrightarrow> on_provider sector_count submit ctx' \<and> cache_ok bytes ctx' \<and>
     stream_view bytes ctx' = stream_view bytes ctx \<and> length (device bytes ctx') = length (device bytes ctx) \<and>
     (\<forall>b. r = Inr b \<longrightarrow> b = take n (drop (bs_offset ctx) (stream_view bytes ctx)) \<and> bs_offset ctx' = bs_offset ctx + n)"

lemma read_loop_ok:
  "on_provider sector_count submit ctx \<Longrightarrow> cache_ok bytes ctx \<Longrightarrow> bs_offset ctx + n \<le> length (device bytes ctx) \<Longrightarrow>
   \<exists>r ctx'. read_loop ctx n = Some (r, ctx') \<and> read_outcome ctx n r ctx'"
proof (induction n arbitrary: ctx rule: less_induct)
  case (less n)
  show ?case
  proof (cases "n = 0")
    case True
    then show ?thesis using less.prems by (simp add: read_loop.simps read_outcome_def)
  next
    case n: False
    obtain r1 c1 where s: "cache_sector mark_clean ctx = (r1, c1)" by fastforce
    note S = cache_sector_ok [OF less.prems(1,2) disjI1 [OF refl] s]
    have k1: "on_provider sector_count submit c1" "cache_ok bytes c1" "stream_view bytes c1 = stream_view bytes ctx"
      "bs_offset c1 = bs_offset ctx" "length (device bytes c1) = length (device bytes ctx)"
      using S(1) by (simp_all add: kept_def)
    show ?thesis
    proof (cases r1)
      case (Inl err)
      then show ?thesis using n s k1 by (simp add: read_loop.simps [of ctx n] read_outcome_def)
    next
      case (Inr u)
      then have c: "cache_valid (bs_cache c1)" "sector_is_cached c1 (bs_offset c1 div SECTOR_SIZE)"
        using S(2) k1(4) by simp_all
      let ?i = "inside_cache c1" and ?c = "bs_cache c1"
      define k where "k = min n (cache_size ?c - ?i)"
      note I = inside_cached [OF k1(2) c(2)]
      have k: "0 < k" "k \<le> n" "?i + k \<le> cache_size ?c" using n I(2) by (auto simp: k_def)
      let ?c2 = "c1\<lparr>bs_offset := bs_offset c1 + k\<rparr>"
      have ok2: "cache_ok bytes ?c2" by (rule forward_ok [OF k1(2)]) (use less.prems(3) k(2) k1 in simp)
      obtain r2 c3 where L: "read_loop ?c2 (n - k) = Some (r2, c3)" "read_outcome ?c2 (n - k) r2 c3"
        using less.IH [of "n - k" ?c2] k n less.prems(3) k1 ok2 by auto
      have piece: "take k (drop ?i (cache_buffer ?c)) = take k (drop (bs_offset ctx) (stream_view bytes ctx))"
        using cached_slice [OF k1(2) c k(3)] k1(3,4) by simp
      have "take n (drop (bs_offset ctx) (stream_view bytes ctx)) =
          take k (drop (bs_offset ctx) (stream_view bytes ctx)) @ take (n - k) (drop (bs_offset ctx + k) (stream_view bytes ctx))"
        using take_add [of k "n - k" "drop (bs_offset ctx) (stream_view bytes ctx)"] k(2) by (simp add: add.commute)
      with piece L(2) k1 k(2) have "read_outcome ctx n (case r2 of Inl e \<Rightarrow> Inl e | Inr b \<Rightarrow>
          Inr (take k (drop ?i (cache_buffer ?c)) @ b)) c3"
        by (auto simp: read_outcome_def split: sum.splits)
      then show ?thesis using n s Inr I(2) L(1) k_def
        by (cases r2) (simp_all add: read_loop.simps [of ctx n] Let_def)
    qed
  qed
qed

text \<open>A write never aborts. Whatever it returns, a first part of the buffer is in the view and no
  other byte of the view has changed; if it completes, the part is the whole buffer, and the
  device holds what it held, or the view as it was when some first part had been written.\<close>

definition write_outcome :: "'c bdev_stream \<Rightarrow> byte list \<Rightarrow> errcode + nat \<Rightarrow> 'c bdev_stream \<Rightarrow> bool" where
  "write_outcome ctx buf r ctx' \<longleftrightarrow> on_provider sector_count submit ctx' \<and> cache_ok bytes ctx' \<and>
     length (device bytes ctx') = length (device bytes ctx) \<and>
     (\<exists>m \<le> length buf. stream_view bytes ctx' = overwrite (stream_view bytes ctx) (bs_offset ctx) (take m buf) \<and>
        bs_offset ctx' = bs_offset ctx + m \<and> (\<forall>w. r = Inr w \<longrightarrow> w = length buf \<and> m = length buf)) \<and>
     (isl r \<or> device bytes ctx' = device bytes ctx \<or>
        (\<exists>j \<le> length buf. device bytes ctx' = overwrite (stream_view bytes ctx) (bs_offset ctx) (take j buf)))"

lemma length_view: "cache_ok bytes ctx \<Longrightarrow> length (stream_view bytes ctx) = length (device bytes ctx)"
  using cache_okD(1,2) [of bytes ctx] by (simp add: stream_view_def)

lemma cache_store_ok:
  assumes ok: "cache_ok bytes ctx" and valid: "cache_valid (bs_cache ctx)"
    and cached: "sector_is_cached ctx (bs_offset ctx div SECTOR_SIZE)"
    and k: "inside_cache ctx + length b \<le> cache_size (bs_cache ctx)"
    and ctx': "ctx' = ctx\<lparr>bs_cache := (bs_cache ctx)\<lparr>cache_buffer := overwrite (cache_buffer (bs_cache ctx)) (inside_cache ctx) b,
      cache_dirty := True\<rparr>, bs_offset := bs_offset ctx + length b\<rparr>"
  shows "cache_ok bytes ctx'" and "stream_view bytes ctx' = overwrite (stream_view bytes ctx) (bs_offset ctx) b"
    and "device bytes ctx' = device bytes ctx"
proof -
  note C = cache_okD(1,2) [OF ok valid] and I = inside_cached [OF ok cached]
  show d: "device bytes ctx' = device bytes ctx" by (simp add: ctx' device_def)
  show "cache_ok bytes ctx'"
    by (rule cache_okI [OF ok]) (use C I(1) k valid d in \<open>simp_all add: ctx' cache_holds_def\<close>)
  have v: "cache_valid (bs_cache ctx')" using valid by (simp add: ctx')
  show "stream_view bytes ctx' = overwrite (stream_view bytes ctx) (bs_offset ctx) b"
    unfolding cached_view [OF valid] cached_view [OF v] d I(1)
    using overwrite_inside [of "inside_cache ctx" b "cache_buffer (bs_cache ctx)"] C k by (simp add: ctx')
qed

text \<open>The outcome of the rest of a write, after a piece of it went to the cache.\<close>

lemma write_outcome_piece:
  assumes rest: "write_outcome c2 (drop k buf) r c3" and k: "k \<le> length buf"
    and v: "stream_view bytes c2 = overwrite (stream_view bytes ctx) (bs_offset ctx) (take k buf)"
    and ofs: "bs_offset c2 = bs_offset ctx + k" "bs_offset ctx + length buf \<le> length (stream_view bytes ctx)"
    and dev: "device bytes c2 = device bytes ctx \<or> device bytes c2 = stream_view bytes ctx"
    and len: "length (device bytes c2) = length (device bytes ctx)"
  shows "write_outcome ctx buf (case r of Inl e \<Rightarrow> Inl e | Inr w \<Rightarrow> Inr (k + w)) c3"
proof -
  have join: "overwrite (stream_view bytes c2) (bs_offset c2) (take m (drop k buf)) =
      overwrite (stream_view bytes ctx) (bs_offset ctx) (take (k + m) buf)" if "m \<le> length buf - k" for m
    using overwrite_append [of "bs_offset ctx" "take k buf" "stream_view bytes ctx" "take m (drop k buf)"] k ofs v
    by (simp add: take_add)
  obtain m where m: "m \<le> length buf - k" "stream_view bytes c3 = overwrite (stream_view bytes c2) (bs_offset c2) (take m (drop k buf))"
    "bs_offset c3 = bs_offset c2 + m" "\<forall>w. r = Inr w \<longrightarrow> w = length buf - k \<and> m = length buf - k"
    using rest by (auto simp: write_outcome_def)
  have "\<exists>m \<le> length buf. stream_view bytes c3 = overwrite (stream_view bytes ctx) (bs_offset ctx) (take m buf) \<and>
      bs_offset c3 = bs_offset ctx + m \<and>
      (\<forall>w. (case r of Inl e \<Rightarrow> Inl e | Inr w \<Rightarrow> Inr (k + w)) = Inr w \<longrightarrow> w = length buf \<and> m = length buf)"
  proof (intro exI [of _ "k + m"] conjI)
    show "k + m \<le> length buf" using m(1) k by simp
    show "stream_view bytes c3 = overwrite (stream_view bytes ctx) (bs_offset ctx) (take (k + m) buf)"
      by (rule trans [OF m(2) join [OF m(1)]])
    show "bs_offset c3 = bs_offset ctx + (k + m)" using m(3) ofs(1) by simp
    show "\<forall>w. (case r of Inl e \<Rightarrow> Inl e | Inr w \<Rightarrow> Inr (k + w)) = Inr w \<longrightarrow> w = length buf \<and> k + m = length buf"
      using m(4) k by (cases r) simp_all
  qed
  moreover have "isl r \<or> device bytes c3 = device bytes ctx \<or>
      (\<exists>j \<le> length buf. device bytes c3 = overwrite (stream_view bytes ctx) (bs_offset ctx) (take j buf))"
  proof -
    have "isl r \<or> device bytes c3 = device bytes c2 \<or>
        (\<exists>j \<le> length buf - k. device bytes c3 = overwrite (stream_view bytes c2) (bs_offset c2) (take j (drop k buf)))"
      using rest by (simp add: write_outcome_def)
    moreover have "stream_view bytes ctx = overwrite (stream_view bytes ctx) (bs_offset ctx) (take 0 buf)"
      using ofs(2) by simp
    ultimately show ?thesis using dev join k
      by (metis le0 le_add_diff_inverse nat_add_left_cancel_le)
  qed
  ultimately show ?thesis using rest len by (auto simp: write_outcome_def split: sum.splits)
qed

lemma write_loop_ok:
  "on_provider sector_count submit ctx \<Longrightarrow> cache_ok bytes ctx \<Longrightarrow>
   bs_offset ctx + length buf \<le> length (device bytes ctx) \<Longrightarrow>
   \<exists>r ctx'. write_loop ctx buf = Some (r, ctx') \<and> write_outcome ctx buf r ctx'"
proof (induction "length buf" arbitrary: ctx buf rule: less_induct)
  case less
  have lv: "bs_offset ctx + length buf \<le> length (stream_view bytes ctx)"
    using less.prems(3) length_view [OF less.prems(2)] by simp
  show ?case
  proof (cases "buf = []")
    case True
    then show ?thesis using less.prems lv by (simp add: write_loop.simps write_outcome_def)
  next
    case n: False
    obtain r1 c1 where s: "cache_sector keep_mark ctx = (r1, c1)" by fastforce
    note S = cache_sector_ok [OF less.prems(1,2) disjI2 [OF refl] s]
    have k1: "on_provider sector_count submit c1" "cache_ok bytes c1" "stream_view bytes c1 = stream_view bytes ctx"
      "bs_offset c1 = bs_offset ctx" "length (device bytes c1) = length (device bytes ctx)"
      using S(1) by (simp_all add: kept_def)
    show ?thesis
    proof (cases r1)
      case (Inl err)
      then show ?thesis using n s k1 lv by (auto simp: write_loop.simps [of ctx buf] write_outcome_def)
    next
      case (Inr u)
      then have c: "cache_valid (bs_cache c1)" "sector_is_cached c1 (bs_offset c1 div SECTOR_SIZE)"
        and dev: "device bytes c1 = device bytes ctx \<or> device bytes c1 = stream_view bytes ctx"
        using S(2) k1(4) by simp_all
      let ?i = "inside_cache c1" and ?c = "bs_cache c1"
      define k where "k = min (length buf) (cache_size ?c - ?i)"
      note I = inside_cached [OF k1(2) c(2)]
      have k: "0 < k" "k \<le> length buf" "?i + length (take k buf) \<le> cache_size ?c" using n I(2) by (auto simp: k_def)
      define c2 where "c2 = c1\<lparr>bs_cache := ?c\<lparr>cache_buffer := overwrite (cache_buffer ?c) ?i (take k buf),
        cache_dirty := True\<rparr>, bs_offset := bs_offset c1 + length (take k buf)\<rparr>"
      note C2 = cache_store_ok [OF k1(2) c k(3) c2_def]
      have c2: "on_provider sector_count submit c2" "bs_offset c2 = bs_offset ctx + k"
        using k1(1,4) k(2) by (simp_all add: c2_def on_provider_def)
      have shorter: "length (drop k buf) < length buf" using k(1,2) by simp
      obtain r2 c3 where L: "write_loop c2 (drop k buf) = Some (r2, c3)" "write_outcome c2 (drop k buf) r2 c3"
        using less.hyps [OF shorter c2(1) C2(1)] k(2) c2(2) C2(3) less.prems(3) k1(5) by auto
      have "write_outcome ctx buf (case r2 of Inl e \<Rightarrow> Inl e | Inr w \<Rightarrow> Inr (k + w)) c3"
        by (rule write_outcome_piece [OF L(2) k(2) _ c2(2) lv]) (use C2(2,3) k1 dev in simp_all)
      moreover have "write_loop ctx buf = Some (case r2 of Inl e \<Rightarrow> Inl e | Inr w \<Rightarrow> Inr (k + w), c3)"
        using n s Inr I(2) L(1) k(2)
        by (cases r2) (simp_all add: write_loop.simps [of ctx buf] Let_def k_def [symmetric] c2_def)
      ultimately show ?thesis by blast
    qed
  qed
qed

lemma real_size: "on_provider sector_count submit ctx \<Longrightarrow> blockdevice_size (bs_bdev ctx) = length (device bytes ctx)"
  by (simp add: blockdevice_size_def blockdevice_get_sector_count_def on_provider_def device_def bytes_size)

lemma stream_read_ok:
  assumes on: "on_provider sector_count submit ctx" and ok: "cache_ok bytes ctx"
  shows "\<exists>r ctx'. blockdev_stream_read ctx n = Some (r, ctx') \<and>
    read_outcome ctx (min n (length (device bytes ctx) - bs_offset ctx)) r ctx'"
proof -
  let ?n = "min n (length (device bytes ctx) - bs_offset ctx)"
  have le: "bs_offset ctx \<le> length (device bytes ctx)" "length (device bytes ctx) < 2 ^ 63"
    using ok by (simp_all add: cache_ok_def)
  have n: "(if bs_offset ctx + n > length (device bytes ctx)
      then u64 (int (length (device bytes ctx)) - int (bs_offset ctx)) else n) = ?n"
    using le by (auto simp: u64_id min_def nat_diff_distrib)
  have "bs_offset ctx + ?n \<le> length (device bytes ctx)" using le(1) by simp
  from read_loop_ok [OF on ok this] show ?thesis
    by (auto simp: blockdev_stream_read_def real_size [OF on] n Let_def read_loop.simps [of ctx 0])
qed

lemma stream_write_ok:
  assumes on: "on_provider sector_count submit ctx" and ok: "cache_ok bytes ctx"
  shows "\<exists>r ctx'. blockdev_stream_write ctx buf = Some (r, ctx') \<and>
    (if bs_offset ctx + length buf > length (device bytes ctx) then r = Inl ENOSPC \<and> ctx' = ctx
     else write_outcome ctx buf r ctx')"
proof (cases "bs_offset ctx + length buf > length (device bytes ctx)")
  case True
  then have "buf \<noteq> []" using cache_ok_offset [OF ok] by auto
  then show ?thesis using True by (simp add: blockdev_stream_write_def real_size [OF on])
next
  case False
  then have "bs_offset ctx + length buf \<le> length (device bytes ctx)" by simp
  from write_loop_ok [OF on ok this] False show ?thesis
    by (auto simp: blockdev_stream_write_def real_size [OF on] write_loop.simps [of ctx "[]"])
qed

text \<open>Seeking from the beginning reaches exactly the positions of the device, its end included.\<close>

lemma stream_seek_ok:
  assumes on: "on_provider sector_count submit ctx" and ok: "cache_ok bytes ctx" and p: "p < 2 ^ 63"
  shows "blockdev_stream_seek ctx (int p) STREAM_SEEK_FROM_BEGINNING =
    (if p \<le> length (device bytes ctx) then (Inr (), ctx\<lparr>bs_offset := p\<rparr>) else (Inl EINVAL, ctx))"
  using p by (simp add: blockdev_stream_seek_def real_size [OF on] Let_def u64_id)

text \<open>A sequence of writes that all complete. The view is the array after all of them. The device is
  the array after the first of them, of which the last may be there in part only.\<close>

lemma run_writes_ok:
  assumes on: "on_provider sector_count submit ctx" and ok: "cache_ok bytes ctx"
    and clean: "device bytes ctx = stream_view bytes ctx" and ops: "\<forall>(p, b) \<in> set ops. p < 2 ^ 63"
    and run: "run_writes ctx ops = Some (Inr (), ctx')"
  shows "on_provider sector_count submit ctx' \<and> cache_ok bytes ctx' \<and>
    stream_view bytes ctx' = written_array (stream_view bytes ctx) ops \<and> partly_written (stream_view bytes ctx) ops (device bytes ctx')"
  using ops run
proof (induction ops arbitrary: ctx' rule: rev_induct)
  case Nil
  then show ?case using on ok clean by (simp add: partly_written_def)
next
  case (snoc op ops)
  obtain p b where op: "op = (p, b)" by (cases op)
  from snoc.prems(2) obtain c1 where c1: "run_writes ctx ops = Some (Inr (), c1)" "run_writes c1 [op] = Some (Inr (), ctx')"
    by (rule run_writes_snocE)
  have IH: "on_provider sector_count submit c1" "cache_ok bytes c1" "stream_view bytes c1 = written_array (stream_view bytes ctx) ops"
    "partly_written (stream_view bytes ctx) ops (device bytes c1)"
    using snoc.IH [OF _ c1(1)] snoc.prems(1) by auto
  have p: "p < 2 ^ 63" using snoc.prems(1) op by simp
  from c1(2) have le: "p \<le> length (device bytes c1)" using stream_seek_ok [OF IH(1,2) p] op
    by (auto split: if_splits)
  let ?c2 = "c1\<lparr>bs_offset := p\<rparr>"
  have ok2: "on_provider sector_count submit ?c2" "cache_ok bytes ?c2"
    using IH(1) forward_ok [OF IH(2) le] by simp_all
  obtain w where w: "blockdev_stream_write ?c2 b = Some (Inr w, ctx')"
    using c1(2) stream_seek_ok [OF IH(1,2) p] le op by (auto split: option.splits sum.splits)
  have "write_outcome ?c2 b (Inr w) ctx'" using stream_write_ok [OF ok2, of b] w by (auto split: if_splits)
  then have W: "on_provider sector_count submit ctx'" "cache_ok bytes ctx'"
    "stream_view bytes ctx' = overwrite (stream_view bytes c1) p b"
    "device bytes ctx' = device bytes c1 \<or> (\<exists>j \<le> length b. device bytes ctx' = overwrite (stream_view bytes c1) p (take j b))"
    by (auto simp: write_outcome_def)
  have "p \<le> length (written_array (stream_view bytes ctx) ops)" using le IH(3) length_view [OF IH(2)] by simp
  with partly_written_snoc [OF IH(4)] W IH(3) op show ?case by auto
qed

end

section \<open>Providers\<close>

definition sys_bytes :: "byte list \<Rightarrow> byte list" where
  "sys_bytes file = take (sys_blockdevice_get_sector_count file * SECTOR_SIZE) file"

lemma sector_rounding:
  fixes n :: nat
  shows "n \<le> (if n mod 512 = 0 then n else n + 512 - n mod 512)"
    and "(if n mod 512 = 0 then n else n + 512 - n mod 512) mod 512 = 0"
proof -
  have lt: "n mod 512 < 512" by simp
  then have "n \<le> n + 512 - n mod 512" by arith
  then show "n \<le> (if n mod 512 = 0 then n else n + 512 - n mod 512)" by simp
  define q r where "q = n div 512" and "r = n mod 512"
  then have n: "n = 512 * q + r" by simp
  then have "n + 512 - r = 512 * (q + 1)" by simp
  then have "n + 512 - n mod 512 = 512 * (q + 1)" by (simp add: r_def)
  then show "(if n mod 512 = 0 then n else n + 512 - n mod 512) mod 512 = 0" by simp
qed

text \<open>The provider on a system file keeps the contract although it cannot write: it completes no
  write.\<close>

interpretation sys: block_provider sys_blockdevice_get_sector_count sys_blockdevice_submit_io sys_bytes
proof
  fix c c' :: "byte list" and io r b buf
  show "length (sys_bytes c) = sys_blockdevice_get_sector_count c * SECTOR_SIZE"
    by (simp add: sys_bytes_def sys_blockdevice_get_sector_count_def)
  show "sys_bytes c' = sys_bytes c" if "io_type io = BLOCKDEVICE_IO_READ" "sys_blockdevice_submit_io c io = (r, c')"
    using that by (auto simp: sys_blockdevice_submit_io_def Let_def split: sum.splits)
  show "start_sector io * SECTOR_SIZE + io_size io \<le> length (sys_bytes c) \<and>
      b = take (io_size io) (drop (start_sector io * SECTOR_SIZE) (sys_bytes c))"
    if "io_type io = BLOCKDEVICE_IO_READ" and n: "0 < io_size io" and "sys_blockdevice_submit_io c io = (Inr b, c')"
  proof -
    let ?n = "io_size io" and ?p = "start_sector io * SECTOR_SIZE"
    define a where "a = (if ?n mod 512 = 0 then ?n else ?n + 512 - ?n mod 512)"
    have a: "?n \<le> a" "a mod 512 = 0" unfolding a_def by (rule sector_rounding)+
    have "\<exists>x. sys_blockdevice_do_read c a (start_sector io) = Inr x \<and> b = take ?n x"
      using that unfolding sys_blockdevice_submit_io_def Let_def a_def by (auto split: sum.splits)
    then have b: "length (take a (drop ?p c)) = a" "b = take ?n (take a (drop ?p c))"
      by (auto simp: sys_blockdevice_do_read_def Let_def split: if_splits)
    from b(1) a(1) n have "?p + a \<le> length c" by simp
    moreover obtain k where k: "a = k * SECTOR_SIZE" using a(2) by (auto simp: SECTOR_SIZE_def)
    ultimately have "(start_sector io + k) * SECTOR_SIZE \<le> length c" by (simp add: add_mult_distrib)
    then have "start_sector io + k \<le> sys_blockdevice_get_sector_count c"
      unfolding sys_blockdevice_get_sector_count_def by (subst less_eq_div_iff_mult_less_eq) (simp_all add: SECTOR_SIZE_def)
    then have "(start_sector io + k) * SECTOR_SIZE \<le> sys_blockdevice_get_sector_count c * SECTOR_SIZE"
      by (rule mult_le_mono1)
    then have "?p + a \<le> sys_blockdevice_get_sector_count c * SECTOR_SIZE" using k by (simp add: add_mult_distrib)
    moreover have "length (sys_bytes c) = sys_blockdevice_get_sector_count c * SECTOR_SIZE"
      by (simp add: sys_bytes_def sys_blockdevice_get_sector_count_def)
    ultimately show ?thesis using a(1) b(2) by (simp add: sys_bytes_def drop_take min_def)
  qed
qed (auto simp: sys_blockdevice_submit_io_def sys_blockdevice_do_write_def Let_def)

text \<open>A disk that completes every request within its size.\<close>

definition disk_sectors :: "byte list \<Rightarrow> nat" where
  "disk_sectors disk = length disk div SECTOR_SIZE"

definition disk_submit :: "byte list \<Rightarrow> blockdevice_io \<Rightarrow> (errcode + byte list) \<times> byte list" where
  "disk_submit disk io =
     (let p = start_sector io * SECTOR_SIZE; buf = (case io_buf io of Some b \<Rightarrow> take (io_size io) b | None \<Rightarrow> []) in
      if p + io_size io > disk_sectors disk * SECTOR_SIZE then (Inl EIO, disk)
      else case io_type io of
             BLOCKDEVICE_IO_READ \<Rightarrow> (Inr (take (io_size io) (drop p disk)), disk)
           | BLOCKDEVICE_IO_WRITE \<Rightarrow> (Inr buf, overwrite disk p buf))"

definition disk_bytes :: "byte list \<Rightarrow> byte list" where
  "disk_bytes disk = take (disk_sectors disk * SECTOR_SIZE) disk"

lemma take_overwrite:
  assumes "p + length b \<le> m" "m \<le> length xs"
  shows "take m (overwrite xs p b) = overwrite (take m xs) p b"
proof -
  obtain d where m: "m = p + length b + d" using assms(1) le_Suc_ex by blast
  have "length b = 0" if "length xs \<le> p" using that assms by linarith
  then show ?thesis using assms(2) unfolding m overwrite_def by (auto simp: drop_take min_def)
qed

lemma length_disk_bytes: "length (disk_bytes disk) = disk_sectors disk * SECTOR_SIZE"
  by (simp add: disk_bytes_def disk_sectors_def)

lemma disk_bytes_overwrite:
  assumes "p + length b \<le> disk_sectors disk * SECTOR_SIZE"
  shows "disk_bytes (overwrite disk p b) = overwrite (disk_bytes disk) p b"
proof -
  have le: "disk_sectors disk * SECTOR_SIZE \<le> length disk" by (simp add: disk_sectors_def)
  with assms have "length (overwrite disk p b) = length disk" by (intro length_overwrite) (rule le_trans)
  then have "disk_sectors (overwrite disk p b) = disk_sectors disk" by (simp add: disk_sectors_def)
  with take_overwrite [OF assms le] show ?thesis by (simp add: disk_bytes_def)
qed

interpretation disk: block_provider disk_sectors disk_submit disk_bytes
proof
  fix c c' :: "byte list" and io r b buf
  show "length (disk_bytes c) = disk_sectors c * SECTOR_SIZE" by (rule length_disk_bytes)
  show "disk_bytes c' = disk_bytes c" if "io_type io = BLOCKDEVICE_IO_READ" "disk_submit c io = (r, c')"
    using that by (auto simp: disk_submit_def Let_def split: if_splits)
  show "start_sector io * SECTOR_SIZE + io_size io \<le> length (disk_bytes c) \<and>
      b = take (io_size io) (drop (start_sector io * SECTOR_SIZE) (disk_bytes c))"
    if "io_type io = BLOCKDEVICE_IO_READ" "0 < io_size io" "disk_submit c io = (Inr b, c')"
  proof -
    from that have "start_sector io * SECTOR_SIZE + io_size io \<le> disk_sectors c * SECTOR_SIZE"
      "b = take (io_size io) (drop (start_sector io * SECTOR_SIZE) c)"
      by (auto simp: disk_submit_def Let_def split: if_splits)
    then show ?thesis unfolding length_disk_bytes by (simp add: disk_bytes_def drop_take min_def)
  qed
  show "same_outside (start_sector io * SECTOR_SIZE) (io_size io) (disk_bytes c) (disk_bytes c')"
    if "io_type io = BLOCKDEVICE_IO_WRITE" "disk_submit c io = (r, c')"
  proof (cases "c' = c")
    case False
    let ?b = "case io_buf io of Some b \<Rightarrow> take (io_size io) b | None \<Rightarrow> []"
    from that False have "start_sector io * SECTOR_SIZE + io_size io \<le> disk_sectors c * SECTOR_SIZE"
      "c' = overwrite c (start_sector io * SECTOR_SIZE) ?b"
      by (auto simp: disk_submit_def Let_def split: if_splits)
    moreover have "length ?b \<le> io_size io" by (simp split: option.splits)
    ultimately show ?thesis
      using same_outside_overwrite [of _ _ "disk_bytes c" ?b] disk_bytes_overwrite [of _ ?b c] by (simp add: length_disk_bytes)
  qed simp
  show "disk_bytes c' = overwrite (disk_bytes c) (start_sector io * SECTOR_SIZE) buf"
    if "io_type io = BLOCKDEVICE_IO_WRITE" "io_buf io = Some buf" "io_size io = length buf" "disk_submit c io = (Inr b, c')"
    using that by (auto simp: disk_submit_def Let_def disk_bytes_overwrite split: if_splits)
qed

section \<open>Properties\<close>


text \<open>C11: what the cache has written back is never out of order. After any sequence of writes that
  all report success, on a stream whose cache was clean, the device holds the array as it was
  after a first part of these writes, the last of which may be there in part; reading through
  the stream gives the array after all of them.\<close>

theorem write_back_in_order:
  assumes provider: "block_provider sector_count submit bytes"
    and on: "on_provider sector_count submit ctx" and ok: "cache_ok bytes ctx"
    and clean: "device bytes ctx = stream_view bytes ctx" and ops: "\<forall>(p, b) \<in> set ops. p < 2 ^ 63"
    and run: "run_writes ctx ops = Some (Inr (), ctx')"
  shows "stream_view bytes ctx' = written_array (device bytes ctx) ops \<and>
    partly_written (device bytes ctx) ops (device bytes ctx')"
  using block_provider.run_writes_ok [OF provider on ok clean ops run] clean by simp

text \<open>A disk of four sectors with a cache of one sector: a write over the border of two sectors leaves
  the first of them on the disk and the second in the cache.\<close>

definition example_disk :: "byte list bdev_stream" where
  "example_disk = \<lparr> bs_bdev = blockdevice_open (replicate 2048 0) disk_sectors disk_submit BLOCKDEVICE_ACCESS_RW,
     bs_offset = 0, bs_cache = \<lparr> cache_buffer = replicate 512 0, cache_size = 512, cache_first_sector = 0,
       cache_valid = False, cache_dirty = False \<rparr> \<rparr>"

lemma example_disk_ok:
  "on_provider disk_sectors disk_submit example_disk" "cache_ok disk_bytes example_disk"
  "device disk_bytes example_disk = replicate 2048 0" "stream_view disk_bytes example_disk = replicate 2048 0"
  by (simp_all add: example_disk_def on_provider_def blockdevice_open_def cache_ok_def device_def stream_view_def
      disk_bytes_def disk_sectors_def SECTOR_SIZE_def)

lemmas bdev_stream_defs = blockdev_stream_write_def blockdev_stream_flush_def blockdev_stream_seek_def
  write_loop.simps cache_sector_def cache_leave_def cache_enter_def keep_mark_def sector_is_cached_def inside_cache_def
  blockdevice_read_def blockdevice_write_def blockdevice_flush_def blockdevice_submit_io_def blockdevice_open_def
  blockdevice_size_def blockdevice_get_sector_count_def disk_submit_def disk_sectors_def SECTOR_SIZE_def u64_def

lemma example_disk_write: "\<exists>ctx'. blockdev_stream_write example_disk [7, 8] = Some (Inr 2, ctx')"
  by (simp add: bdev_stream_defs example_disk_def)


lemma example_disk_run: "\<exists>ctx'. run_writes example_disk [(510, [7, 8, 9]), (1024, [6])] = Some (Inr (), ctx')"
  by (simp add: bdev_stream_defs example_disk_def overwrite_def)

theorem write_back_in_order_witness:
  "\<exists>ctx'. run_writes example_disk [(510, [7, 8, 9]), (1024, [6])] = Some (Inr (), ctx') \<and>
    stream_view disk_bytes ctx' = written_array (replicate 2048 0) [(510, [7, 8, 9]), (1024, [6])] \<and>
    partly_written (replicate 2048 0) [(510, [7, 8, 9]), (1024, [6])] (device disk_bytes ctx')"
proof -
  obtain ctx' where run: "run_writes example_disk [(510, [7, 8, 9]), (1024, [6])] = Some (Inr (), ctx')"
    using example_disk_run by blast
  have clean: "device disk_bytes example_disk = stream_view disk_bytes example_disk" by (simp add: example_disk_ok)
  have "\<forall>(p, b) \<in> set [(510, [7, 8, 9]), (1024, [6 :: byte])]. p < (2 :: nat) ^ 63" by simp
  from write_back_in_order [OF disk.block_provider_axioms example_disk_ok(1,2) clean this run] run
  show ?thesis by (auto simp: example_disk_ok(3))
qed

end
