(* ===== verification/Vrt_Superblock.thy ===== *)
theory Vrt_Superblock
  imports Vrt_Flat
begin

text \<open>
  The superblocks of a real device (\<open>vrt/virtualiseur/src/vrt_realdev.c\<close> from \<open>__read_sb_headers\<close> on,
  \<open>realdev_superblock.c\<close> and \<open>realdev_superblock.h\<close>). The first 32 MiB of a device hold two
  headers followed by two data areas. A new version is written to the position that does not
  hold the old one: its data through a checksum stream over a narrowed stream, then its header.

  The streams of a device share the raw stream. A device is the raw stream, the offsets of the two
  narrowed streams and the contexts of the two checksum streams; \<open>sb_data_stream\<close> and
  \<open>checksum_sb_stream\<close> build the stream that the code has at a pointer, and \<open>on_data\<close> and
  \<open>on_checksum\<close> run an operation on it and put its parts back. The raw stream is any stream that
  is an array with a cursor; it is opened by \<open>blockdevice_stream_on\<close>, whose stream refines such an
  array.
\<close>

section \<open>Headers\<close>

definition SUPERBLOCK_HEADER_MAGIC :: "32 word" where
  "SUPERBLOCK_HEADER_MAGIC = 0x99033055"

definition SUPERBLOCK_HEADER_FORMAT :: "32 word" where
  "SUPERBLOCK_HEADER_FORMAT = 1"

record superblock_header =
  sbh_magic :: "32 word"
  sbh_format :: "32 word"
  sbh_position :: "32 word"
  sbh_reserved1 :: "32 word"
  sbh_sb_version :: "64 word"
  sbh_data_max_size :: "64 word"
  sbh_data_offset :: "64 word"
  sbh_data_size :: "64 word"
  sbh_checksum :: "16 word"
  sbh_reserved2 :: "byte list"

text \<open>The bytes of the structure: 56, of which the last six are reserved.\<close>

definition header_size :: nat where
  "header_size = 56"

definition header_bytes :: "superblock_header \<Rightarrow> byte list" where
  "header_bytes h = le32 (sbh_magic h) @ le32 (sbh_format h) @ le32 (sbh_position h) @ le32 (sbh_reserved1 h) @
     le64 (sbh_sb_version h) @ le64 (sbh_data_max_size h) @ le64 (sbh_data_offset h) @ le64 (sbh_data_size h) @
     le_bytes 2 (unat (sbh_checksum h)) @ sbh_reserved2 h"

definition header_of_bytes :: "byte list \<Rightarrow> superblock_header" where
  "header_of_bytes bs =
     \<lparr> sbh_magic = of_le32 (take 4 bs), sbh_format = of_le32 (take 4 (drop 4 bs)),
       sbh_position = of_le32 (take 4 (drop 8 bs)), sbh_reserved1 = of_le32 (take 4 (drop 12 bs)),
       sbh_sb_version = of_le64 (take 8 (drop 16 bs)), sbh_data_max_size = of_le64 (take 8 (drop 24 bs)),
       sbh_data_offset = of_le64 (take 8 (drop 32 bs)), sbh_data_size = of_le64 (take 8 (drop 40 bs)),
       sbh_checksum = of_nat (of_le_bytes (take 2 (drop 48 bs))), sbh_reserved2 = take 6 (drop 50 bs) \<rparr>"

definition rdev_superblock_header_read_both ::
  "stream \<Rightarrow> (errcode + superblock_header list) \<times> stream" where
  "rdev_superblock_header_read_both stream =
     (case read_exact stream_read (2 * header_size) stream of
        (Inl err, stream) \<Rightarrow> (Inl err, stream)
      | (Inr bs, stream) \<Rightarrow>
          (Inr [header_of_bytes (take header_size bs), header_of_bytes (drop header_size bs)], stream))"

definition check_sb_header :: "superblock_header \<Rightarrow> nat \<Rightarrow> errcode + unit" where
  "check_sb_header header position =
     (if sbh_magic header \<noteq> SUPERBLOCK_HEADER_MAGIC then Inl VRT_ERR_SB_MAGIC
      else if sbh_format header \<noteq> SUPERBLOCK_HEADER_FORMAT then Inl VRT_ERR_SB_FORMAT
      else if sbh_position header \<noteq> of_nat position then Inl VRT_ERR_SB_CORRUPTION
      else if sbh_reserved1 header \<noteq> 0 then Inl VRT_ERR_SB_CORRUPTION
      else if sbh_data_size header > sbh_data_max_size header then Inl VRT_ERR_SB_CORRUPTION
      else if \<not> list_all (\<lambda>b. b = 0) (sbh_reserved2 header) then Inl VRT_ERR_SB_CORRUPTION
      else Inr ())"

section \<open>The streams of a device\<close>

text \<open>The area has 65536 sectors of 512 bytes.\<close>

definition sb_area_bytes :: nat where
  "sb_area_bytes = 33554432"

definition per_sb_data_size :: nat where
  "per_sb_data_size = (sb_area_bytes - 2 * header_size) div 2"

definition get_superblock_data_range :: "nat \<Rightarrow> nat \<times> nat" where
  "get_superblock_data_range position =
     (let start = 2 * header_size + position * per_sb_data_size in (start, start + per_sb_data_size - 1))"

record sb_rdev =
  raw_sb_stream :: stream
  sb_data_ofs :: "nat list"
  sb_checksums :: "checksum_context list"
  sb_access :: stream_access

definition vrt_rdev_open_superblock_streams :: "(stream_access \<Rightarrow> errcode + stream) \<Rightarrow> bool \<Rightarrow> errcode + sb_rdev" where
  "vrt_rdev_open_superblock_streams open_raw local =
     (let access = (if local then STREAM_ACCESS_RW else STREAM_ACCESS_READ) in
      case open_raw access of
        Inl err \<Rightarrow> Inl err
      | Inr raw \<Rightarrow> Inr \<lparr> raw_sb_stream = raw, sb_data_ofs = map (fst \<circ> get_superblock_data_range) [0, 1],
          sb_checksums = [checksum_reset, checksum_reset], sb_access = access \<rparr>)"

definition sb_data_stream :: "sb_rdev \<Rightarrow> nat \<Rightarrow> stream" where
  "sb_data_stream rdev i =
     (let (start, end') = get_superblock_data_range i in
      Stream (Narrowed_Stream (raw_sb_stream rdev) start end' (sb_data_ofs rdev ! i)) (sb_access rdev))"

definition checksum_sb_stream :: "sb_rdev \<Rightarrow> nat \<Rightarrow> stream" where
  "checksum_sb_stream rdev i = Stream (Checksum_Stream (sb_data_stream rdev i) (sb_checksums rdev ! i)) (sb_access rdev)"

fun put_data :: "sb_rdev \<Rightarrow> nat \<Rightarrow> stream \<Rightarrow> sb_rdev" where
  "put_data rdev i (Stream (Narrowed_Stream raw start end' ofs) a) =
     rdev\<lparr>raw_sb_stream := raw, sb_data_ofs := (sb_data_ofs rdev)[i := ofs]\<rparr>"
| "put_data rdev i s = rdev"

fun put_checksum :: "sb_rdev \<Rightarrow> nat \<Rightarrow> stream \<Rightarrow> sb_rdev" where
  "put_checksum rdev i (Stream (Checksum_Stream data ck) a) =
     put_data (rdev\<lparr>sb_checksums := (sb_checksums rdev)[i := ck]\<rparr>) i data"
| "put_checksum rdev i s = rdev"

definition on_raw :: "(stream \<Rightarrow> 'a \<times> stream) \<Rightarrow> sb_rdev \<Rightarrow> 'a \<times> sb_rdev" where
  "on_raw f rdev = (let (r, raw) = f (raw_sb_stream rdev) in (r, rdev\<lparr>raw_sb_stream := raw\<rparr>))"

definition on_data :: "nat \<Rightarrow> (stream \<Rightarrow> 'a \<times> stream) \<Rightarrow> sb_rdev \<Rightarrow> 'a \<times> sb_rdev" where
  "on_data i f rdev = (let (r, s) = f (sb_data_stream rdev i) in (r, put_data rdev i s))"

definition on_checksum :: "nat \<Rightarrow> (stream \<Rightarrow> 'a \<times> stream) \<Rightarrow> sb_rdev \<Rightarrow> 'a \<times> sb_rdev" where
  "on_checksum i f rdev = (let (r, s) = f (checksum_sb_stream rdev i) in (r, put_checksum rdev i s))"

section \<open>Reading and writing headers\<close>

definition read_sb_headers :: "sb_rdev \<Rightarrow> (errcode + superblock_header list) \<times> sb_rdev" where
  "read_sb_headers rdev =
     (case on_raw stream_rewind rdev of
        (Inl err, rdev) \<Rightarrow> (Inl err, rdev)
      | (Inr _, rdev) \<Rightarrow> on_raw rdev_superblock_header_read_both rdev)"

definition write_sb_header :: "superblock_header \<Rightarrow> sb_rdev \<Rightarrow> (errcode + unit) \<times> sb_rdev" where
  "write_sb_header header rdev =
     (case on_raw (\<lambda>s. stream_seek s (int (unat (sbh_position header) * header_size)) STREAM_SEEK_FROM_BEGINNING) rdev of
        (Inl err, rdev) \<Rightarrow> (Inl err, rdev)
      | (Inr _, rdev) \<Rightarrow> on_raw (write_exact stream_write (header_bytes header)) rdev)"

definition initial_header :: "nat \<Rightarrow> superblock_header" where
  "initial_header i =
     (let (start, end') = get_superblock_data_range i in
      \<lparr> sbh_magic = SUPERBLOCK_HEADER_MAGIC, sbh_format = SUPERBLOCK_HEADER_FORMAT, sbh_position = of_nat i,
        sbh_reserved1 = 0, sbh_sb_version = 0, sbh_data_max_size = of_nat (end' - start + 1),
        sbh_data_offset = of_nat start, sbh_data_size = 0, sbh_checksum = 0, sbh_reserved2 = replicate 6 0 \<rparr>)"

definition vrt_rdev_create_superblocks :: "sb_rdev \<Rightarrow> (errcode + unit) \<times> sb_rdev" where
  "vrt_rdev_create_superblocks rdev =
     (case write_sb_header (initial_header 0) rdev of
        (Inl err, rdev) \<Rightarrow> (Inl err, rdev)
      | (Inr _, rdev) \<Rightarrow>
          (case write_sb_header (initial_header 1) rdev of
             (Inl err, rdev) \<Rightarrow> (Inl err, rdev)
           | (Inr _, rdev) \<Rightarrow> on_raw stream_flush rdev))"

section \<open>Writing a version\<close>

record superblock_write_op =
  wop_header :: superblock_header
  wop_new_sb_version :: "64 word"
  wop_stream :: nat

text \<open>The position to write: the first valid header that holds no version or not the old one.\<close>

definition may_write :: "superblock_header list \<Rightarrow> 64 word \<Rightarrow> nat \<Rightarrow> bool" where
  "may_write headers old_version i \<longleftrightarrow>
     check_sb_header (headers ! i) i = Inr () \<and>
     (sbh_sb_version (headers ! i) = 0 \<or> sbh_sb_version (headers ! i) \<noteq> old_version)"

definition vrt_rdev_begin_superblock_write ::
  "sb_rdev \<Rightarrow> 64 word \<Rightarrow> 64 word \<Rightarrow> (errcode + superblock_write_op) \<times> sb_rdev" where
  "vrt_rdev_begin_superblock_write rdev old_version new_version =
     (case read_sb_headers rdev of
        (Inl err, rdev) \<Rightarrow> (Inl err, rdev)
      | (Inr headers, rdev) \<Rightarrow>
          (case find (may_write headers old_version) [0, 1] of
             None \<Rightarrow> (Inl VRT_ERR_SB_CORRUPTION, rdev)
           | Some i \<Rightarrow>
               (case on_checksum i stream_rewind rdev of
                  (Inl err, rdev) \<Rightarrow> (Inl err, rdev)
                | (Inr _, rdev) \<Rightarrow>
                    (Inr \<lparr> wop_header = headers ! i, wop_new_sb_version = new_version, wop_stream = i \<rparr>, rdev))))"

definition vrt_rdev_end_superblock_write ::
  "sb_rdev \<Rightarrow> superblock_write_op \<Rightarrow> ((errcode + unit) \<times> sb_rdev) option" where
  "vrt_rdev_end_superblock_write rdev op = do {
     let s = checksum_sb_stream rdev (wop_stream op);
     size' \<leftarrow> checksum_stream_get_size s;
     ck \<leftarrow> checksum_stream_get_value s;
     let header = (wop_header op)\<lparr>sbh_sb_version := wop_new_sb_version op, sbh_data_size := of_nat size',
       sbh_checksum := ck\<rparr>;
     Some (case write_sb_header header rdev of
        (Inl err, rdev) \<Rightarrow> (Inl err, rdev)
      | (Inr _, rdev) \<Rightarrow> on_raw stream_flush rdev) }"

section \<open>Reading a version\<close>

text \<open>The loop over the data. A read that fails returns the result of the rewind, which is success.
  The value is what the function returns from inside the loop, if it does.\<close>

function checksum_loop :: "stream \<Rightarrow> nat \<Rightarrow> (errcode + unit) option \<times> stream" where
  "checksum_loop s remaining =
     (if remaining = 0 then (None, s)
      else let n = min 512 remaining in
        case stream_read s n of
          (Inl _, s) \<Rightarrow> (Some (Inr ()), s)
        | (Inr b, s) \<Rightarrow> if length b \<noteq> n then (Some (Inl EIO), s) else checksum_loop s (remaining - n))"
  by pat_completeness auto
termination
  by (relation "measure snd") auto

declare checksum_loop.simps [simp del]

definition check_sb_checksum :: "nat \<Rightarrow> 16 word \<Rightarrow> stream \<Rightarrow> ((errcode + unit) \<times> stream) option" where
  "check_sb_checksum size' expected_checksum s =
     (case stream_rewind s of
        (Inl err, s) \<Rightarrow> Some (Inl err, s)
      | (Inr _, s) \<Rightarrow>
          (case checksum_loop s size' of
             (Some r, s) \<Rightarrow> Some (r, s)
           | (None, s) \<Rightarrow> do {
               computed_checksum \<leftarrow> checksum_stream_get_value s;
               Some (if computed_checksum \<noteq> expected_checksum then (Inl VRT_ERR_SB_CHECKSUM, s) else stream_rewind s) }))"

record superblock_read_op =
  rop_header :: superblock_header
  rop_stream :: nat

text \<open>The loop over the positions from \<open>i\<close> on.\<close>

fun find_version :: "superblock_header list \<Rightarrow> 64 word \<Rightarrow> nat list \<Rightarrow> sb_rdev \<Rightarrow> (nat option \<times> sb_rdev) option" where
  "find_version headers version [] rdev = Some (None, rdev)"
| "find_version headers version (i # is) rdev =
     (let header = headers ! i in
      if check_sb_header header i \<noteq> Inr () then find_version headers version is rdev
      else case check_sb_checksum (unat (sbh_data_size header)) (sbh_checksum header) (checksum_sb_stream rdev i) of
             None \<Rightarrow> None
           | Some (r, s) \<Rightarrow>
               (let rdev = put_checksum rdev i s in
                if r \<noteq> Inr () \<or> sbh_sb_version header \<noteq> version then find_version headers version is rdev
                else Some (Some i, rdev)))"

definition vrt_rdev_begin_superblock_read ::
  "sb_rdev \<Rightarrow> 64 word \<Rightarrow> ((errcode + superblock_read_op) \<times> sb_rdev) option" where
  "vrt_rdev_begin_superblock_read rdev sb_version =
     (case read_sb_headers rdev of
        (Inl err, rdev) \<Rightarrow> Some (Inl err, rdev)
      | (Inr headers, rdev) \<Rightarrow>
          (case find_version headers sb_version [0, 1] rdev of
             None \<Rightarrow> None
           | Some (None, rdev) \<Rightarrow> Some (Inl VRT_ERR_SB_NOT_FOUND, rdev)
           | Some (Some i, rdev) \<Rightarrow>
               (let position = unat (sbh_position (headers ! i)) in
                Some (case on_data position stream_rewind rdev of
                  (Inl err, rdev) \<Rightarrow> (Inl err, rdev)
                | (Inr _, rdev) \<Rightarrow> (Inr \<lparr> rop_header = headers ! i, rop_stream = position \<rparr>, rdev)))))"

definition vrt_rdev_end_superblock_read :: "sb_rdev \<Rightarrow> superblock_read_op \<Rightarrow> (errcode + unit) \<times> sb_rdev" where
  "vrt_rdev_end_superblock_read rdev op =
     (case on_data (rop_stream op) stream_tell rdev of
        (sb_data_size, rdev) \<Rightarrow>
          (if unat (sbh_data_size (rop_header op)) \<noteq> sb_data_size then Inl VRT_ERR_SB_CORRUPTION else Inr (), rdev))"

end
