(* ===== verification/Vrt_Superblock_Protocol.thy ===== *)
theory Vrt_Superblock_Protocol
  imports Vrt_Superblock
begin

text \<open>
  What the two positions are for. \<open>holds c i v d\<close> says that position \<open>i\<close> of the area \<open>c\<close> holds the
  version \<open>v\<close> with the data \<open>d\<close>: a valid header and data with its size and its checksum. Writing a
  version leaves the old one in place until the header of the new one is written, at every
  moment, and then both are there. Reading finds a version exactly when a position holds it.
\<close>

section \<open>Headers\<close>

lemma length_header_bytes [simp]: "length (sbh_reserved2 h) = 6 \<Longrightarrow> length (header_bytes h) = header_size"
  by (simp add: header_bytes_def header_size_def)

lemma le16_inverse: "of_nat (of_le_bytes (le_bytes 2 (unat (x :: 16 word)))) = x"
proof -
  have "unat x < 256 ^ 2" using unsigned_less [of x] by simp
  then show ?thesis by (simp only: le_bytes_inverse of_nat_unat ucast_id)
qed

lemma header_round_trip: "length (sbh_reserved2 h) = 6 \<Longrightarrow> header_of_bytes (header_bytes h) = h"
  by (simp add: header_of_bytes_def header_bytes_def le16_inverse)

lemma header_reserved: "length bs = header_size \<Longrightarrow> length (sbh_reserved2 (header_of_bytes bs)) = 6"
  by (simp add: header_of_bytes_def header_size_def)

section \<open>The area\<close>

definition sb_start :: "nat \<Rightarrow> nat" where
  "sb_start i = fst (get_superblock_data_range i)"

lemma per_sb_data_size_eq: "per_sb_data_size = 16777160"
  by (simp add: per_sb_data_size_def sb_area_bytes_def header_size_def)

lemma sb_start_eq: "sb_start i = 112 + i * 16777160"
  by (simp add: sb_start_def get_superblock_data_range_def header_size_def per_sb_data_size_eq)

lemma data_range: "get_superblock_data_range i = (sb_start i, sb_start i + 16777159)"
  by (simp add: sb_start_eq get_superblock_data_range_def header_size_def per_sb_data_size_eq)

definition header_at :: "byte list \<Rightarrow> nat \<Rightarrow> superblock_header" where
  "header_at c i = header_of_bytes (take header_size (drop (i * header_size) c))"

definition holds :: "byte list \<Rightarrow> nat \<Rightarrow> 64 word \<Rightarrow> byte list \<Rightarrow> bool" where
  "holds c i version d \<longleftrightarrow>
     check_sb_header (header_at c i) i = Inr () \<and> sbh_sb_version (header_at c i) = version \<and>
     unat (sbh_data_size (header_at c i)) = length d \<and> length d \<le> per_sb_data_size \<and>
     take (length d) (drop (sb_start i) c) = d \<and> exa_checksum d = Some (sbh_checksum (header_at c i))"

text \<open>Both headers are valid and give their area its size.\<close>

definition formatted :: "byte list \<Rightarrow> bool" where
  "formatted c \<longleftrightarrow> (\<forall>i < 2. check_sb_header (header_at c i) i = Inr () \<and>
     sbh_data_max_size (header_at c i) = of_nat per_sb_data_size)"

lemma slice_overwrite:
  assumes "q + length bs \<le> length c" "p + n \<le> q \<or> q + length bs \<le> p"
  shows "take n (drop p (overwrite c q bs)) = take n (drop p c)"
  using assms(2)
proof
  assume le: "p + n \<le> q"
  then have "overwrite c q bs = take (p + n) c @ drop (p + n) (overwrite c q bs)"
    using assms(1) append_take_drop_id [of "p + n" "overwrite c q bs"] by (simp add: overwrite_def)
  then have "take n (drop p (overwrite c q bs)) = take n (drop p (take (p + n) c @ drop (p + n) (overwrite c q bs)))"
    by simp
  then show ?thesis using assms(1) le by (simp add: drop_take)
next
  assume "q + length bs \<le> p"
  then show ?thesis using assms(1) by (simp add: overwrite_def)
qed

lemma slice_written:
  "q + length bs \<le> length c \<Longrightarrow> take (length bs) (drop q (overwrite c q bs)) = bs"
  by (simp add: overwrite_def)

text \<open>Writing data in one area touches no header and not the other area; writing a header touches
  nothing else.\<close>

lemma write_data_elsewhere:
  assumes "i < 2" "j < 2" "x + length bs \<le> per_sb_data_size" "sb_area_bytes \<le> length c"
  shows "header_at (overwrite c (sb_start i + x) bs) j = header_at c j"
    and "i \<noteq> j \<Longrightarrow> n \<le> per_sb_data_size \<Longrightarrow>
      take n (drop (sb_start j) (overwrite c (sb_start i + x) bs)) = take n (drop (sb_start j) c)"
proof -
  have fits: "sb_start i + x + length bs \<le> length c"
    using assms by (auto simp: less_2_cases_iff sb_start_eq per_sb_data_size_eq sb_area_bytes_def)
  have "j * header_size + header_size \<le> sb_start i + x"
    using assms(2) by (auto simp: less_2_cases_iff header_size_def sb_start_eq)
  then show "header_at (overwrite c (sb_start i + x) bs) j = header_at c j"
    unfolding header_at_def by (subst slice_overwrite [OF fits]) simp_all
  show "take n (drop (sb_start j) (overwrite c (sb_start i + x) bs)) = take n (drop (sb_start j) c)"
    if "i \<noteq> j" "n \<le> per_sb_data_size"
    by (rule slice_overwrite [OF fits])
       (use that assms(1-3) in \<open>auto simp: less_2_cases_iff sb_start_eq per_sb_data_size_eq\<close>)
qed

lemma write_header_at:
  assumes h: "length (sbh_reserved2 h) = 6" and i: "i < 2" "j < 2" and c: "sb_area_bytes \<le> length c"
  shows "header_at (overwrite c (i * header_size) (header_bytes h)) j = (if i = j then h else header_at c j)"
    and "take n (drop (sb_start j) (overwrite c (i * header_size) (header_bytes h))) = take n (drop (sb_start j) c)"
proof -
  have fits: "i * header_size + length (header_bytes h) \<le> length c"
    using h i(1) c by (auto simp: less_2_cases_iff header_size_def sb_area_bytes_def)
  show "header_at (overwrite c (i * header_size) (header_bytes h)) j = (if i = j then h else header_at c j)"
  proof (cases "i = j")
    case True
    then show ?thesis using slice_written [OF fits] h by (simp add: header_at_def header_round_trip)
  next
    case False
    then have "j * header_size + header_size \<le> i * header_size \<or> i * header_size + length (header_bytes h) \<le> j * header_size"
      using i h by (auto simp: less_2_cases_iff)
    then show ?thesis using False unfolding header_at_def by (subst slice_overwrite [OF fits]) simp_all
  qed
  show "take n (drop (sb_start j) (overwrite c (i * header_size) (header_bytes h))) = take n (drop (sb_start j) c)"
    by (rule slice_overwrite [OF fits]) (use h i in \<open>auto simp: less_2_cases_iff header_size_def sb_start_eq\<close>)
qed

section \<open>Streams over the raw stream\<close>

lemma flush_law: "store_ok s \<Longrightarrow> \<exists>s'. stream_flush s = (Inr (), s') \<and> moved s (pos s) s'"
proof (induction s rule: measure_induct_rule [of stream_depth])
  case (less s)
  obtain c a where s: "s = Stream c a" by (cases s)
  show ?case
  proof (cases c)
    case (Stat_Stream base st)
    with s less.prems less.IH [of base] obtain b' where "stream_flush base = (Inr (), b')" "moved base (pos base) b'"
      by auto
    with s less.prems Stat_Stream show ?thesis by (auto simp: moved_def)
  next
    case (Narrowed_Stream base start end' ofs)
    with s less.prems less.IH [of base] obtain b' where "stream_flush base = (Inr (), b')" "moved base (pos base) b'"
      by auto
    with s less.prems Narrowed_Stream show ?thesis by (auto simp: moved_def)
  qed (use s less.prems in \<open>auto simp: moved_def\<close>)
qed

abbreviation window :: "stream \<Rightarrow> nat \<Rightarrow> nat \<Rightarrow> nat \<Rightarrow> stream" where
  "window raw start end' ofs \<equiv> Stream (Narrowed_Stream raw start end' ofs) STREAM_ACCESS_RW"

abbreviation summed :: "stream \<Rightarrow> checksum_context \<Rightarrow> stream" where
  "summed base ck \<equiv> Stream (Checksum_Stream base ck) STREAM_ACCESS_RW"

text \<open>Wherever a window was left, rewinding it puts it and its base at its start.\<close>

lemma rewind_window:
  assumes raw: "store_ok raw" and w: "start \<le> end'" "end' < length (content raw)"
  shows "\<exists>raw'. stream_rewind (window raw start end' ofs) = (Inr (), window raw' start end' start) \<and> moved raw start raw'"
proof -
  obtain raw' where raw': "stream_seek raw (int start) STREAM_SEEK_FROM_BEGINNING = (Inr (), raw')" "moved raw start raw'"
    using seek_law [OF raw, of start] w by auto
  have "start < 2 ^ 63" using w store_ok_size(1) [OF raw] by simp
  then have "u64 (int start) = start" "s64 start = int start" by (simp_all add: u64_id s64_id)
  then show ?thesis using raw' w by (simp add: stream_rewind_def seek_args_ok_def)
qed

lemma rewind_summed:
  assumes "store_ok raw" "start \<le> end'" "end' < length (content raw)"
  shows "\<exists>raw'. stream_rewind (summed (window raw start end' ofs) ck) =
    (Inr (), summed (window raw' start end' start) checksum_reset) \<and> moved raw start raw'"
  using rewind_window [OF assms, of ofs] by (auto simp: stream_rewind_def seek_args_ok_def)

lemma write_window:
  assumes ok: "store_ok (window raw start end' ofs)" and n: "b \<noteq> []" and fits: "ofs + length b \<le> end' + 1"
  shows "\<exists>raw'. stream_write (window raw start end' ofs) b = (Inr (length b), window raw' start end' (ofs + length b)) \<and>
    store_ok (window raw' start end' (ofs + length b)) \<and> content raw' = overwrite (content raw) ofs b"
proof -
  obtain raw' where "stream_write (window raw start end' ofs) b = (Inr (length b), window raw' start end' (ofs + length b))"
    "written (window raw start end' ofs) b (window raw' start end' (ofs + length b))"
    "content raw' = overwrite (content raw) ofs b"
    using narrowed_write [OF ok n fits write_law] by blast
  then show ?thesis unfolding written_def by blast
qed

lemma read_window:
  assumes ok: "store_ok (window raw start end' ofs)" and n: "n \<noteq> 0"
  shows "\<exists>raw'. stream_read (window raw start end' ofs) n =
      (Inr (take (window_size end' ofs n) (drop ofs (content raw))), window raw' start end' (ofs + window_size end' ofs n)) \<and>
    store_ok (window raw' start end' (ofs + window_size end' ofs n)) \<and> content raw' = content raw"
proof -
  obtain raw' where r: "stream_read (window raw start end' ofs) n =
      (Inr (take n (drop (ofs - start) (take (end' + 1 - start) (drop start (content raw))))),
       window raw' start end' (ofs + window_size end' ofs n))"
    "moved raw (ofs + window_size end' ofs n) raw'"
    "moved (window raw start end' ofs) (min (ofs - start + n) (end' + 1 - start))
      (window raw' start end' (ofs + window_size end' ofs n))"
    using narrowed_read [OF ok n read_law] by blast
  have "start \<le> ofs" "ofs \<le> end' + 1" "end' < length (content raw)" using ok by auto
  from window_read(1) [OF this n] r show ?thesis unfolding moved_def by auto
qed

lemma write_all_summed:
  "store_ok (window raw start end' ofs) \<Longrightarrow> ofs + length (concat bss) \<le> end' + 1 \<Longrightarrow>
   \<exists>raw'. write_all stream_write bss (summed (window raw start end' ofs) ck) =
     (Inr (), summed (window raw' start end' (ofs + length (concat bss))) (foldl checksum_feed ck bss)) \<and>
   store_ok (window raw' start end' (ofs + length (concat bss))) \<and>
   content raw' = overwrite (content raw) ofs (concat bss)"
proof (induction bss arbitrary: raw ofs ck)
  case Nil
  then show ?case by auto
next
  case (Cons b bss)
  show ?case
  proof (cases "b = []")
    case True
    then show ?thesis using Cons by (simp add: write_exact_def checksum_feed_def)
  next
    case False
    have fits: "ofs + length b \<le> end' + 1" using Cons.prems(2) by simp
    obtain raw1 where r1: "stream_write (window raw start end' ofs) b =
        (Inr (length b), window raw1 start end' (ofs + length b))"
      "store_ok (window raw1 start end' (ofs + length b))" "content raw1 = overwrite (content raw) ofs b"
      using write_window [OF Cons.prems(1) False fits] by blast
    obtain raw2 where r2: "write_all stream_write bss (summed (window raw1 start end' (ofs + length b)) (checksum_feed ck b)) =
        (Inr (), summed (window raw2 start end' (ofs + length b + length (concat bss)))
          (foldl checksum_feed (checksum_feed ck b) bss))"
      "store_ok (window raw2 start end' (ofs + length b + length (concat bss)))"
      "content raw2 = overwrite (content raw1) (ofs + length b) (concat bss)"
      using Cons.IH [OF r1(2)] Cons.prems(2) by fastforce
    have len: "ofs + length b \<le> length (content raw)" using Cons.prems fits by simp
    have "stream_write (summed (window raw start end' ofs) ck) b =
        (Inr (length b), summed (window raw1 start end' (ofs + length b)) (checksum_feed ck b))"
      using r1(1) False by simp
    then show ?thesis using r2 r1(3) len
      by (auto simp: write_exact_def overwrite_append add.assoc)
  qed
qed

lemma summed_read:
  "n \<noteq> 0 \<Longrightarrow> stream_read base n = (Inr b, base') \<Longrightarrow>
   stream_read (summed base ck) n = (Inr b, summed base' (checksum_feed ck b))"
  by simp

lemma read_summed:
  assumes ok: "store_ok (window raw start end' ofs)" and n: "n \<noteq> 0"
  shows "\<exists>raw'. stream_read (summed (window raw start end' ofs) ck) n =
      (Inr (take (window_size end' ofs n) (drop ofs (content raw))),
       summed (window raw' start end' (ofs + window_size end' ofs n))
         (checksum_feed ck (take (window_size end' ofs n) (drop ofs (content raw))))) \<and>
    store_ok (window raw' start end' (ofs + window_size end' ofs n)) \<and> content raw' = content raw"
  using read_window [OF ok n] summed_read [OF n] by blast

text \<open>One turn of the loop that checks the data: a whole piece, or a read that stops at the end of
  the window.\<close>

lemma checksum_loop_piece:
  assumes ok: "store_ok (window raw start end' ofs)" and m: "m \<noteq> 0" and n: "n = min 512 m"
    and fits: "ofs + n \<le> end' + 1"
  shows "\<exists>raw'. checksum_loop (summed (window raw start end' ofs) ck) m =
      checksum_loop (summed (window raw' start end' (ofs + n)) (checksum_feed ck (take n (drop ofs (content raw))))) (m - n) \<and>
    store_ok (window raw' start end' (ofs + n)) \<and> content raw' = content raw"
proof -
  have w: "window_size end' ofs n = n" using fits by (auto simp: window_size_def)
  have "n \<noteq> 0" using m n by simp
  then obtain raw' where r: "stream_read (summed (window raw start end' ofs) ck) n =
      (Inr (take n (drop ofs (content raw))), summed (window raw' start end' (ofs + n))
         (checksum_feed ck (take n (drop ofs (content raw)))))"
    "store_ok (window raw' start end' (ofs + n))" "content raw' = content raw"
    using read_summed [OF ok, of n ck] w by auto
  have len: "length (take n (drop ofs (content raw))) = n" using ok fits by auto
  have "checksum_loop (summed (window raw start end' ofs) ck) m =
      checksum_loop (summed (window raw' start end' (ofs + n)) (checksum_feed ck (take n (drop ofs (content raw))))) (m - n)"
    using r(1) m len by (subst checksum_loop.simps) (simp add: Let_def n [symmetric])
  then show ?thesis using r(2,3) by blast
qed

lemma checksum_loop_short:
  assumes ok: "store_ok (window raw start end' ofs)" and m: "m \<noteq> 0" and n: "n = min 512 m"
    and short: "ofs + n > end' + 1"
  shows "\<exists>raw' ofs' ck'. checksum_loop (summed (window raw start end' ofs) ck) m =
      (Some (Inl EIO), summed (window raw' start end' ofs') ck') \<and> store_ok raw' \<and> content raw' = content raw"
proof -
  let ?w = "window_size end' ofs n"
  have n0: "n \<noteq> 0" using m n by simp
  have w: "?w < n" using short ok by (auto simp: window_size_def)
  obtain raw' where r: "stream_read (summed (window raw start end' ofs) ck) n =
      (Inr (take ?w (drop ofs (content raw))), summed (window raw' start end' (ofs + ?w))
         (checksum_feed ck (take ?w (drop ofs (content raw)))))"
    "store_ok (window raw' start end' (ofs + ?w))" "content raw' = content raw"
    using read_summed [OF ok n0] by blast
  have "length (take ?w (drop ofs (content raw))) \<noteq> n" using w by simp
  then have "checksum_loop (summed (window raw start end' ofs) ck) m =
      (Some (Inl EIO), summed (window raw' start end' (ofs + ?w)) (checksum_feed ck (take ?w (drop ofs (content raw)))))"
    using r(1) m by (subst checksum_loop.simps) (simp add: Let_def n [symmetric])
  then show ?thesis using r(2,3) by auto
qed

lemma checksum_loop_whole:
  "store_ok (window raw start end' ofs) \<Longrightarrow> ofs + m \<le> end' + 1 \<Longrightarrow>
   \<exists>raw' bss. checksum_loop (summed (window raw start end' ofs) ck) m =
     (None, summed (window raw' start end' (ofs + m)) (foldl checksum_feed ck bss)) \<and>
   concat bss = take m (drop ofs (content raw)) \<and> store_ok (window raw' start end' (ofs + m)) \<and> content raw' = content raw"
proof (induction m arbitrary: raw ofs ck rule: less_induct)
  case (less m)
  show ?case
  proof (cases "m = 0")
    case True
    then show ?thesis using less.prems by (intro exI [of _ raw] exI [of _ "[]"]) (simp add: checksum_loop.simps)
  next
    case False
    define n where "n = min 512 m"
    have n: "0 < n" "n \<le> m" using False by (simp_all add: n_def)
    let ?b = "take n (drop ofs (content raw))"
    obtain raw1 where r1: "checksum_loop (summed (window raw start end' ofs) ck) m =
        checksum_loop (summed (window raw1 start end' (ofs + n)) (checksum_feed ck ?b)) (m - n)"
      "store_ok (window raw1 start end' (ofs + n))" "content raw1 = content raw"
      using checksum_loop_piece [OF less.prems(1) False n_def] less.prems(2) n by (metis add_le_mono le_refl le_trans)
    have m: "m - n < m" "ofs + n + (m - n) = ofs + m" using n by simp_all
    obtain raw2 bss where r2: "checksum_loop (summed (window raw1 start end' (ofs + n)) (checksum_feed ck ?b)) (m - n) =
        (None, summed (window raw2 start end' (ofs + m)) (foldl checksum_feed (checksum_feed ck ?b) bss))"
      "concat bss = take (m - n) (drop (ofs + n) (content raw))"
      "store_ok (window raw2 start end' (ofs + m))" "content raw2 = content raw"
      using less.IH [OF m(1) r1(2)] less.prems(2) m(2) r1(3) by fastforce
    have "take m (drop ofs (content raw)) = ?b @ take (m - n) (drop (ofs + n) (content raw))"
      using take_add [of n "m - n" "drop ofs (content raw)"] n(2) by (simp add: add.commute)
    then show ?thesis using r1(1) r2 by (intro exI [of _ raw2] exI [of _ "?b # bss"]) simp
  qed
qed

lemma checksum_loop_beyond:
  "store_ok (window raw start end' ofs) \<Longrightarrow> ofs + m > end' + 1 \<Longrightarrow>
   \<exists>raw' ofs' ck'. checksum_loop (summed (window raw start end' ofs) ck) m =
     (Some (Inl EIO), summed (window raw' start end' ofs') ck') \<and> store_ok raw' \<and> content raw' = content raw"
proof (induction m arbitrary: raw ofs ck rule: less_induct)
  case (less m)
  have m0: "m \<noteq> 0" using less.prems by auto
  define n where "n = min 512 m"
  show ?case
  proof (cases "ofs + n \<le> end' + 1")
    case True
    have n: "0 < n" "n \<le> m" using m0 by (simp_all add: n_def)
    obtain raw1 ck1 where r1: "checksum_loop (summed (window raw start end' ofs) ck) m =
        checksum_loop (summed (window raw1 start end' (ofs + n)) ck1) (m - n)"
      "store_ok (window raw1 start end' (ofs + n))" "content raw1 = content raw"
      using checksum_loop_piece [OF less.prems(1) m0 n_def True] by blast
    have "m - n < m" "end' + 1 < ofs + n + (m - n)" using n less.prems(2) by simp_all
    from less.IH [OF this(1) r1(2) this(2)] r1(1,3) show ?thesis by simp
  next
    case False
    then show ?thesis using checksum_loop_short [OF less.prems(1) m0 n_def] by simp
  qed
qed

section \<open>Operations on a device\<close>

definition area :: "sb_rdev \<Rightarrow> byte list" where
  "area rdev = content (raw_sb_stream rdev)"

definition sb_ok :: "sb_rdev \<Rightarrow> bool" where
  "sb_ok rdev \<longleftrightarrow> store_ok (raw_sb_stream rdev) \<and> sb_access rdev = STREAM_ACCESS_RW \<and>
     length (sb_data_ofs rdev) = 2 \<and> length (sb_checksums rdev) = 2 \<and> sb_area_bytes \<le> length (area rdev)"

lemma sb_ok_raw:
  "sb_ok rdev \<Longrightarrow> store_ok raw \<Longrightarrow> content raw = area rdev \<Longrightarrow>
   sb_ok (rdev\<lparr>raw_sb_stream := raw\<rparr>) \<and> area (rdev\<lparr>raw_sb_stream := raw\<rparr>) = area rdev"
  by (simp add: sb_ok_def area_def)

lemma read_sb_headers_ok:
  assumes ok: "sb_ok rdev"
  shows "\<exists>raw'. read_sb_headers rdev =
      (Inr [header_at (area rdev) 0, header_at (area rdev) 1], rdev\<lparr>raw_sb_stream := raw'\<rparr>) \<and>
    store_ok raw' \<and> content raw' = area rdev"
proof -
  let ?c = "area rdev"
  have raw: "store_ok (raw_sb_stream rdev)" and len: "112 \<le> length ?c"
    using ok by (simp_all add: sb_ok_def sb_area_bytes_def)
  have ne: "content (raw_sb_stream rdev) \<noteq> []" using len by (auto simp: area_def)
  obtain r1 where r1: "stream_rewind (raw_sb_stream rdev) = (Inr (), r1)" "moved (raw_sb_stream rdev) 0 r1"
    using seek_law [OF raw, of 0, simplified] ne by (auto simp: stream_rewind_def)
  have c1: "store_ok r1" "content r1 = ?c" "pos r1 = 0" using r1(2) by (simp_all add: moved_def area_def)
  obtain r2 where r2: "stream_read r1 112 = (Inr (take 112 ?c), r2)" "moved r1 112 r2"
    using read_law [OF c1(1), of 112] c1(2,3) len by auto
  have "rdev_superblock_header_read_both r1 = (Inr [header_at ?c 0, header_at ?c 1], r2)"
    using r2(1) len by (simp add: rdev_superblock_header_read_both_def read_exact_def header_size_def header_at_def drop_take)
  then show ?thesis using r1(1) r2(2) c1(2)
    by (intro exI [of _ r2]) (simp add: read_sb_headers_def on_raw_def moved_def)
qed

lemma write_sb_header_ok:
  assumes ok: "sb_ok rdev" and h: "length (sbh_reserved2 h) = 6" and i: "unat (sbh_position h) = i" "i < 2"
  shows "\<exists>raw'. write_sb_header h rdev = (Inr (), rdev\<lparr>raw_sb_stream := raw'\<rparr>) \<and> store_ok raw' \<and>
    content raw' = overwrite (area rdev) (i * header_size) (header_bytes h)"
proof -
  have raw: "store_ok (raw_sb_stream rdev)" and len: "112 \<le> length (area rdev)"
    using ok by (simp_all add: sb_ok_def sb_area_bytes_def)
  have fits: "i * header_size + header_size \<le> 112" using i(2) by (auto simp: less_2_cases_iff header_size_def)
  have p: "i * header_size < length (content (raw_sb_stream rdev))"
    using fits len by (simp add: area_def header_size_def)
  obtain r1 where r1: "stream_seek (raw_sb_stream rdev) (int (i * header_size)) STREAM_SEEK_FROM_BEGINNING = (Inr (), r1)"
    "moved (raw_sb_stream rdev) (i * header_size) r1" using seek_law [OF raw p] by blast
  have c1: "store_ok r1" "content r1 = area rdev" "pos r1 = i * header_size" using r1(2) by (simp_all add: moved_def area_def)
  obtain r2 where r2: "write_exact stream_write (header_bytes h) r1 = (Inr (), r2)" "store_ok r2"
    "content r2 = overwrite (area rdev) (i * header_size) (header_bytes h)"
    using store.write_exact_ok [OF c1(1), of "header_bytes h"] c1 h fits len by auto
  have "write_sb_header h rdev = (Inr (), rdev\<lparr>raw_sb_stream := r2\<rparr>)"
    using r1(1) r2(1) i(1) by (simp add: write_sb_header_def on_raw_def del: of_nat_mult)
  then show ?thesis using r2(2,3) by blast
qed

lemma flush_raw_ok:
  assumes "sb_ok rdev"
  shows "\<exists>raw'. on_raw stream_flush rdev = (Inr (), rdev\<lparr>raw_sb_stream := raw'\<rparr>) \<and> store_ok raw' \<and> content raw' = area rdev"
  using flush_law [of "raw_sb_stream rdev"] assms by (auto simp: on_raw_def sb_ok_def moved_def area_def)

text \<open>A device whose stream number \<open>i\<close> stands at \<open>x\<close> in its area.\<close>

definition at_data :: "sb_rdev \<Rightarrow> nat \<Rightarrow> nat \<Rightarrow> bool" where
  "at_data rdev i x \<longleftrightarrow> sb_ok rdev \<and> sb_data_ofs rdev ! i = sb_start i + x \<and> store_ok (sb_data_stream rdev i)"

lemma streams_eq:
  assumes "sb_ok rdev"
  shows "sb_data_stream rdev i = window (raw_sb_stream rdev) (sb_start i) (sb_start i + 16777159) (sb_data_ofs rdev ! i)"
    and "checksum_sb_stream rdev i = summed (window (raw_sb_stream rdev) (sb_start i) (sb_start i + 16777159)
      (sb_data_ofs rdev ! i)) (sb_checksums rdev ! i)"
  using assms by (simp_all add: sb_data_stream_def checksum_sb_stream_def data_range sb_ok_def)

lemma window_fits: "sb_ok rdev \<Longrightarrow> i < 2 \<Longrightarrow> sb_start i + 16777159 < length (content (raw_sb_stream rdev))"
  by (auto simp: sb_ok_def area_def sb_start_eq sb_area_bytes_def less_2_cases_iff)

lemma put_checksum_ok:
  assumes ok: "sb_ok rdev" and i: "i < 2" and raw: "store_ok raw" "length (content raw) = length (area rdev)"
    and rdev': "rdev' = put_checksum rdev i (summed (window raw start end' ofs) ck)"
  shows "sb_ok rdev'" and "area rdev' = content raw" and "sb_checksums rdev' ! i = ck" and "sb_data_ofs rdev' ! i = ofs"
    and "raw_sb_stream rdev' = raw"
  using assms by (simp_all add: sb_ok_def area_def)

lemma rewind_checksum_ok:
  assumes ok: "sb_ok rdev" and i: "i < 2"
  shows "\<exists>rdev'. on_checksum i stream_rewind rdev = (Inr (), rdev') \<and> at_data rdev' i 0 \<and> area rdev' = area rdev \<and>
    sb_checksums rdev' ! i = checksum_reset"
proof -
  have raw: "store_ok (raw_sb_stream rdev)" using ok by (simp add: sb_ok_def)
  obtain raw' where r: "stream_rewind (checksum_sb_stream rdev i) =
      (Inr (), summed (window raw' (sb_start i) (sb_start i + 16777159) (sb_start i)) checksum_reset)"
    "moved (raw_sb_stream rdev) (sb_start i) raw'"
    using rewind_summed [OF raw le_add1 window_fits [OF ok i]] unfolding streams_eq(2) [OF ok] by blast
  define rdev' where "rdev' = put_checksum rdev i (summed (window raw' (sb_start i) (sb_start i + 16777159) (sb_start i)) checksum_reset)"
  have raw': "store_ok raw'" "length (content raw') = length (area rdev)" "content raw' = area rdev"
    using r(2) by (simp_all add: moved_def area_def)
  note P = put_checksum_ok [OF ok i raw'(1,2) rdev'_def]
  have "at_data rdev' i 0"
    using P raw'(1) window_fits [OF P(1) i] by (simp add: at_data_def streams_eq(1) [OF P(1)])
  then show ?thesis using r(1) P(2,3) raw'(3) by (auto simp: on_checksum_def rdev'_def)
qed

lemma write_data_ok:
  assumes at: "at_data rdev i x" and i: "i < 2" and fits: "x + length (concat bss) \<le> per_sb_data_size"
  shows "\<exists>rdev'. on_checksum i (write_all stream_write bss) rdev = (Inr (), rdev') \<and>
    at_data rdev' i (x + length (concat bss)) \<and> area rdev' = overwrite (area rdev) (sb_start i + x) (concat bss) \<and>
    sb_checksums rdev' ! i = foldl checksum_feed (sb_checksums rdev ! i) bss"
proof -
  have ok: "sb_ok rdev" and ofs: "sb_data_ofs rdev ! i = sb_start i + x" using at by (simp_all add: at_data_def)
  have w: "store_ok (window (raw_sb_stream rdev) (sb_start i) (sb_start i + 16777159) (sb_start i + x))"
    using at streams_eq(1) [OF ok, of i] ofs by (simp add: at_data_def)
  have le: "sb_start i + x + length (concat bss) \<le> sb_start i + 16777159 + 1" using fits by (simp add: per_sb_data_size_eq)
  let ?e = "sb_start i + x + length (concat bss)" and ?ck = "foldl checksum_feed (sb_checksums rdev ! i) bss"
  obtain raw' where r: "write_all stream_write bss (checksum_sb_stream rdev i) =
      (Inr (), summed (window raw' (sb_start i) (sb_start i + 16777159) ?e) ?ck)"
    "store_ok (window raw' (sb_start i) (sb_start i + 16777159) ?e)"
    "content raw' = overwrite (area rdev) (sb_start i + x) (concat bss)"
    using write_all_summed [OF w le] unfolding streams_eq(2) [OF ok] ofs area_def by blast
  have fit: "sb_start i + x + length (concat bss) \<le> length (area rdev)"
    using le window_fits [OF ok i] by (simp add: area_def)
  define rdev' where "rdev' = put_checksum rdev i (summed (window raw' (sb_start i) (sb_start i + 16777159) ?e) ?ck)"
  have raw': "store_ok raw'" "length (content raw') = length (area rdev)" using r(2,3) fit by simp_all
  note P = put_checksum_ok [OF ok i raw' rdev'_def]
  have "at_data rdev' i (x + length (concat bss))"
    unfolding at_data_def streams_eq(1) [OF P(1)] P(4,5) using P(1) r(2) by (simp add: add.assoc)
  moreover have "on_checksum i (write_all stream_write bss) rdev = (Inr (), rdev')"
    using r(1) by (simp add: on_checksum_def rdev'_def)
  moreover have "area rdev' = overwrite (area rdev) (sb_start i + x) (concat bss)" using P(2) r(3) by simp
  ultimately show ?thesis using P(3) by (intro exI [of _ rdev'] conjI) assumption+
qed

text \<open>The check of a position: it succeeds exactly when the data fit in the area and have the
  expected checksum, and leaves the area as it was.\<close>

lemma check_sb_checksum_fits:
  assumes raw: "store_ok raw" and w: "start \<le> end'" "end' < length (content raw)" and le: "start + n \<le> end' + 1"
  shows "\<exists>raw' ofs' ck'. check_sb_checksum n ck (summed (window raw start end' ofs) k) =
      Some (if exa_checksum (take n (drop start (content raw))) = Some ck then Inr () else Inl VRT_ERR_SB_CHECKSUM,
        summed (window raw' start end' ofs') ck') \<and> store_ok raw' \<and> content raw' = content raw"
proof -
  let ?d = "take n (drop start (content raw))"
  obtain r1 where r1: "stream_rewind (summed (window raw start end' ofs) k) = (Inr (), summed (window r1 start end' start) checksum_reset)"
    "moved raw start r1" using rewind_summed [OF raw w] by blast
  have w1: "store_ok (window r1 start end' start)" "content r1 = content raw" using r1(2) w by (simp_all add: moved_def)
  obtain r2 bss where r2: "checksum_loop (summed (window r1 start end' start) checksum_reset) n =
      (None, summed (window r2 start end' (start + n)) (foldl checksum_feed checksum_reset bss))"
    "concat bss = ?d" "store_ok (window r2 start end' (start + n))" "content r2 = content raw"
    using checksum_loop_whole [OF w1(1) le, of checksum_reset] unfolding w1(2) by blast
  have v: "checksum_get_value (foldl checksum_feed checksum_reset bss) = exa_checksum ?d"
    using get_value_represents [OF represents_feeds [OF represents_reset, of bss]] r2(2) by (simp add: exa_checksum_eq)
  have raw2: "store_ok r2" "end' < length (content r2)" using r2(3) by simp_all
  obtain r3 where r3: "stream_rewind (summed (window r2 start end' (start + n)) (foldl checksum_feed checksum_reset bss)) =
      (Inr (), summed (window r3 start end' start) checksum_reset)" "moved r2 start r3"
    using rewind_summed [OF raw2(1) w(1) raw2(2)] by blast
  have c3: "store_ok r3" "content r3 = content raw" using r3(2) r2(4) by (simp_all add: moved_def)
  obtain x where x: "exa_checksum ?d = Some x" using exa_checksum_eq by blast
  show ?thesis
  proof (cases "x = ck")
    case True
    then have "check_sb_checksum n ck (summed (window raw start end' ofs) k) =
        Some (Inr (), summed (window r3 start end' start) checksum_reset)"
      using r1(1) r2(1) r3(1) v x by (simp add: check_sb_checksum_def)
    then show ?thesis using c3 x True by auto
  next
    case False
    then have "check_sb_checksum n ck (summed (window raw start end' ofs) k) =
        Some (Inl VRT_ERR_SB_CHECKSUM, summed (window r2 start end' (start + n)) (foldl checksum_feed checksum_reset bss))"
      using r1(1) r2(1) v x by (simp add: check_sb_checksum_def)
    then show ?thesis using raw2(1) r2(4) x False by auto
  qed
qed

lemma check_sb_checksum_beyond:
  assumes raw: "store_ok raw" and w: "start \<le> end'" "end' < length (content raw)" and gt: "start + n > end' + 1"
  shows "\<exists>raw' ofs' ck'. check_sb_checksum n ck (summed (window raw start end' ofs) k) =
      Some (Inl EIO, summed (window raw' start end' ofs') ck') \<and> store_ok raw' \<and> content raw' = content raw"
proof -
  obtain r1 where r1: "stream_rewind (summed (window raw start end' ofs) k) = (Inr (), summed (window r1 start end' start) checksum_reset)"
    "moved raw start r1" using rewind_summed [OF raw w] by blast
  have w1: "store_ok (window r1 start end' start)" "content r1 = content raw" using r1(2) w by (simp_all add: moved_def)
  obtain r2 ofs' k' where r2: "checksum_loop (summed (window r1 start end' start) checksum_reset) n =
      (Some (Inl EIO), summed (window r2 start end' ofs') k')" "store_ok r2" "content r2 = content raw"
    using checksum_loop_beyond [OF w1(1) gt, of checksum_reset] unfolding w1(2) by blast
  have "check_sb_checksum n ck (summed (window raw start end' ofs) k) = Some (Inl EIO, summed (window r2 start end' ofs') k')"
    using r1(1) r2(1) by (simp add: check_sb_checksum_def)
  then show ?thesis using r2(2,3) by blast
qed

lemma check_sb_checksum_ok:
  assumes ok: "sb_ok rdev" and i: "i < 2"
  shows "\<exists>r s. check_sb_checksum n ck (checksum_sb_stream rdev i) = Some (r, s) \<and>
    sb_ok (put_checksum rdev i s) \<and> area (put_checksum rdev i s) = area rdev \<and>
    (r = Inr () \<longleftrightarrow> n \<le> per_sb_data_size \<and> exa_checksum (take n (drop (sb_start i) (area rdev))) = Some ck)"
proof -
  let ?s = "sb_start i" and ?e = "sb_start i + 16777159"
  let ?good = "n \<le> per_sb_data_size \<and> exa_checksum (take n (drop (sb_start i) (area rdev))) = Some ck"
  have raw: "store_ok (raw_sb_stream rdev)" using ok by (simp add: sb_ok_def)
  note w = le_add1 [of ?s 16777159] window_fits [OF ok i]
  have "\<exists>r raw' ofs' ck'. check_sb_checksum n ck (checksum_sb_stream rdev i) = Some (r, summed (window raw' ?s ?e ofs') ck') \<and>
      store_ok raw' \<and> content raw' = area rdev \<and> (r = Inr () \<longleftrightarrow> ?good)"
  proof (cases "n \<le> per_sb_data_size")
    case True
    then have "?s + n \<le> ?e + 1" by (simp add: per_sb_data_size_eq)
    from check_sb_checksum_fits [OF raw w this, of ck "sb_data_ofs rdev ! i" "sb_checksums rdev ! i"] True
    show ?thesis unfolding streams_eq(2) [OF ok] area_def by fastforce
  next
    case False
    then have "?s + n > ?e + 1" by (simp add: per_sb_data_size_eq)
    from check_sb_checksum_beyond [OF raw w this, of ck "sb_data_ofs rdev ! i" "sb_checksums rdev ! i"] False
    show ?thesis unfolding streams_eq(2) [OF ok] area_def by fastforce
  qed
  then obtain r raw' ofs' ck' where r: "check_sb_checksum n ck (checksum_sb_stream rdev i) = Some (r, summed (window raw' ?s ?e ofs') ck')"
    "store_ok raw'" "content raw' = area rdev" "r = Inr () \<longleftrightarrow> ?good" by blast
  have "length (content raw') = length (area rdev)" using r(3) by simp
  note P = put_checksum_ok(1,2) [OF ok i r(2) this refl]
  show ?thesis
    by (intro exI conjI, rule r(1), rule P(1), rule trans [OF P(2) r(3)], rule r(4))
qed

section \<open>Writing a version\<close>

text \<open>The header that ends a write.\<close>

definition new_header :: "superblock_header \<Rightarrow> 64 word \<Rightarrow> byte list \<Rightarrow> superblock_header" where
  "new_header h version d = h\<lparr>sbh_sb_version := version, sbh_data_size := of_nat (length d), sbh_checksum := checksum_value d\<rparr>"

lemma begin_write_ok:
  assumes ok: "sb_ok rdev"
    and find: "find (may_write [header_at (area rdev) 0, header_at (area rdev) 1] old) [0, 1] = Some i"
  shows "i < 2 \<and> (\<exists>rdev'. vrt_rdev_begin_superblock_write rdev old new =
      (Inr \<lparr> wop_header = header_at (area rdev) i, wop_new_sb_version = new, wop_stream = i \<rparr>, rdev') \<and>
    at_data rdev' i 0 \<and> area rdev' = area rdev \<and> sb_checksums rdev' ! i = checksum_reset)"
proof -
  have i: "i < 2" using find by (auto split: if_splits)
  then have nth: "[header_at (area rdev) 0, header_at (area rdev) 1] ! i = header_at (area rdev) i"
    by (auto simp: less_2_cases_iff)
  obtain raw1 where r1: "read_sb_headers rdev = (Inr [header_at (area rdev) 0, header_at (area rdev) 1], rdev\<lparr>raw_sb_stream := raw1\<rparr>)"
    "store_ok raw1" "content raw1 = area rdev" using read_sb_headers_ok [OF ok] by blast
  note ok1 = sb_ok_raw [OF ok r1(2,3)]
  obtain rdev' where r2: "on_checksum i stream_rewind (rdev\<lparr>raw_sb_stream := raw1\<rparr>) = (Inr (), rdev')"
    "at_data rdev' i 0" "area rdev' = area rdev" "sb_checksums rdev' ! i = checksum_reset"
    using rewind_checksum_ok [OF _ i, of "rdev\<lparr>raw_sb_stream := raw1\<rparr>"] ok1 by auto
  have "vrt_rdev_begin_superblock_write rdev old new =
      (Inr \<lparr> wop_header = header_at (area rdev) i, wop_new_sb_version = new, wop_stream = i \<rparr>, rdev')"
    using r1(1) r2(1) find nth by (simp add: vrt_rdev_begin_superblock_write_def)
  then show ?thesis using i r2 by blast
qed

lemma end_write_ok:
  assumes at: "at_data rdev i x" and i: "i < 2" and ck: "sb_checksums rdev ! i = foldl checksum_feed checksum_reset bss"
    and h: "length (sbh_reserved2 h) = 6" "sbh_position h = of_nat i"
  shows "\<exists>rdev'. vrt_rdev_end_superblock_write rdev \<lparr> wop_header = h, wop_new_sb_version = new, wop_stream = i \<rparr> =
      Some (Inr (), rdev') \<and> sb_ok rdev' \<and>
    area rdev' = overwrite (area rdev) (i * header_size) (header_bytes (new_header h new (concat bss)))"
proof -
  have ok: "sb_ok rdev" using at by (simp add: at_data_def)
  let ?h = "new_header h new (concat bss)"
  have rep: "represents (foldl checksum_feed checksum_reset bss) (concat bss)"
    using represents_feeds [OF represents_reset, of bss] by simp
  have s: "checksum_stream_get_size (checksum_sb_stream rdev i) = Some (length (concat bss))"
    "checksum_stream_get_value (checksum_sb_stream rdev i) = Some (checksum_value (concat bss))"
    using rep get_value_represents [OF rep] ck
    by (simp_all add: checksum_sb_stream_def checksum_get_size_def represents_def)
  have h': "length (sbh_reserved2 ?h) = 6" "unat (sbh_position ?h) = i"
    using h i by (auto simp: new_header_def less_2_cases_iff)
  obtain raw1 where r1: "write_sb_header ?h rdev = (Inr (), rdev\<lparr>raw_sb_stream := raw1\<rparr>)" "store_ok raw1"
    "content raw1 = overwrite (area rdev) (i * header_size) (header_bytes ?h)"
    using write_sb_header_ok [OF ok h' i] by blast
  have fits: "i * header_size + length (header_bytes ?h) \<le> length (area rdev)"
    using ok h'(1) i by (auto simp: sb_ok_def sb_area_bytes_def header_size_def less_2_cases_iff)
  let ?rdev = "rdev\<lparr>raw_sb_stream := raw1\<rparr>"
  have ok1: "sb_ok ?rdev" "area ?rdev = overwrite (area rdev) (i * header_size) (header_bytes ?h)"
    using ok r1(2,3) fits by (simp_all add: sb_ok_def area_def)
  obtain raw2 where r2: "on_raw stream_flush ?rdev = (Inr (), ?rdev\<lparr>raw_sb_stream := raw2\<rparr>)" "store_ok raw2" "content raw2 = area ?rdev"
    using flush_raw_ok [OF ok1(1)] by blast
  have "vrt_rdev_end_superblock_write rdev \<lparr> wop_header = h, wop_new_sb_version = new, wop_stream = i \<rparr> =
      Some (Inr (), ?rdev\<lparr>raw_sb_stream := raw2\<rparr>)"
    using s r1(1) r2(1) by (simp add: vrt_rdev_end_superblock_write_def new_header_def)
  then show ?thesis using sb_ok_raw [OF ok1(1) r2(2,3)] ok1(2) by auto
qed

text \<open>What the writes of a version do to the area.\<close>

lemma holds_other_data:
  assumes "holds c p v d" "p < 2" "i < 2" "i \<noteq> p" "x + length bs \<le> per_sb_data_size" "sb_area_bytes \<le> length c"
  shows "holds (overwrite c (sb_start i + x) bs) p v d"
  using assms(1) write_data_elsewhere [OF assms(3,2,5,6)] assms(4) by (simp add: holds_def)

lemma holds_other_header:
  assumes "holds c p v d" "p < 2" "i < 2" "i \<noteq> p" "length (sbh_reserved2 h) = 6" "sb_area_bytes \<le> length c"
  shows "holds (overwrite c (i * header_size) (header_bytes h)) p v d"
  using assms(1) write_header_at [OF assms(5,3,2,6)] assms(4) by (simp add: holds_def)

lemma header_at_reserved:
  "sb_area_bytes \<le> length c \<Longrightarrow> i < 2 \<Longrightarrow> length (sbh_reserved2 (header_at c i)) = 6"
  unfolding header_at_def by (intro header_reserved) (auto simp: header_size_def sb_area_bytes_def less_2_cases_iff)

lemma header_position: "check_sb_header h i = Inr () \<Longrightarrow> sbh_position h = of_nat i"
  by (auto simp: check_sb_header_def split: if_splits)

lemma new_header_check:
  assumes "check_sb_header h i = Inr ()" "sbh_data_max_size h = of_nat per_sb_data_size" "length d \<le> per_sb_data_size"
  shows "check_sb_header (new_header h v d) i = Inr ()" and "unat (sbh_data_size (new_header h v d)) = length d"
proof -
  have len: "unat (of_nat (length d) :: 64 word) = length d"
    using assms(3) by (simp add: unat_of_nat per_sb_data_size_eq)
  then show "unat (sbh_data_size (new_header h v d)) = length d" by (simp add: new_header_def)
  have "(of_nat (length d) :: 64 word) \<le> of_nat per_sb_data_size"
    using len assms(3) by (simp add: word_le_nat_alt per_sb_data_size_eq)
  then show "check_sb_header (new_header h v d) i = Inr ()"
    using assms(1,2) by (auto simp: check_sb_header_def new_header_def split: if_splits)
qed

lemma written_version:
  assumes c: "sb_area_bytes \<le> length c" and fmt: "formatted c" and i: "i < 2" and d: "length d \<le> per_sb_data_size"
    and c': "c' = overwrite (overwrite c (sb_start i) d) (i * header_size) (header_bytes (new_header (header_at c i) v d))"
  shows "holds c' i v d" and "formatted c'"
proof -
  let ?h = "new_header (header_at c i) v d" and ?c1 = "overwrite c (sb_start i) d"
  have h0: "check_sb_header (header_at c i) i = Inr ()" "sbh_data_max_size (header_at c i) = of_nat per_sb_data_size"
    using fmt i by (simp_all add: formatted_def)
  have fits: "sb_start i + length d \<le> length c"
    using c i d by (auto simp: sb_start_eq per_sb_data_size_eq sb_area_bytes_def less_2_cases_iff)
  have res: "length (sbh_reserved2 ?h) = 6" using header_at_reserved [OF c i] by (simp add: new_header_def)
  have c1: "sb_area_bytes \<le> length ?c1" using c fits by simp
  have hdr: "header_at c' j = (if i = j then ?h else header_at c j)" if "j < 2" for j
    unfolding c' write_header_at(1) [OF res i that c1]
    using write_data_elsewhere(1) [OF i that _ c, of 0 d] d by simp
  have "take (length d) (drop (sb_start i) c') = d"
    unfolding c' write_header_at(2) [OF res i i c1] by (rule slice_written [OF fits])
  then show "holds c' i v d"
    using hdr [OF i] new_header_check [OF h0 d] d by (simp add: holds_def exa_checksum_eq new_header_def)
  show "formatted c'" using fmt hdr new_header_check(1) [OF h0 d] h0(2)
    by (auto simp: formatted_def new_header_def)
qed

lemma find_other:
  assumes fmt: "formatted c" and p: "p < 2" and old: "sbh_sb_version (header_at c p) = old" "old \<noteq> 0"
    and other: "sbh_sb_version (header_at c (1 - p)) \<noteq> old"
  shows "find (may_write [header_at c 0, header_at c 1] old) [0, 1] = Some (1 - p)"
  using assms by (auto simp: less_2_cases_iff may_write_def formatted_def)

text \<open>A whole write: the area after the data, and after the header.\<close>

lemma commit_ok:
  assumes ok: "sb_ok rdev" and fmt: "formatted (area rdev)" and d: "length (concat bss) \<le> per_sb_data_size"
    and find: "find (may_write [header_at (area rdev) 0, header_at (area rdev) 1] old) [0, 1] = Some i"
  shows "\<exists>op rdev1 rdev2 rdev3. vrt_rdev_begin_superblock_write rdev old new = (Inr op, rdev1) \<and> wop_stream op = i \<and>
    at_data rdev1 i 0 \<and> area rdev1 = area rdev \<and>
    on_checksum i (write_all stream_write bss) rdev1 = (Inr (), rdev2) \<and>
    vrt_rdev_end_superblock_write rdev2 op = Some (Inr (), rdev3) \<and> sb_ok rdev3 \<and>
    area rdev3 = overwrite (overwrite (area rdev) (sb_start i) (concat bss)) (i * header_size)
      (header_bytes (new_header (header_at (area rdev) i) new (concat bss)))"
proof -
  let ?h = "header_at (area rdev) i"
  let ?op = "\<lparr> wop_header = ?h, wop_new_sb_version = new, wop_stream = i \<rparr>"
  obtain rdev1 where i: "i < 2" and r1: "vrt_rdev_begin_superblock_write rdev old new = (Inr ?op, rdev1)"
    "at_data rdev1 i 0" "area rdev1 = area rdev" "sb_checksums rdev1 ! i = checksum_reset"
    using begin_write_ok [OF ok find] by blast
  obtain rdev2 where r2: "on_checksum i (write_all stream_write bss) rdev1 = (Inr (), rdev2)"
    "at_data rdev2 i (0 + length (concat bss))" "area rdev2 = overwrite (area rdev) (sb_start i) (concat bss)"
    "sb_checksums rdev2 ! i = foldl checksum_feed checksum_reset bss"
    using write_data_ok [OF r1(2) i, of bss] d r1(3,4) by auto
  have len: "sb_area_bytes \<le> length (area rdev)" using ok by (simp add: sb_ok_def)
  have "check_sb_header ?h i = Inr ()" using fmt i by (simp add: formatted_def)
  from end_write_ok [OF r2(2) i r2(4) header_at_reserved [OF len i] header_position [OF this]] r2(3)
  obtain rdev3 where r3: "vrt_rdev_end_superblock_write rdev2 ?op = Some (Inr (), rdev3)" "sb_ok rdev3"
    "area rdev3 = overwrite (overwrite (area rdev) (sb_start i) (concat bss)) (i * header_size)
      (header_bytes (new_header ?h new (concat bss)))" by auto
  show ?thesis
    by (intro exI conjI, rule r1(1), simp, rule r1(2), rule r1(3), rule r2(1), rule r3(1), rule r3(2), rule r3(3))
qed

section \<open>Reading a version\<close>

definition readable :: "byte list \<Rightarrow> 64 word \<Rightarrow> nat \<Rightarrow> bool" where
  "readable c version i \<longleftrightarrow>
     (let h = header_at c i; n = unat (sbh_data_size h) in
      check_sb_header h i = Inr () \<and> sbh_sb_version h = version \<and> n \<le> per_sb_data_size \<and>
      exa_checksum (take n (drop (sb_start i) c)) = Some (sbh_checksum h))"

definition data_at :: "byte list \<Rightarrow> nat \<Rightarrow> byte list" where
  "data_at c i = take (unat (sbh_data_size (header_at c i))) (drop (sb_start i) c)"

lemma holds_iff_readable:
  assumes "sb_area_bytes \<le> length c" "i < 2"
  shows "holds c i v d \<longleftrightarrow> readable c v i \<and> d = data_at c i"
proof -
  have "sb_start i + per_sb_data_size \<le> length c"
    using assms by (auto simp: sb_start_eq per_sb_data_size_eq sb_area_bytes_def less_2_cases_iff)
  then have "length (data_at c i) = unat (sbh_data_size (header_at c i))"
    if "unat (sbh_data_size (header_at c i)) \<le> per_sb_data_size" using that by (simp add: data_at_def)
  then show ?thesis by (auto simp: holds_def readable_def data_at_def Let_def)
qed

lemma find_version_ok:
  "sb_ok rdev \<Longrightarrow> set is \<subseteq> {0, 1} \<Longrightarrow> headers = [header_at (area rdev) 0, header_at (area rdev) 1] \<Longrightarrow>
   \<exists>rdev'. find_version headers v is rdev = Some (find (readable (area rdev) v) is, rdev') \<and> sb_ok rdev' \<and> area rdev' = area rdev"
proof (induction "is" arbitrary: rdev)
  case Nil
  then show ?case by simp
next
  case (Cons i "is")
  have i: "i < 2" and nth: "headers ! i = header_at (area rdev) i" using Cons.prems(2,3) by auto
  let ?h = "header_at (area rdev) i"
  show ?case
  proof (cases "check_sb_header ?h i = Inr ()")
    case False
    then show ?thesis using Cons.IH [OF Cons.prems(1) _ Cons.prems(3)] Cons.prems(2) nth by (simp add: readable_def Let_def)
  next
    case True
    obtain r s where r: "check_sb_checksum (unat (sbh_data_size ?h)) (sbh_checksum ?h) (checksum_sb_stream rdev i) = Some (r, s)"
      "sb_ok (put_checksum rdev i s)" "area (put_checksum rdev i s) = area rdev"
      "r = Inr () \<longleftrightarrow> unat (sbh_data_size ?h) \<le> per_sb_data_size \<and>
        exa_checksum (take (unat (sbh_data_size ?h)) (drop (sb_start i) (area rdev))) = Some (sbh_checksum ?h)"
      using check_sb_checksum_ok [OF Cons.prems(1) i] by blast
    have good: "readable (area rdev) v i \<longleftrightarrow> r = Inr () \<and> sbh_sb_version ?h = v"
      using r(4) True by (auto simp: readable_def Let_def)
    show ?thesis
    proof (cases "readable (area rdev) v i")
      case True': True
      then have "find_version headers v (i # is) rdev = Some (Some i, put_checksum rdev i s)"
        using r(1) True nth good by (simp add: Let_def)
      then show ?thesis using r(2,3) True' by simp
    next
      case False
      then have "find_version headers v (i # is) rdev = find_version headers v is (put_checksum rdev i s)"
        using r(1) True nth good by (auto simp: Let_def)
      then show ?thesis using Cons.IH [OF r(2)] Cons.prems(2,3) r(3) False by simp
    qed
  qed
qed

lemma put_data_ok:
  assumes ok: "sb_ok rdev" and i: "i < 2" and raw: "store_ok raw" "content raw = area rdev"
    and rdev': "rdev' = put_data rdev i (window raw start end' ofs)"
  shows "sb_ok rdev'" and "area rdev' = area rdev" and "sb_data_ofs rdev' ! i = ofs" and "raw_sb_stream rdev' = raw"
  using assms by (simp_all add: sb_ok_def area_def)

lemma rewind_data_ok:
  assumes ok: "sb_ok rdev" and i: "i < 2"
  shows "\<exists>rdev'. on_data i stream_rewind rdev = (Inr (), rdev') \<and> at_data rdev' i 0 \<and> area rdev' = area rdev"
proof -
  have raw: "store_ok (raw_sb_stream rdev)" using ok by (simp add: sb_ok_def)
  obtain raw' where r: "stream_rewind (sb_data_stream rdev i) = (Inr (), window raw' (sb_start i) (sb_start i + 16777159) (sb_start i))"
    "moved (raw_sb_stream rdev) (sb_start i) raw'"
    using rewind_window [OF raw le_add1 window_fits [OF ok i]] unfolding streams_eq(1) [OF ok] by blast
  define rdev' where "rdev' = put_data rdev i (window raw' (sb_start i) (sb_start i + 16777159) (sb_start i))"
  have raw': "store_ok raw'" "content raw' = area rdev" using r(2) by (simp_all add: moved_def area_def)
  note P = put_data_ok [OF ok i raw' rdev'_def]
  have "at_data rdev' i 0"
    using P raw'(1) window_fits [OF P(1) i] by (simp add: at_data_def streams_eq(1) [OF P(1)])
  then show ?thesis using r(1) P(2) by (auto simp: on_data_def rdev'_def)
qed

lemma begin_read_ok:
  assumes ok: "sb_ok rdev"
  shows "case find (readable (area rdev) v) [0, 1] of
      None \<Rightarrow> \<exists>rdev'. vrt_rdev_begin_superblock_read rdev v = Some (Inl VRT_ERR_SB_NOT_FOUND, rdev') \<and> area rdev' = area rdev
    | Some i \<Rightarrow> \<exists>rdev'. vrt_rdev_begin_superblock_read rdev v =
        Some (Inr \<lparr> rop_header = header_at (area rdev) i, rop_stream = i \<rparr>, rdev') \<and> at_data rdev' i 0 \<and> area rdev' = area rdev"
proof -
  let ?hs = "[header_at (area rdev) 0, header_at (area rdev) 1]"
  obtain raw1 where r1: "read_sb_headers rdev = (Inr ?hs, rdev\<lparr>raw_sb_stream := raw1\<rparr>)"
    "store_ok raw1" "content raw1 = area rdev" using read_sb_headers_ok [OF ok] by blast
  note ok1 = sb_ok_raw [OF ok r1(2,3)]
  obtain rdev2 where r2: "find_version ?hs v [0, 1] (rdev\<lparr>raw_sb_stream := raw1\<rparr>) = Some (find (readable (area rdev) v) [0, 1], rdev2)"
    "sb_ok rdev2" "area rdev2 = area rdev"
    using find_version_ok [of "rdev\<lparr>raw_sb_stream := raw1\<rparr>" "[0, 1]" ?hs v] ok1 by auto
  show ?thesis
  proof (cases "find (readable (area rdev) v) [0, 1]")
    case None
    then show ?thesis using r1(1) r2 by (simp add: vrt_rdev_begin_superblock_read_def)
  next
    case (Some i)
    then have i: "i < 2" "readable (area rdev) v i" by (auto split: if_splits)
    then have nth: "?hs ! i = header_at (area rdev) i" by (auto simp: less_2_cases_iff)
    have "sbh_position (header_at (area rdev) i) = of_nat i"
      using i(2) by (intro header_position) (simp add: readable_def Let_def)
    then have pos: "unat (sbh_position (?hs ! i)) = i" using i(1) nth by (auto simp: less_2_cases_iff)
    obtain rdev3 where r3: "on_data i stream_rewind rdev2 = (Inr (), rdev3)" "at_data rdev3 i 0" "area rdev3 = area rdev"
      using rewind_data_ok [OF r2(2) i(1)] r2(3) by auto
    have "vrt_rdev_begin_superblock_read rdev v = Some (Inr \<lparr> rop_header = ?hs ! i, rop_stream = i \<rparr>, rdev3)"
      unfolding vrt_rdev_begin_superblock_read_def r1(1) using r2(1) Some r3(1) pos by (simp add: Let_def)
    then show ?thesis using Some r3(2,3) nth by auto
  qed
qed

lemma read_data_ok:
  assumes at: "at_data rdev i 0" and i: "i < 2" and n: "n \<le> per_sb_data_size"
  shows "\<exists>rdev'. on_data i (\<lambda>s. stream_read s n) rdev = (Inr (take n (drop (sb_start i) (area rdev))), rdev') \<and>
    at_data rdev' i n \<and> area rdev' = area rdev"
proof -
  have ok: "sb_ok rdev" and ofs: "sb_data_ofs rdev ! i = sb_start i" using at by (simp_all add: at_data_def)
  let ?s = "sb_start i" and ?e = "sb_start i + 16777159"
  have w: "store_ok (window (raw_sb_stream rdev) ?s ?e ?s)" using at streams_eq(1) [OF ok, of i] ofs by (simp add: at_data_def)
  have "\<exists>raw'. stream_read (sb_data_stream rdev i) n = (Inr (take n (drop ?s (area rdev))), window raw' ?s ?e (?s + n)) \<and>
      store_ok (window raw' ?s ?e (?s + n)) \<and> content raw' = area rdev"
  proof (cases "n = 0")
    case True
    then show ?thesis using w by (intro exI [of _ "raw_sb_stream rdev"]) (simp add: streams_eq(1) [OF ok] ofs area_def)
  next
    case False
    have "window_size ?e ?s n = n" using n by (auto simp: window_size_def per_sb_data_size_eq)
    with read_window [OF w False] show ?thesis unfolding streams_eq(1) [OF ok] ofs area_def by metis
  qed
  then obtain raw' where r: "stream_read (sb_data_stream rdev i) n = (Inr (take n (drop ?s (area rdev))), window raw' ?s ?e (?s + n))"
    "store_ok (window raw' ?s ?e (?s + n))" "content raw' = area rdev" by blast
  define rdev' where "rdev' = put_data rdev i (window raw' ?s ?e (?s + n))"
  have "store_ok raw'" using r(2) by simp
  note P = put_data_ok [OF ok i this r(3) rdev'_def]
  have "at_data rdev' i n" unfolding at_data_def streams_eq(1) [OF P(1)] P(3,4) using P(1) r(2) by simp
  moreover have "on_data i (\<lambda>s. stream_read s n) rdev = (Inr (take n (drop ?s (area rdev))), rdev')"
    using r(1) by (simp add: on_data_def rdev'_def)
  ultimately show ?thesis using P(2) by blast
qed

lemma end_read_ok:
  assumes at: "at_data rdev i n" and i: "i < 2" and h: "unat (sbh_data_size h) = n" and n: "n \<le> per_sb_data_size"
  shows "\<exists>rdev'. vrt_rdev_end_superblock_read rdev \<lparr> rop_header = h, rop_stream = i \<rparr> = (Inr (), rdev') \<and> area rdev' = area rdev"
proof -
  have ok: "sb_ok rdev" and ofs: "sb_data_ofs rdev ! i = sb_start i + n" using at by (simp_all add: at_data_def)
  have "u64 (int (sb_start i + n) - int (sb_start i)) = n" using n by (simp add: u64_id per_sb_data_size_eq)
  then have "stream_tell (sb_data_stream rdev i) = (n, sb_data_stream rdev i)"
    by (simp add: streams_eq(1) [OF ok] ofs)
  then show ?thesis using h
    by (simp add: vrt_rdev_end_superblock_read_def on_data_def streams_eq(1) [OF ok] area_def)
qed

section \<open>Formatting\<close>

lemma initial_header_ok:
  "i < 2 \<Longrightarrow> check_sb_header (initial_header i) i = Inr ()" "length (sbh_reserved2 (initial_header i)) = 6"
  "i < 2 \<Longrightarrow> unat (sbh_position (initial_header i)) = i" "sbh_sb_version (initial_header i) = 0"
  "sbh_data_max_size (initial_header i) = of_nat per_sb_data_size"
  by (auto simp: initial_header_def data_range check_sb_header_def per_sb_data_size_eq less_2_cases_iff list_all_iff)

lemma create_ok:
  assumes ok: "sb_ok rdev"
  shows "\<exists>rdev'. vrt_rdev_create_superblocks rdev = (Inr (), rdev') \<and> sb_ok rdev' \<and> formatted (area rdev') \<and>
    (\<forall>i < 2. sbh_sb_version (header_at (area rdev') i) = 0)"
proof -
  let ?h0 = "initial_header 0" and ?h1 = "initial_header 1" and ?c = "area rdev"
  note h = initial_header_ok
  have two: "0 < (2 :: nat)" "1 < (2 :: nat)" by simp_all
  have len: "sb_area_bytes \<le> length ?c" using ok by (simp add: sb_ok_def)
  obtain raw1 where r1: "write_sb_header ?h0 rdev = (Inr (), rdev\<lparr>raw_sb_stream := raw1\<rparr>)" "store_ok raw1"
    "content raw1 = overwrite ?c (0 * header_size) (header_bytes ?h0)"
    using write_sb_header_ok [OF ok h(2) h(3) [OF two(1)] two(1)] by blast
  let ?r1 = "rdev\<lparr>raw_sb_stream := raw1\<rparr>" and ?c1 = "overwrite ?c (0 * header_size) (header_bytes ?h0)"
  have len1: "sb_area_bytes \<le> length ?c1" using len h(2) [of 0] by (simp add: sb_area_bytes_def header_size_def)
  have ok1: "sb_ok ?r1" "area ?r1 = ?c1" using ok r1(2,3) len1 by (simp_all add: sb_ok_def area_def)
  obtain raw2 where r2: "write_sb_header ?h1 ?r1 = (Inr (), ?r1\<lparr>raw_sb_stream := raw2\<rparr>)" "store_ok raw2"
    "content raw2 = overwrite ?c1 (1 * header_size) (header_bytes ?h1)"
    using write_sb_header_ok [OF ok1(1) h(2) h(3) [OF two(2)] two(2)] unfolding ok1(2) by blast
  let ?r2 = "?r1\<lparr>raw_sb_stream := raw2\<rparr>" and ?c2 = "overwrite ?c1 (1 * header_size) (header_bytes ?h1)"
  have len2: "sb_area_bytes \<le> length ?c2" using len1 h(2) [of 1] by (simp add: sb_area_bytes_def header_size_def)
  have ok2: "sb_ok ?r2" "area ?r2 = ?c2" using ok1 r2(2,3) len2 by (simp_all add: sb_ok_def area_def)
  obtain raw3 where r3: "on_raw stream_flush ?r2 = (Inr (), ?r2\<lparr>raw_sb_stream := raw3\<rparr>)" "store_ok raw3" "content raw3 = area ?r2"
    using flush_raw_ok [OF ok2(1)] by blast
  have hdr: "header_at ?c2 i = initial_header i" if "i < 2" for i
    using write_header_at(1) [OF h(2) _ that len1, of 1 1] write_header_at(1) [OF h(2) _ that len, of 0 0] that
    by (auto simp: less_2_cases_iff)
  have "vrt_rdev_create_superblocks rdev = (Inr (), ?r2\<lparr>raw_sb_stream := raw3\<rparr>)"
    using r1(1) r2(1) r3(1) by (simp add: vrt_rdev_create_superblocks_def)
  moreover note sb_ok_raw [OF ok2(1) r3(2,3)]
  moreover have "formatted ?c2" using hdr h by (simp add: formatted_def)
  ultimately show ?thesis using ok2(2) hdr h(4) by auto
qed

lemma first_version_ok:
  assumes ok: "sb_ok rdev" and d: "length (concat bss) \<le> per_sb_data_size"
  shows "\<exists>rdev1 op rdev2 rdev3 rdev4. vrt_rdev_create_superblocks rdev = (Inr (), rdev1) \<and>
    vrt_rdev_begin_superblock_write rdev1 0 v = (Inr op, rdev2) \<and>
    on_checksum (wop_stream op) (write_all stream_write bss) rdev2 = (Inr (), rdev3) \<and>
    vrt_rdev_end_superblock_write rdev3 op = Some (Inr (), rdev4) \<and>
    sb_ok rdev4 \<and> formatted (area rdev4) \<and> holds (area rdev4) 0 v (concat bss) \<and>
    sbh_sb_version (header_at (area rdev4) 1) = 0"
proof -
  obtain rdev1 where r1: "vrt_rdev_create_superblocks rdev = (Inr (), rdev1)" "sb_ok rdev1" "formatted (area rdev1)"
    "\<forall>i < 2. sbh_sb_version (header_at (area rdev1) i) = 0" using create_ok [OF ok] by blast
  let ?c = "area rdev1"
  have find: "find (may_write [header_at ?c 0, header_at ?c 1] 0) [0, 1] = Some 0"
    using r1(3,4) by (simp add: may_write_def formatted_def)
  obtain op rdev2 rdev3 rdev4 where w: "vrt_rdev_begin_superblock_write rdev1 0 v = (Inr op, rdev2)" "wop_stream op = 0"
    "on_checksum 0 (write_all stream_write bss) rdev2 = (Inr (), rdev3)"
    "vrt_rdev_end_superblock_write rdev3 op = Some (Inr (), rdev4)" "sb_ok rdev4"
    "area rdev4 = overwrite (overwrite ?c (sb_start 0) (concat bss)) (0 * header_size)
      (header_bytes (new_header (header_at ?c 0) v (concat bss)))"
    using commit_ok [OF r1(2,3) d find] by blast
  have len: "sb_area_bytes \<le> length ?c" using r1(2) by (simp add: sb_ok_def)
  have i: "0 < (2 :: nat)" "1 < (2 :: nat)" by simp_all
  note V = written_version [OF len r1(3) i(1) d w(6)]
  have fits: "sb_start 0 + length (concat bss) \<le> length ?c"
    using len d by (simp add: sb_start_eq per_sb_data_size_eq sb_area_bytes_def)
  have "header_at (area rdev4) 1 = header_at ?c 1"
    unfolding w(6) using write_header_at(1) [OF _ i, of "new_header (header_at ?c 0) v (concat bss)" "overwrite ?c (sb_start 0) (concat bss)"]
      write_data_elsewhere(1) [OF i _ len, of 0 "concat bss"] header_at_reserved [OF len i(1)] len fits d
    by (simp add: new_header_def)
  then have "sbh_sb_version (header_at (area rdev4) 1) = 0" using r1(4) by simp
  moreover have "on_checksum (wop_stream op) (write_all stream_write bss) rdev2 = (Inr (), rdev3)" using w(2,3) by simp
  ultimately show ?thesis using r1(1) w(1,4,5) V by blast
qed

section \<open>Properties\<close>

text \<open>C6: a version is replaced without a moment in which it cannot be read. On a formatted device
  that holds the version \<open>old\<close> at one position, beginning to write another version picks the other
  position; after any number of the writes of its data the old version is still held, whole; and
  when the write is ended, the new version is held with exactly the data written, and the old one
  still is.\<close>

theorem superblock_commit:
  assumes ok: "sb_ok rdev" and fmt: "formatted (area rdev)" and p: "p < 2"
    and old: "holds (area rdev) p old d" "old \<noteq> 0" and other: "sbh_sb_version (header_at (area rdev) (1 - p)) \<noteq> old"
    and fits: "length (concat bss) \<le> per_sb_data_size"
  shows "\<exists>op rdev1. vrt_rdev_begin_superblock_write rdev old new = (Inr op, rdev1) \<and> wop_stream op = 1 - p \<and>
    (\<forall>k. \<exists>rdev2. on_checksum (1 - p) (write_all stream_write (take k bss)) rdev1 = (Inr (), rdev2) \<and>
       holds (area rdev2) p old d) \<and>
    (\<exists>rdev2 rdev3. on_checksum (1 - p) (write_all stream_write bss) rdev1 = (Inr (), rdev2) \<and>
       vrt_rdev_end_superblock_write rdev2 op = Some (Inr (), rdev3) \<and> sb_ok rdev3 \<and> formatted (area rdev3) \<and>
       holds (area rdev3) (1 - p) new (concat bss) \<and> holds (area rdev3) p old d)"
proof -
  let ?c = "area rdev" and ?q = "1 - p"
  have q: "?q < 2" "?q \<noteq> p" using p by (auto simp: less_2_cases_iff)
  have len: "sb_area_bytes \<le> length ?c" using ok by (simp add: sb_ok_def)
  have "sbh_sb_version (header_at ?c p) = old" using old(1) by (simp add: holds_def)
  note find = find_other [OF fmt p this old(2) other]
  obtain op rdev1 rdev2 rdev3 where w: "vrt_rdev_begin_superblock_write rdev old new = (Inr op, rdev1)" "wop_stream op = ?q"
    "at_data rdev1 ?q 0" "area rdev1 = ?c" "on_checksum ?q (write_all stream_write bss) rdev1 = (Inr (), rdev2)"
    "vrt_rdev_end_superblock_write rdev2 op = Some (Inr (), rdev3)" "sb_ok rdev3"
    "area rdev3 = overwrite (overwrite ?c (sb_start ?q) (concat bss)) (?q * header_size)
      (header_bytes (new_header (header_at ?c ?q) new (concat bss)))"
    using commit_ok [OF ok fmt fits find] by blast
  note V = written_version [OF len fmt q(1) fits w(8)]
  have part: "\<exists>rdev2. on_checksum ?q (write_all stream_write (take k bss)) rdev1 = (Inr (), rdev2) \<and>
      holds (area rdev2) p old d" for k
  proof -
    have "concat bss = concat (take k bss) @ concat (drop k bss)" by (metis append_take_drop_id concat_append)
    then have k: "0 + length (concat (take k bss)) \<le> per_sb_data_size" using fits by simp
    from write_data_ok [OF w(3) q(1) k] w(4) holds_other_data [OF old(1) p q k len] show ?thesis by auto
  qed
  have c1: "holds (overwrite ?c (sb_start ?q) (concat bss)) p old d"
    using holds_other_data [OF old(1) p q, of 0 "concat bss"] fits len by simp
  have "sb_area_bytes \<le> length (overwrite ?c (sb_start ?q) (concat bss))"
    using len fits q(1) by (auto simp: sb_start_eq per_sb_data_size_eq sb_area_bytes_def less_2_cases_iff)
  moreover have "length (sbh_reserved2 (new_header (header_at ?c ?q) new (concat bss))) = 6"
    using header_at_reserved [OF len q(1)] by (simp add: new_header_def)
  ultimately have "holds (area rdev3) p old d" unfolding w(8) using holds_other_header [OF c1 p q] by blast
  then show ?thesis using w(1,2,5,6,7) part V by blast
qed


text \<open>C20: the first version written to a device is read back as it was written. Formatting a device,
  writing a version in any sequence of pieces that fits, and reading it gives the concatenation
  of the pieces, and every step succeeds.\<close>

theorem superblock_write_read:
  assumes ok: "sb_ok rdev" and v: "v \<noteq> 0" and fits: "length (concat bss) \<le> per_sb_data_size"
  shows "\<exists>rdev1 op rdev2 rdev3 rdev4 rop rdev5 rdev6 rdev7. vrt_rdev_create_superblocks rdev = (Inr (), rdev1) \<and>
    vrt_rdev_begin_superblock_write rdev1 0 v = (Inr op, rdev2) \<and>
    on_checksum (wop_stream op) (write_all stream_write bss) rdev2 = (Inr (), rdev3) \<and>
    vrt_rdev_end_superblock_write rdev3 op = Some (Inr (), rdev4) \<and>
    vrt_rdev_begin_superblock_read rdev4 v = Some (Inr rop, rdev5) \<and>
    on_data (rop_stream rop) (\<lambda>s. stream_read s (length (concat bss))) rdev5 = (Inr (concat bss), rdev6) \<and>
    vrt_rdev_end_superblock_read rdev6 rop = (Inr (), rdev7)"
proof -
  obtain rdev1 op rdev2 rdev3 rdev4 where w: "vrt_rdev_create_superblocks rdev = (Inr (), rdev1)"
    "vrt_rdev_begin_superblock_write rdev1 0 v = (Inr op, rdev2)"
    "on_checksum (wop_stream op) (write_all stream_write bss) rdev2 = (Inr (), rdev3)"
    "vrt_rdev_end_superblock_write rdev3 op = Some (Inr (), rdev4)" "sb_ok rdev4" "holds (area rdev4) 0 v (concat bss)"
    using first_version_ok [OF ok fits, of v] by blast
  let ?c = "area rdev4" and ?d = "concat bss"
  have "readable ?c v 0" using w(5,6) holds_iff_readable [of ?c 0] by (simp add: sb_ok_def)
  then have find: "find (readable ?c v) [0, 1] = Some 0" by simp
  have n: "unat (sbh_data_size (header_at ?c 0)) = length ?d" "take (length ?d) (drop (sb_start 0) ?c) = ?d"
    using w(6) by (simp_all add: holds_def)
  obtain rdev5 where r5: "vrt_rdev_begin_superblock_read rdev4 v = Some (Inr \<lparr> rop_header = header_at ?c 0, rop_stream = 0 \<rparr>, rdev5)"
    "at_data rdev5 0 0" "area rdev5 = ?c" using begin_read_ok [OF w(5), of v] unfolding find by auto
  obtain rdev6 where r6: "on_data 0 (\<lambda>s. stream_read s (length ?d)) rdev5 = (Inr ?d, rdev6)" "at_data rdev6 0 (length ?d)"
    using read_data_ok [OF r5(2) _ fits] r5(3) n(2) by auto
  obtain rdev7 where r7: "vrt_rdev_end_superblock_read rdev6 \<lparr> rop_header = header_at ?c 0, rop_stream = 0 \<rparr> = (Inr (), rdev7)"
    using end_read_ok [OF r6(2) _ n(1) fits] by auto
  show ?thesis
    by (intro exI conjI, rule w(1), rule w(2), rule w(3), rule w(4), rule r5(1), simp, rule r6(1), rule r7)
qed

definition blank_device :: sb_rdev where
  "blank_device = \<lparr> raw_sb_stream = Stream (Memory_Stream (replicate 33554432 0) 0) STREAM_ACCESS_RW,
     sb_data_ofs = [112, 16777272], sb_checksums = [checksum_reset, checksum_reset], sb_access = STREAM_ACCESS_RW \<rparr>"

lemma blank_device_opened:
  "vrt_rdev_open_superblock_streams (memory_stream_open (replicate 33554432 0)) True = Inr blank_device"
  by (simp add: vrt_rdev_open_superblock_streams_def memory_stream_open_def stream_open_def blank_device_def data_range sb_start_eq)

lemma blank_device_ok: "sb_ok blank_device"
  by (simp add: sb_ok_def blank_device_def area_def sb_area_bytes_def)

theorem superblock_write_read_witness:
  "\<exists>rdev4 rop rdev5 rdev6. vrt_rdev_begin_superblock_read rdev4 7 = Some (Inr rop, rdev5) \<and>
    on_data (rop_stream rop) (\<lambda>s. stream_read s 3) rdev5 = (Inr [1, 2, 3], rdev6)"
proof -
  have "(7 :: 64 word) \<noteq> 0" "length (concat [[1], [2, 3 :: byte]]) \<le> per_sb_data_size" by (simp_all add: per_sb_data_size_eq)
  from superblock_write_read [OF blank_device_ok this] show ?thesis by (simp add: numeral_3_eq_3) blast
qed


theorem superblock_commit_witness:
  "\<exists>rdev op rdev1 rdev2 rdev3. holds (area rdev) 0 1 [1, 2, 3] \<and>
    vrt_rdev_begin_superblock_write rdev 1 2 = (Inr op, rdev1) \<and> wop_stream op = 1 \<and>
    on_checksum 1 (write_all stream_write [[9], [8]]) rdev1 = (Inr (), rdev2) \<and>
    vrt_rdev_end_superblock_write rdev2 op = Some (Inr (), rdev3) \<and>
    holds (area rdev3) 1 2 [9, 8] \<and> holds (area rdev3) 0 1 [1, 2, 3]"
proof -
  have fits: "length (concat [[1], [2, 3 :: byte]]) \<le> per_sb_data_size" "length (concat [[9], [8 :: byte]]) \<le> per_sb_data_size"
    by (simp_all add: per_sb_data_size_eq)
  obtain rdev where r: "sb_ok rdev" "formatted (area rdev)" "holds (area rdev) 0 1 (concat [[1], [2, 3]])"
    "sbh_sb_version (header_at (area rdev) 1) = 0" using first_version_ok [OF blank_device_ok fits(1), of 1] by blast
  have "(0 :: nat) < 2" "(1 :: 64 word) \<noteq> 0" "sbh_sb_version (header_at (area rdev) (1 - 0)) \<noteq> 1" using r(4) by simp_all
  from superblock_commit [OF r(1,2) this(1) r(3) this(2,3) fits(2), of 2] r(3) show ?thesis by auto
qed

end
