(* ===== verification/Exa_Text.thy ===== *)
theory Exa_Text
  imports Main
begin

text \<open>
  What the program uses of the C library's formatted text: \<open>snprintf\<close> and \<open>sscanf\<close> with a format
  of characters, white space and decimal numbers. A format is a list of directives, so that the
  same format prints and scans, as the macros of the program do. In a scan a white space directive
  skips any white space, a number skips white space and takes an optional sign and digits, and the
  scan stops at the first directive that does not match; its result is the list of the numbers
  converted so far. A string in an array ends at the first NUL character.

  \<open>sscanf_snprintf\<close> is the round trip for a format in which every number is followed by white space
  and white space is not followed by more of it.
\<close>

datatype directive = Literal char | White char | Number

definition is_space :: "char \<Rightarrow> bool" where
  "is_space c \<longleftrightarrow> of_char c \<in> {9, 10, 11, 12, 13, 32 :: nat}"

definition is_digit :: "char \<Rightarrow> bool" where
  "is_digit c \<longleftrightarrow> 48 \<le> (of_char c :: nat) \<and> (of_char c :: nat) \<le> 57"

definition digit_char :: "nat \<Rightarrow> char" where
  "digit_char d = char_of (48 + d)"

definition digit_value :: "char \<Rightarrow> nat" where
  "digit_value c = of_char c - 48"

fun decimal :: "nat \<Rightarrow> string" where
  "decimal n = (if n < 10 then [digit_char n] else decimal (n div 10) @ [digit_char (n mod 10)])"

declare decimal.simps [simp del]

definition digits_value :: "string \<Rightarrow> nat" where
  "digits_value s = foldl (\<lambda>a c. 10 * a + digit_value c) 0 s"

fun snprintf :: "directive list \<Rightarrow> nat list \<Rightarrow> string" where
  "snprintf [] ns = []"
| "snprintf (Literal c # fs) ns = c # snprintf fs ns"
| "snprintf (White c # fs) ns = c # snprintf fs ns"
| "snprintf (Number # fs) (n # ns) = decimal n @ snprintf fs ns"
| "snprintf (Number # fs) [] = []"

definition scan_sign :: "string \<Rightarrow> bool \<times> string" where
  "scan_sign s =
     (case s of
        [] \<Rightarrow> (False, [])
      | c # s' \<Rightarrow> if c = CHR ''-'' then (True, s') else if c = CHR ''+'' then (False, s') else (False, s))"

definition scan_number :: "string \<Rightarrow> (bool \<times> nat \<times> string) option" where
  "scan_number s =
     (let (neg, s) = scan_sign (dropWhile is_space s); ds = takeWhile is_digit s in
      if ds = [] then None else Some (neg, digits_value ds, dropWhile is_digit s))"

fun sscanf :: "directive list \<Rightarrow> string \<Rightarrow> (bool \<times> nat) list" where
  "sscanf [] s = []"
| "sscanf (Literal c # fs) s = (case s of [] \<Rightarrow> [] | x # xs \<Rightarrow> if x = c then sscanf fs xs else [])"
| "sscanf (White c # fs) s = sscanf fs (dropWhile is_space s)"
| "sscanf (Number # fs) s =
     (case scan_number s of
        None \<Rightarrow> []
      | Some (neg, n, s') \<Rightarrow> (neg, n) # sscanf fs s')"

text \<open>The characters before the NUL, and an array of a given size with a string and NULs.\<close>

definition NUL :: char where
  "NUL = CHR 0x00"

definition c_string :: "string \<Rightarrow> string" where
  "c_string s = takeWhile (\<lambda>c. c \<noteq> NUL) s"

definition c_array :: "nat \<Rightarrow> string \<Rightarrow> string" where
  "c_array n s = s @ replicate (n - length s) NUL"

section \<open>Numbers\<close>

lemma digit_char_value:
  assumes "d < 10"
  shows "is_digit (digit_char d)" and "digit_value (digit_char d) = d"
  using assms by (simp_all add: is_digit_def digit_char_def digit_value_def)

lemma digits_value_append [simp]: "digits_value (s @ [c]) = 10 * digits_value s + digit_value c"
  by (simp add: digits_value_def)

lemma decimal_value [simp]: "digits_value (decimal n) = n"
proof (induction n rule: decimal.induct)
  case (1 n)
  then show ?case
    by (subst decimal.simps) (simp add: digit_char_value, simp add: digits_value_def digit_char_value)
qed

lemma decimal_digits: "\<forall>c \<in> set (decimal n). is_digit c"
proof (induction n rule: decimal.induct)
  case (1 n)
  then show ?case by (subst decimal.simps) (auto simp: digit_char_value)
qed

lemma decimal_Nil [simp]: "decimal n \<noteq> []"
  by (subst decimal.simps) simp

lemma length_decimal: "0 < k \<Longrightarrow> n < 10 ^ k \<Longrightarrow> length (decimal n) \<le> k"
proof (induction k arbitrary: n)
  case (Suc k)
  show ?case
  proof (cases "n < 10")
    case True
    then show ?thesis by (subst decimal.simps) simp
  next
    case False
    with Suc.prems have k: "0 < k" by (cases k) simp_all
    have "n div 10 < 10 ^ k" using Suc.prems(2) by (simp add: less_mult_imp_div_less mult.commute)
    from Suc.IH [OF k this] False show ?thesis by (subst decimal.simps) simp
  qed
qed simp

lemma is_digitD:
  assumes "is_digit c"
  shows "\<not> is_space c" and "c \<noteq> CHR ''-''" and "c \<noteq> CHR ''+''" and "c \<noteq> NUL"
  using assms by (auto simp: is_digit_def is_space_def NUL_def)

lemma decimal_Cons:
  obtains c s where "decimal n = c # s" "is_digit c"
  using decimal_digits [of n] by (cases "decimal n") auto

section \<open>Scanning what was printed\<close>

definition starts :: "(char \<Rightarrow> bool) \<Rightarrow> string \<Rightarrow> bool" where
  "starts P s \<longleftrightarrow> s \<noteq> [] \<and> P (hd s)"

fun format_ok :: "directive list \<Rightarrow> bool" where
  "format_ok [] = True"
| "format_ok (Literal c # fs) = format_ok fs"
| "format_ok (White c # fs) \<longleftrightarrow> is_space c \<and> format_ok fs \<and>
     (case fs of [] \<Rightarrow> True | Literal d # _ \<Rightarrow> \<not> is_space d | White _ # _ \<Rightarrow> False | Number # _ \<Rightarrow> True)"
| "format_ok (Number # fs) \<longleftrightarrow> format_ok fs \<and> (case fs of White _ # _ \<Rightarrow> True | [] \<Rightarrow> True | _ \<Rightarrow> False)"

definition numbers :: "directive list \<Rightarrow> nat" where
  "numbers fs = length (filter (\<lambda>f. f = Number) fs)"

lemma takeWhile_starts: "\<forall>c \<in> set ds. P c \<Longrightarrow> \<not> starts P s \<Longrightarrow> takeWhile P (ds @ s) = ds \<and> dropWhile P (ds @ s) = s"
  by (cases s) (simp_all add: starts_def)

lemma dropWhile_starts: "\<not> starts P s \<Longrightarrow> dropWhile P s = s"
  by (cases s) (simp_all add: starts_def)

lemma scan_number_decimal:
  assumes "\<not> starts is_digit s"
  shows "scan_number (decimal n @ s) = Some (False, n, s)"
proof -
  obtain c t where c: "decimal n = c # t" "is_digit c" by (rule decimal_Cons)
  then have "scan_sign (dropWhile is_space (decimal n @ s)) = (False, decimal n @ s)"
    using is_digitD [OF c(2)] by (simp add: scan_sign_def)
  with takeWhile_starts [OF decimal_digits assms, of n] show ?thesis by (simp add: scan_number_def)
qed

lemma snprintf_not_space:
  assumes "format_ok (White c # fs)" "numbers fs = length ns"
  shows "\<not> starts is_space (snprintf fs ns)"
proof (cases fs)
  case (Cons f fs')
  show ?thesis
  proof (cases f)
    case Number
    then obtain n ns' where "ns = n # ns'" using assms(2) Cons by (cases ns) (simp_all add: numbers_def)
    then show ?thesis using Cons Number is_digitD by (cases rule: decimal_Cons [of n]) (simp add: starts_def)
  qed (use Cons assms(1) in \<open>simp_all add: starts_def\<close>)
qed (simp add: starts_def)

lemma snprintf_not_digit:
  assumes "format_ok (Number # fs)"
  shows "\<not> starts is_digit (snprintf fs ns)"
proof (cases fs)
  case (Cons f fs')
  with assms obtain c where "f = White c" "is_space c" by (cases f) simp_all
  with Cons show ?thesis using is_digitD(1) by (auto simp: starts_def)
qed (simp add: starts_def)

theorem sscanf_snprintf: "format_ok fs \<Longrightarrow> numbers fs = length ns \<Longrightarrow> sscanf fs (snprintf fs ns) = map (Pair False) ns"
proof (induction fs ns rule: snprintf.induct)
  case (3 c fs ns)
  have n: "numbers fs = length ns" "format_ok fs" using 3 by (simp_all add: numbers_def)
  from snprintf_not_space [OF 3(2) n(1)] have "dropWhile is_space (snprintf fs ns) = snprintf fs ns" by (rule dropWhile_starts)
  with 3 n show ?case by simp
next
  case (4 fs n ns)
  with scan_number_decimal [OF snprintf_not_digit [OF 4(2)], of n ns] show ?case by (simp add: numbers_def)
qed (simp_all add: numbers_def)

fun no_nul :: "directive list \<Rightarrow> bool" where
  "no_nul [] = True"
| "no_nul (Literal c # fs) \<longleftrightarrow> c \<noteq> NUL \<and> no_nul fs"
| "no_nul (White c # fs) \<longleftrightarrow> c \<noteq> NUL \<and> no_nul fs"
| "no_nul (Number # fs) = no_nul fs"

lemma snprintf_no_nul: "no_nul fs \<Longrightarrow> \<forall>c \<in> set (snprintf fs ns). c \<noteq> NUL"
  by (induction fs ns rule: snprintf.induct) (use decimal_digits is_digitD(4) in auto)

lemma c_string_array: "\<forall>c \<in> set s. c \<noteq> NUL \<Longrightarrow> c_string (c_array n s) = s"
  by (cases "n - length s") (simp_all add: c_string_def c_array_def)

lemma length_c_array [simp]: "length s \<le> n \<Longrightarrow> length (c_array n s) = n"
  by (simp add: c_array_def)

end
