(* ===== verification/Sb_Version.thy ===== *)
theory Sb_Version
  imports Exa_Text Vrt_Flat
begin

text \<open>
  The version of the superblocks of a group on one node (\<open>admind/services/vrt/sb_version.c\<close>). A new
  version is prepared, done and committed; every change is written as text to a mapped file
  (\<open>os/src-linux/os_filemap.c\<close>) before the operation returns, so that a node that restarts finds
  the step it was at. The mapping is the list of the characters of the file, which writes go to at
  once; creating and mapping the file does not fail for lack of memory, and writing it back to the
  disk succeeds.

  \<open>saved\<close> says that the file holds the metadata in memory, and \<open>load_saved\<close> that loading it gives
  them back; \<open>version_file_durable\<close> shows that every operation keeps this and that none aborts.
\<close>

section \<open>Mapped files\<close>

definition os_fmap_create :: "string option \<Rightarrow> nat \<Rightarrow> string option" where
  "os_fmap_create file n = (case file of None \<Rightarrow> Some (replicate n NUL) | Some _ \<Rightarrow> None)"

definition os_fmap_open :: "string option \<Rightarrow> nat \<Rightarrow> string option" where
  "os_fmap_open file n = (case file of None \<Rightarrow> None | Some c \<Rightarrow> if length c \<noteq> n then None else Some c)"

definition os_fmap_write :: "string \<Rightarrow> nat \<Rightarrow> string \<Rightarrow> (errcode + nat) \<times> string" where
  "os_fmap_write fmap offset inp =
     (if length inp + offset > length fmap then (Inl EINVAL, fmap)
      else (Inr (length inp), take offset fmap @ inp @ drop (offset + length inp) fmap))"

definition os_fmap_read :: "string \<Rightarrow> nat \<Rightarrow> nat \<Rightarrow> errcode + string" where
  "os_fmap_read fmap offset n = (if n + offset > length fmap then Inl EINVAL else Inr (take n (drop offset fmap)))"

section \<open>The metadata and their text\<close>

definition SBV_PREPARED :: "32 word" where
  "SBV_PREPARED = 1"

definition SBV_DONE :: "32 word" where
  "SBV_DONE = 2"

definition SBV_COMMITED :: "32 word" where
  "SBV_COMMITED = 3"

definition STEP_IS_VALID :: "32 word \<Rightarrow> bool" where
  "STEP_IS_VALID x \<longleftrightarrow> x \<ge> SBV_PREPARED \<and> x \<le> SBV_COMMITED"

record sb_metadata =
  md_version :: "64 word"
  md_next_version :: "64 word"
  pending_step :: "32 word"
  pending_version :: "64 word"

record sb_version =
  sbv_fmap :: string
  sbv_metadata :: sb_metadata

definition SB_METADATA_FILE_SIZE :: nat where
  "SB_METADATA_FILE_SIZE = 4096"

definition SB_METADATA_FORMAT_VERSION :: int where
  "SB_METADATA_FORMAT_VERSION = 1"

definition SB_METADATA_FORMAT :: "directive list" where
  "SB_METADATA_FORMAT =
     map Literal ''format_version='' @ [Number, White CHR 0x0A] @
     map Literal ''sb_version='' @ [Number, White CHR 0x0A] @
     map Literal ''next_version='' @ [Number, White CHR 0x0A] @
     map Literal ''pending_step='' @ [Number, White CHR 0x0A] @
     map Literal ''pending_version='' @ [Number, White CHR 0x0A]"

text \<open>The result and the array: what does not fit is cut.\<close>

definition sb_metadata_to_text :: "sb_metadata \<Rightarrow> nat \<Rightarrow> (errcode + nat) \<times> string" where
  "sb_metadata_to_text metadata n =
     (let text = snprintf SB_METADATA_FORMAT
            [nat SB_METADATA_FORMAT_VERSION, unat (md_version metadata), unat (md_next_version metadata),
             unat (pending_step metadata), unat (pending_version metadata)] in
      if length text \<ge> n then (Inl ENOSPC, c_array n (take (n - 1) text))
      else (Inr (length text), c_array n text))"

text \<open>The conversions of \<open>sscanf\<close>. A number that does not fit is undefined in C; here it saturates,
  as the conversions of the GNU library do.\<close>

definition to_unsigned :: "bool \<times> nat \<Rightarrow> 64 word" where
  "to_unsigned x = (if snd x \<ge> 2 ^ 64 then - 1 else if fst x then - of_nat (snd x) else of_nat (snd x))"

definition to_signed :: "bool \<times> nat \<Rightarrow> int" where
  "to_signed x = (if fst x then max (- (2 ^ 63)) (- int (snd x)) else min (2 ^ 63 - 1) (int (snd x)))"

definition sb_metadata_from_text :: "string \<Rightarrow> errcode + sb_metadata" where
  "sb_metadata_from_text text =
     (case sscanf SB_METADATA_FORMAT (c_string text) of
        [f, v, n, s, p] \<Rightarrow>
          if sint (word_of_int (to_signed f) :: 32 word) \<noteq> SB_METADATA_FORMAT_VERSION then Inl EINVAL
          else if \<not> STEP_IS_VALID (ucast (to_unsigned s)) then Inl EINVAL
          else Inr \<lparr> md_version = to_unsigned v, md_next_version = to_unsigned n,
            pending_step = ucast (to_unsigned s), pending_version = to_unsigned p \<rparr>
      | _ \<Rightarrow> Inl EINVAL)"

section \<open>Operations\<close>

definition initial_metadata :: "bool \<Rightarrow> sb_metadata" where
  "initial_metadata valid =
     (if valid then \<lparr> md_version = 1, md_next_version = 2, pending_step = SBV_PREPARED, pending_version = 2 \<rparr>
      else \<lparr> md_version = 0, md_next_version = 0, pending_step = SBV_PREPARED, pending_version = 0 \<rparr>)"

text \<open>The file of the group, if it is there, is an argument; the result has the file in its mapping.\<close>

definition sb_version_create :: "string option \<Rightarrow> bool \<Rightarrow> sb_version option" where
  "sb_version_create file valid = do {
     fmap \<leftarrow> os_fmap_create file SB_METADATA_FILE_SIZE;
     case sb_metadata_to_text (initial_metadata valid) SB_METADATA_FILE_SIZE of
       (Inl err, _) \<Rightarrow> None
     | (Inr _, contents) \<Rightarrow>
         Some \<lparr> sbv_fmap = snd (os_fmap_write fmap 0 contents), sbv_metadata = initial_metadata valid \<rparr> }"

definition sb_version_new :: "string option \<Rightarrow> sb_version option" where
  "sb_version_new file = sb_version_create file True"

definition sb_version_new_invalid :: "string option \<Rightarrow> sb_version option" where
  "sb_version_new_invalid file = sb_version_create file False"

text \<open>The result of reading the file is compared with the size as an unsigned number, so that a
  failing read would not be noticed; the size of the mapping has been checked by then.\<close>

definition sb_version_load :: "string option \<Rightarrow> sb_version option" where
  "sb_version_load file = do {
     fmap \<leftarrow> os_fmap_open file SB_METADATA_FILE_SIZE;
     case os_fmap_read fmap 0 SB_METADATA_FILE_SIZE of
       Inl err \<Rightarrow> None
     | Inr contents \<Rightarrow>
         (case sb_metadata_from_text contents of
            Inl err \<Rightarrow> None
          | Inr md \<Rightarrow> Some \<lparr> sbv_fmap = fmap, sbv_metadata = md \<rparr>) }"

definition sb_version_write_metadata :: "sb_version \<Rightarrow> sb_version option" where
  "sb_version_write_metadata sbv =
     (case sb_metadata_to_text (sbv_metadata sbv) SB_METADATA_FILE_SIZE of
        (Inl err, _) \<Rightarrow> None
      | (Inr _, contents) \<Rightarrow> Some (sbv\<lparr> sbv_fmap := snd (os_fmap_write (sbv_fmap sbv) 0 contents) \<rparr>))"

definition sb_version_new_version_prepare :: "sb_version \<Rightarrow> (64 word \<times> sb_version) option" where
  "sb_version_new_version_prepare sbv =
     (let md = sbv_metadata sbv;
          md = md\<lparr> pending_version := md_next_version md \<rparr>;
          md = md\<lparr> md_next_version := md_next_version md + 1 \<rparr>;
          md = md\<lparr> pending_step := SBV_PREPARED \<rparr> in
      do {
        sbv \<leftarrow> sb_version_write_metadata (sbv\<lparr> sbv_metadata := md \<rparr>);
        Some (pending_version (sbv_metadata sbv), sbv) })"

definition sb_version_new_version_done :: "sb_version \<Rightarrow> sb_version option" where
  "sb_version_new_version_done sbv =
     sb_version_write_metadata (sbv\<lparr> sbv_metadata := (sbv_metadata sbv)\<lparr> pending_step := SBV_DONE \<rparr> \<rparr>)"

definition sb_version_new_version_commit :: "sb_version \<Rightarrow> sb_version option" where
  "sb_version_new_version_commit sbv =
     (let md = (sbv_metadata sbv)\<lparr> pending_step := SBV_COMMITED \<rparr> in
      sb_version_write_metadata (sbv\<lparr> sbv_metadata := md\<lparr> md_version := pending_version md \<rparr> \<rparr>))"

definition sb_version_get_version :: "sb_version \<Rightarrow> 64 word" where
  "sb_version_get_version sbv = md_version (sbv_metadata sbv)"

definition sb_version_is_valid :: "sb_version \<Rightarrow> bool" where
  "sb_version_is_valid sbv \<longleftrightarrow> md_version (sbv_metadata sbv) > 0"

definition sb_version_local_recover :: "sb_version \<Rightarrow> sb_version option" where
  "sb_version_local_recover sbv =
     (let step = pending_step (sbv_metadata sbv) in
      if step = SBV_PREPARED then Some sbv
      else if step = SBV_DONE then sb_version_new_version_commit sbv
      else Some sbv)"

text \<open>The structure in memory has four bytes of padding after the step; their value does not matter.\<close>

definition metadata_bytes :: "byte list \<Rightarrow> sb_metadata \<Rightarrow> byte list" where
  "metadata_bytes pad md =
     le64 (md_version md) @ le64 (md_next_version md) @ le32 (pending_step md) @ take 4 (pad @ [0, 0, 0, 0]) @ le64 (pending_version md)"

definition metadata_of_bytes :: "byte list \<Rightarrow> sb_metadata" where
  "metadata_of_bytes b =
     \<lparr> md_version = of_le64 (take 8 b), md_next_version = of_le64 (take 8 (drop 8 b)),
       pending_step = of_le32 (take 4 (drop 16 b)), pending_version = of_le64 (take 8 (drop 24 b)) \<rparr>"

definition sb_version_serialize :: "byte list \<Rightarrow> sb_version \<Rightarrow> byte list" where
  "sb_version_serialize pad sbv = metadata_bytes pad (sbv_metadata sbv)"

definition sb_metadata_matches :: "sb_metadata \<Rightarrow> sb_metadata \<Rightarrow> bool" where
  "sb_metadata_matches md1 md2 \<longleftrightarrow> md_version md1 = md_version md2 \<and> md_next_version md1 = md_next_version md2"

definition sb_version_update_from :: "byte list \<Rightarrow> sb_version \<Rightarrow> sb_version option" where
  "sb_version_update_from buffer sbv =
     (let md = metadata_of_bytes buffer in
      if md_version md < md_version (sbv_metadata sbv) \<or> md_next_version md < md_next_version (sbv_metadata sbv)
      then Some sbv
      else do {
        sbv \<leftarrow> (if md_next_version (sbv_metadata sbv) < md_next_version md
          then sb_version_write_metadata (sbv\<lparr> sbv_metadata := (sbv_metadata sbv)\<lparr> md_next_version := md_next_version md \<rparr> \<rparr>)
          else Some sbv);
        if md_version md > md_version (sbv_metadata sbv)
        then sb_version_write_metadata (sbv\<lparr> sbv_metadata := md \<rparr>)
        else do {
          exa_assert (sb_metadata_matches md (sbv_metadata sbv));
          Some sbv } })"

section \<open>The file follows the memory\<close>

lemma length_snprintf_literals [simp]: "length (snprintf (map Literal s @ fs) ns) = length s + length (snprintf fs ns)"
  by (induction s) simp_all

lemma to_unsigned_unat [simp]: "to_unsigned (False, unat (w :: 64 word)) = w"
proof -
  have "unat w < 2 ^ 64" using unsigned_less [of w] by simp
  then show ?thesis by (simp add: to_unsigned_def)
qed

lemma ucast_to_unsigned [simp]: "ucast (to_unsigned (False, unat (w :: 32 word))) = w"
proof -
  have less: "unat w < 2 ^ 32" using unsigned_less [of w] by simp
  then have "to_unsigned (False, unat w) = ucast w" by (simp add: to_unsigned_def unsigned_of_nat)
  then show ?thesis by (simp add: ucast_up_ucast_id is_up)
qed

definition metadata_text :: "sb_metadata \<Rightarrow> string" where
  "metadata_text md = snprintf SB_METADATA_FORMAT
     [1, unat (md_version md), unat (md_next_version md), unat (pending_step md), unat (pending_version md)]"

lemma length_decimal_word:
  "length (decimal (unat (w :: 64 word))) \<le> 20" "length (decimal (unat (u :: 32 word))) \<le> 10" "length (decimal 1) \<le> 1"
proof -
  have "unat w < 2 ^ 64" "unat u < 2 ^ 32" using unsigned_less [of w] unsigned_less [of u] by simp_all
  then show "length (decimal (unat w)) \<le> 20" "length (decimal (unat u)) \<le> 10" "length (decimal 1) \<le> 1"
    by (intro length_decimal; simp)+
qed

lemma length_metadata_text: "length (metadata_text md) < SB_METADATA_FILE_SIZE"
  using length_decimal_word(1) [of "md_version md"] length_decimal_word(1) [of "md_next_version md"]
    length_decimal_word(1) [of "pending_version md"] length_decimal_word(2) [of "pending_step md"] length_decimal_word(3)
  unfolding metadata_text_def SB_METADATA_FORMAT_def SB_METADATA_FILE_SIZE_def by simp

lemma to_text_eq:
  "sb_metadata_to_text md SB_METADATA_FILE_SIZE = (Inr (length (metadata_text md)), c_array SB_METADATA_FILE_SIZE (metadata_text md))"
  using length_metadata_text [of md] unfolding sb_metadata_to_text_def SB_METADATA_FORMAT_VERSION_def Let_def
  by (simp add: metadata_text_def)

definition metadata_file :: "sb_metadata \<Rightarrow> string" where
  "metadata_file md = c_array SB_METADATA_FILE_SIZE (metadata_text md)"

lemma length_metadata_file [simp]: "length (metadata_file md) = SB_METADATA_FILE_SIZE"
  using length_metadata_text [of md] by (simp add: metadata_file_def)

lemma from_text_eq:
  assumes "STEP_IS_VALID (pending_step md)"
  shows "sb_metadata_from_text (metadata_file md) = Inr md"
proof -
  have fmt: "format_ok SB_METADATA_FORMAT" "no_nul SB_METADATA_FORMAT" "numbers SB_METADATA_FORMAT = 5"
    by (simp_all add: SB_METADATA_FORMAT_def is_space_def NUL_def numbers_def)
  have "c_string (metadata_file md) = metadata_text md"
    unfolding metadata_file_def metadata_text_def by (intro c_string_array snprintf_no_nul fmt(2))
  then have "sscanf SB_METADATA_FORMAT (c_string (metadata_file md)) = map (Pair False)
      [1, unat (md_version md), unat (md_next_version md), unat (pending_step md), unat (pending_version md)]"
    using sscanf_snprintf [OF fmt(1)] fmt(3) by (simp add: metadata_text_def)
  then show ?thesis using assms by (simp add: sb_metadata_from_text_def to_signed_def SB_METADATA_FORMAT_VERSION_def)
qed

definition saved :: "sb_version \<Rightarrow> bool" where
  "saved sbv \<longleftrightarrow> sbv_fmap sbv = metadata_file (sbv_metadata sbv) \<and> STEP_IS_VALID (pending_step (sbv_metadata sbv))"

lemma load_saved: "saved sbv \<Longrightarrow> sb_version_load (Some (sbv_fmap sbv)) = Some sbv"
  by (cases sbv) (simp add: saved_def sb_version_load_def os_fmap_open_def os_fmap_read_def from_text_eq)

lemma write_whole:
  assumes "length fmap = SB_METADATA_FILE_SIZE"
  shows "snd (os_fmap_write fmap 0 (metadata_file md)) = metadata_file md"
  using assms by (simp add: os_fmap_write_def)

text \<open>An operation that ends by writing the metadata gives the node these metadata, in the file too.\<close>

definition with_metadata :: "sb_metadata \<Rightarrow> sb_version" where
  "with_metadata md = \<lparr> sbv_fmap = metadata_file md, sbv_metadata = md \<rparr>"

lemma with_metadata_simps [simp]: "sbv_metadata (with_metadata md) = md" "sbv_fmap (with_metadata md) = metadata_file md"
  by (simp_all add: with_metadata_def)

lemma saved_with: "STEP_IS_VALID (pending_step md) \<Longrightarrow> saved (with_metadata md)"
  by (simp add: saved_def with_metadata_def)

lemma saved_eq: "saved sbv \<Longrightarrow> with_metadata (sbv_metadata sbv) = sbv"
  by (cases sbv) (simp add: saved_def with_metadata_def)

lemma write_metadata_eq:
  assumes "length (sbv_fmap sbv) = SB_METADATA_FILE_SIZE"
  shows "sb_version_write_metadata sbv = Some (with_metadata (sbv_metadata sbv))"
  using write_whole [OF assms] by (cases sbv) (simp add: sb_version_write_metadata_def to_text_eq metadata_file_def [symmetric] with_metadata_def)

lemma saved_length: "saved sbv \<Longrightarrow> length (sbv_fmap sbv) = SB_METADATA_FILE_SIZE"
  by (simp add: saved_def)

section \<open>What the operations do to the metadata\<close>

definition prepare_md :: "sb_metadata \<Rightarrow> sb_metadata" where
  "prepare_md md = md\<lparr> pending_version := md_next_version md, md_next_version := md_next_version md + 1, pending_step := SBV_PREPARED \<rparr>"

definition done_md :: "sb_metadata \<Rightarrow> sb_metadata" where
  "done_md md = md\<lparr> pending_step := SBV_DONE \<rparr>"

definition commit_md :: "sb_metadata \<Rightarrow> sb_metadata" where
  "commit_md md = md\<lparr> pending_step := SBV_COMMITED, md_version := pending_version md \<rparr>"

definition recover_md :: "sb_metadata \<Rightarrow> sb_metadata" where
  "recover_md md = (if pending_step md = SBV_DONE then commit_md md else md)"

definition update_md :: "sb_metadata \<Rightarrow> sb_metadata \<Rightarrow> sb_metadata" where
  "update_md msg md =
     (if md_version msg < md_version md \<or> md_next_version msg < md_next_version md then md
      else if md_version msg = md_version md then md\<lparr> md_next_version := md_next_version msg \<rparr>
      else msg)"

lemma steps_valid [simp]: "STEP_IS_VALID SBV_PREPARED" "STEP_IS_VALID SBV_DONE" "STEP_IS_VALID SBV_COMMITED"
  by (simp_all add: STEP_IS_VALID_def SBV_PREPARED_def SBV_DONE_def SBV_COMMITED_def)

lemma steps_distinct [simp]: "SBV_DONE \<noteq> SBV_PREPARED" "SBV_PREPARED \<noteq> SBV_DONE" "SBV_COMMITED \<noteq> SBV_DONE" "SBV_DONE \<noteq> SBV_COMMITED"
  "SBV_PREPARED \<noteq> SBV_COMMITED" "SBV_COMMITED \<noteq> SBV_PREPARED"
  by (simp_all add: SBV_PREPARED_def SBV_DONE_def SBV_COMMITED_def)

lemma metadata_bytes_inverse [simp]: "metadata_of_bytes (metadata_bytes pad md) = md"
  by (cases pad rule: list.exhaust [case_product list.exhaust]) (simp_all add: metadata_bytes_def metadata_of_bytes_def)

lemma length_metadata_bytes: "length (metadata_bytes pad md) = 32"
  by (simp add: metadata_bytes_def)

lemma prepare_eq:
  "saved sbv \<Longrightarrow> sb_version_new_version_prepare sbv =
     Some (md_next_version (sbv_metadata sbv), with_metadata (prepare_md (sbv_metadata sbv)))"
  by (simp add: sb_version_new_version_prepare_def write_metadata_eq saved_length prepare_md_def Let_def)

lemma done_eq: "saved sbv \<Longrightarrow> sb_version_new_version_done sbv = Some (with_metadata (done_md (sbv_metadata sbv)))"
  by (simp add: sb_version_new_version_done_def write_metadata_eq saved_length done_md_def)

lemma commit_eq: "saved sbv \<Longrightarrow> sb_version_new_version_commit sbv = Some (with_metadata (commit_md (sbv_metadata sbv)))"
  by (simp add: sb_version_new_version_commit_def write_metadata_eq saved_length commit_md_def Let_def)

lemma recover_eq: "saved sbv \<Longrightarrow> sb_version_local_recover sbv = Some (with_metadata (recover_md (sbv_metadata sbv)))"
  by (simp add: sb_version_local_recover_def recover_md_def commit_eq saved_eq Let_def)

lemma update_eq:
  assumes s: "saved sbv"
  shows "sb_version_update_from buffer sbv = Some (with_metadata (update_md (metadata_of_bytes buffer) (sbv_metadata sbv)))"
proof -
  let ?md = "sbv_metadata sbv" and ?msg = "metadata_of_bytes buffer"
  have len: "length (sbv_fmap sbv) = SB_METADATA_FILE_SIZE" using s by (rule saved_length)
  consider "md_version ?msg < md_version ?md \<or> md_next_version ?msg < md_next_version ?md"
    | "\<not> (md_version ?msg < md_version ?md \<or> md_next_version ?msg < md_next_version ?md)"
      "md_next_version ?md < md_next_version ?msg"
    | "\<not> (md_version ?msg < md_version ?md \<or> md_next_version ?msg < md_next_version ?md)"
      "md_next_version ?md = md_next_version ?msg"
    by fastforce
  then show ?thesis
  proof cases
    case 1
    then show ?thesis using s by (simp add: sb_version_update_from_def update_md_def Let_def saved_eq)
  next
    case 2
    then show ?thesis
      by (auto simp: sb_version_update_from_def update_md_def Let_def write_metadata_eq len sb_metadata_matches_def not_less)
  next
    case 3
    have same: "with_metadata (?md\<lparr> md_next_version := md_next_version ?msg \<rparr>) = sbv"
      unfolding 3(2) [symmetric] using saved_eq [OF s] by simp
    show ?thesis
    proof (cases "md_version ?msg = md_version ?md")
      case True
      with 3 show ?thesis by (simp add: sb_version_update_from_def update_md_def Let_def sb_metadata_matches_def same)
    next
      case False
      with 3 show ?thesis by (simp add: sb_version_update_from_def update_md_def Let_def write_metadata_eq len)
    qed
  qed
qed

lemma recover_step: "STEP_IS_VALID (pending_step md) \<Longrightarrow> STEP_IS_VALID (pending_step (recover_md md))"
  by (simp add: recover_md_def commit_md_def)

lemma update_step:
  "STEP_IS_VALID (pending_step md) \<Longrightarrow> STEP_IS_VALID (pending_step msg) \<Longrightarrow> STEP_IS_VALID (pending_step (update_md msg md))"
  by (simp add: update_md_def)

lemma create_eq:
  "sb_version_create None valid = Some (with_metadata (initial_metadata valid))" "sb_version_create (Some c) valid = None"
  by (simp_all add: sb_version_create_def os_fmap_create_def to_text_eq metadata_file_def [symmetric] write_whole with_metadata_def)

lemma saved_initial: "saved (with_metadata (initial_metadata valid))"
  by (rule saved_with) (simp add: initial_metadata_def)

text \<open>C0: the file of a node is always what the node knows. A node whose file holds its metadata finds
  them again when it is loaded; a new file holds the initial metadata; and preparing, noting,
  committing and recovering a version and taking over the metadata of another node do not abort,
  and again leave the file with the metadata that result.\<close>

theorem version_file_durable:
  assumes s: "saved sbv" and msg: "STEP_IS_VALID (pending_step msg)"
  shows "sb_version_load (Some (sbv_fmap sbv)) = Some sbv \<and>
    (\<exists>s'. sb_version_create None valid = Some s' \<and> sbv_metadata s' = initial_metadata valid \<and> saved s') \<and>
    (\<exists>s'. sb_version_new_version_prepare sbv = Some (md_next_version (sbv_metadata sbv), s') \<and> saved s' \<and>
       sb_version_get_version s' = sb_version_get_version sbv \<and> pending_version (sbv_metadata s') = md_next_version (sbv_metadata sbv)) \<and>
    (\<exists>s'. sb_version_new_version_done sbv = Some s' \<and> saved s' \<and> sb_version_get_version s' = sb_version_get_version sbv) \<and>
    (\<exists>s'. sb_version_new_version_commit sbv = Some s' \<and> saved s' \<and> sb_version_get_version s' = pending_version (sbv_metadata sbv)) \<and>
    (\<exists>s'. sb_version_local_recover sbv = Some s' \<and> saved s' \<and>
       sb_version_get_version s' = (if pending_step (sbv_metadata sbv) = SBV_DONE then pending_version (sbv_metadata sbv) else sb_version_get_version sbv)) \<and>
    (\<exists>s'. sb_version_update_from (metadata_bytes pad msg) sbv = Some s' \<and> saved s' \<and>
       sb_version_get_version sbv \<le> sb_version_get_version s' \<and> md_next_version (sbv_metadata sbv) \<le> md_next_version (sbv_metadata s'))"
    (is "?load \<and> ?new \<and> ?prepare \<and> ?finish \<and> ?commit \<and> ?recover \<and> ?update")
proof -
  have step: "STEP_IS_VALID (pending_step (sbv_metadata sbv))" using s by (simp add: saved_def)
  note ops = prepare_eq [OF s] done_eq [OF s] commit_eq [OF s] recover_eq [OF s] update_eq [OF s] create_eq sb_version_get_version_def
  have ?load using s by (rule load_saved)
  moreover have ?new using saved_initial by (simp add: ops)
  moreover have ?prepare by (simp add: ops saved_with prepare_md_def)
  moreover have ?finish by (simp add: ops saved_with done_md_def)
  moreover have ?commit by (simp add: ops saved_with commit_md_def)
  moreover have ?recover using step by (simp add: ops saved_with recover_step) (simp add: recover_md_def commit_md_def)
  moreover have ?update using update_step [OF step msg] by (simp add: ops saved_with) (auto simp: update_md_def)
  ultimately show ?thesis by blast
qed

theorem version_file_durable_witness:
  "\<exists>s. sb_version_new None = Some s \<and> sb_version_load (Some (sbv_fmap s)) = Some s \<and>
     (\<exists>t. sb_version_new_version_commit s = Some t \<and> saved t \<and> sb_version_get_version t = 2)"
  using version_file_durable [OF saved_initial [of True], of "initial_metadata True" True "[]"]
  by (simp add: sb_version_new_def create_eq) (simp add: initial_metadata_def)

end
