(* ===== verification/Sb_Version_Cluster.thy ===== *)
theory Sb_Version_Cluster
  imports Sb_Version Vrt_Prediction
begin

text \<open>
  The versions of the superblocks of a group in the cluster (\<open>admind/services/vrt/vrt_utils.c\<close>). To
  write the superblocks all nodes prepare a version, write it, meet at a barrier, note that the
  version is done, meet at a second barrier and commit. After a failure the nodes that are left
  recover their own step, broadcast their metadata and take over what the others know.

  What a node gets from the others (the replies to a broadcast, with \<open>None\<close> for a node that is
  down, and the results of the barriers) and from the virtualizer are arguments of the operations.
  \<open>round_step\<close> runs \<open>adm_vrt_group_sync_sb\<close> on all the members in any order, with crashes at any
  moment. A barrier succeeds only if every member came to it with success. It may fail as soon as
  one of them is down, even if its message was sent: the messages of a node may be lost after the
  failure is seen (\<open>admind/src/rpc.c\<close>).

  \<open>version_sync_agreement\<close> tells exactly when the exchange makes the nodes agree,
  \<open>version_round_recovery\<close> that it does after one interrupted round, and \<open>version_divergence\<close>
  that it may not after two.
\<close>

datatype adm_ret = EXA_SUCCESS | ADMIND_ERR_NODE_DOWN | VRT_ERR_GROUP_NOT_ADMINISTRABLE | Other_Error

section \<open>Recovery\<close>

definition update_from_reply :: "byte list option \<Rightarrow> sb_version \<Rightarrow> sb_version option" where
  "update_from_reply reply sbv = (case reply of None \<Rightarrow> Some sbv | Some sb_ser \<Rightarrow> sb_version_update_from sb_ser sbv)"

text \<open>The returned code is always that of the end of the replies, a success.\<close>

definition vrt_group_sync_sb_versions ::
  "(byte list \<Rightarrow> byte list option list) \<Rightarrow> byte list \<Rightarrow> sb_version \<Rightarrow> (adm_ret \<times> sb_version) option" where
  "vrt_group_sync_sb_versions bcast pad sbv = do {
     sbv \<leftarrow> sb_version_local_recover sbv;
     sbv \<leftarrow> for_each update_from_reply (bcast (sb_version_serialize pad sbv)) sbv;
     exa_assert (sb_version_is_valid sbv);
     Some (EXA_SUCCESS, sbv) }"

section \<open>Writing a version\<close>

record sync_info =
  group_is_started :: bool
  can_write :: bool
  have_disk_in_group :: bool

text \<open>Whether the superblocks are to be written, from the replies of all the nodes.\<close>

definition sync_decision :: "sync_info option list \<Rightarrow> adm_ret option option" where
  "sync_decision replies =
     (let infos = map the (filter (\<lambda>r. r \<noteq> None) replies);
          nb_nodes_with_writable_disks = of_nat (length (filter can_write infos));
          nb_nodes_with_disks_in_group = of_nat (length (filter have_disk_in_group infos)) in
      if None \<in> set replies then Some (Some ADMIND_ERR_NODE_DOWN)
      else if \<not> (\<exists>i \<in> set infos. group_is_started i) then Some (Some EXA_SUCCESS)
      else do {
        needed \<leftarrow> quotient_ceil64 nb_nodes_with_disks_in_group 2;
        Some (if nb_nodes_with_writable_disks < needed then Some VRT_ERR_GROUP_NOT_ADMINISTRABLE else None) })"

text \<open>The virtualizer writes the superblocks, if the group is started here.\<close>

definition write_superblocks :: "bool \<Rightarrow> (64 word \<Rightarrow> 64 word \<Rightarrow> adm_ret) \<Rightarrow> 64 word \<Rightarrow> 64 word \<Rightarrow> adm_ret option" where
  "write_superblocks started vrt_client_group_sync_sb old_sb_version new_sb_version =
     (if started then do {
        let ret = vrt_client_group_sync_sb old_sb_version new_sb_version;
        exa_assert (ret = EXA_SUCCESS \<or> ret = ADMIND_ERR_NODE_DOWN);
        Some ret }
      else Some EXA_SUCCESS)"

definition adm_vrt_group_sync_sb ::
  "bool \<Rightarrow> sync_info option list \<Rightarrow> (64 word \<Rightarrow> 64 word \<Rightarrow> adm_ret) \<Rightarrow> (adm_ret \<Rightarrow> adm_ret) \<Rightarrow> (adm_ret \<Rightarrow> adm_ret) \<Rightarrow>
    sb_version \<Rightarrow> (adm_ret \<times> sb_version) option" where
  "adm_vrt_group_sync_sb started replies vrt_client_group_sync_sb barrier1 barrier2 sbv =
     do { decision \<leftarrow> sync_decision replies;
       case decision of
        Some ret \<Rightarrow> Some (ret, sbv)
      | None \<Rightarrow> do {
          let old_sb_version = sb_version_get_version sbv;
          (new_sb_version, sbv) \<leftarrow> sb_version_new_version_prepare sbv;
          ret \<leftarrow> write_superblocks started vrt_client_group_sync_sb old_sb_version new_sb_version;
          let barrier_ret = barrier1 ret;
          if barrier_ret \<noteq> EXA_SUCCESS then Some (barrier_ret, sbv)
          else do {
            sbv \<leftarrow> sb_version_new_version_done sbv;
            let barrier_ret = barrier2 EXA_SUCCESS;
            sbv \<leftarrow> sb_version_new_version_commit sbv;
            Some (barrier_ret, sbv) } } }"

section \<open>The nodes together\<close>

text \<open>Where a node is in \<open>adm_vrt_group_sync_sb\<close>, and the next part of it: \<open>b\<close> is the result of the
  barrier it is waiting at.\<close>

datatype stage = Ready | Writing "64 word" "64 word" | Barrier1 adm_ret | Barrier2 | Returned adm_ret

fun sync_step ::
  "bool \<Rightarrow> (64 word \<Rightarrow> 64 word \<Rightarrow> adm_ret) \<Rightarrow> adm_ret \<Rightarrow> stage \<Rightarrow> sb_version \<Rightarrow> (stage \<times> sb_version) option" where
  "sync_step started vrt b Ready sbv = do {
     (new, sbv') \<leftarrow> sb_version_new_version_prepare sbv;
     Some (Writing (sb_version_get_version sbv) new, sbv') }"
| "sync_step started vrt b (Writing old new) sbv = do {
     ret \<leftarrow> write_superblocks started vrt old new;
     Some (Barrier1 ret, sbv) }"
| "sync_step started vrt b (Barrier1 ret) sbv =
     (if b \<noteq> EXA_SUCCESS then Some (Returned b, sbv)
      else do {
        sbv \<leftarrow> sb_version_new_version_done sbv;
        Some (Barrier2, sbv) })"
| "sync_step started vrt b Barrier2 sbv = do {
     sbv \<leftarrow> sb_version_new_version_commit sbv;
     Some (Returned b, sbv) }"
| "sync_step started vrt b (Returned ret) sbv = Some (Returned ret, sbv)"

record cluster =
  cl_node :: "nat \<Rightarrow> sb_version"
  cl_stage :: "nat \<Rightarrow> stage"
  cl_down :: "nat set"
  cl_sent :: "nat \<Rightarrow> adm_ret option"

definition sent_by :: "stage \<Rightarrow> adm_ret option \<Rightarrow> adm_ret option" where
  "sent_by st old = (case st of Barrier1 ret \<Rightarrow> Some ret | _ \<Rightarrow> old)"

definition barrier_result :: "nat set \<Rightarrow> cluster \<Rightarrow> adm_ret \<Rightarrow> bool" where
  "barrier_result U c b \<longleftrightarrow>
     (if b = EXA_SUCCESS then \<forall>m \<in> U. cl_sent c m = Some EXA_SUCCESS
      else \<exists>m \<in> U. m \<in> cl_down c \<or> (cl_sent c m \<noteq> None \<and> cl_sent c m \<noteq> Some EXA_SUCCESS))"

definition barrier_allows :: "nat set \<Rightarrow> cluster \<Rightarrow> stage \<Rightarrow> adm_ret \<Rightarrow> bool" where
  "barrier_allows U c st b = (case st of Barrier1 _ \<Rightarrow> barrier_result U c b | _ \<Rightarrow> True)"

inductive round_step :: "nat set \<Rightarrow> cluster \<Rightarrow> cluster \<Rightarrow> bool" for U where
  advance: "n \<in> U \<Longrightarrow> n \<notin> cl_down c \<Longrightarrow> barrier_allows U c (cl_stage c n) b \<Longrightarrow>
    sync_step started vrt b (cl_stage c n) (cl_node c n) = Some (st, sbv) \<Longrightarrow>
    round_step U c (c\<lparr> cl_node := (cl_node c)(n := sbv), cl_stage := (cl_stage c)(n := st),
      cl_sent := (cl_sent c)(n := sent_by st (cl_sent c n)) \<rparr>)"
| crash: "n \<in> U \<Longrightarrow> round_step U c (c\<lparr> cl_down := insert n (cl_down c) \<rparr>)"

text \<open>The members enter a round in agreement, with version \<open>v\<close> and the next version \<open>x\<close>.\<close>

definition start :: "(nat \<Rightarrow> sb_version) \<Rightarrow> cluster" where
  "start nodes = \<lparr> cl_node = nodes, cl_stage = (\<lambda>_. Ready), cl_down = {}, cl_sent = (\<lambda>_. None) \<rparr>"

definition agreed :: "nat set \<Rightarrow> 64 word \<Rightarrow> 64 word \<Rightarrow> (nat \<Rightarrow> sb_version) \<Rightarrow> bool" where
  "agreed U v x nodes \<longleftrightarrow> (\<forall>n \<in> U. saved (nodes n) \<and> md_version (sbv_metadata (nodes n)) = v \<and>
     md_next_version (sbv_metadata (nodes n)) = x \<and> pending_step (sbv_metadata (nodes n)) \<noteq> SBV_DONE)"

definition round_init :: "nat set \<Rightarrow> 64 word \<Rightarrow> 64 word \<Rightarrow> cluster \<Rightarrow> bool" where
  "round_init U v x c \<longleftrightarrow> (\<exists>nodes. c = start nodes \<and> agreed U v x nodes)"

text \<open>Recovery from the files: what a node broadcasts, and what it becomes when the replies come in
  the order \<open>ms\<close>.\<close>

definition broadcast :: "byte list \<Rightarrow> sb_version \<Rightarrow> byte list option" where
  "broadcast pad sbv = do {
     sbv \<leftarrow> sb_version_load (Some (sbv_fmap sbv));
     sbv \<leftarrow> sb_version_local_recover sbv;
     Some (sb_version_serialize pad sbv) }"

definition recover_node :: "(nat \<Rightarrow> byte list) \<Rightarrow> nat list \<Rightarrow> (nat \<Rightarrow> sb_version) \<Rightarrow> nat \<Rightarrow> sb_version option" where
  "recover_node pads ms nodes n = do {
     sbv \<leftarrow> sb_version_load (Some (sbv_fmap (nodes n)));
     (ret, sbv) \<leftarrow> vrt_group_sync_sb_versions (\<lambda>_. map (\<lambda>m. broadcast (pads m) (nodes m)) ms) (pads n) sbv;
     Some sbv }"

text \<open>A node runs exactly the parts of \<open>adm_vrt_group_sync_sb\<close>.\<close>

lemma adm_vrt_group_sync_sb_steps:
  assumes "sync_decision replies = Some None"
  shows "adm_vrt_group_sync_sb started replies vrt barrier1 barrier2 sbv = do {
     (st1, sbv) \<leftarrow> sync_step started vrt EXA_SUCCESS Ready sbv;
     (st2, sbv) \<leftarrow> sync_step started vrt EXA_SUCCESS st1 sbv;
     (st3, sbv) \<leftarrow> sync_step started vrt (case st2 of Barrier1 ret \<Rightarrow> barrier1 ret | _ \<Rightarrow> EXA_SUCCESS) st2 sbv;
     (st4, sbv) \<leftarrow> sync_step started vrt (barrier2 EXA_SUCCESS) st3 sbv;
     case st4 of Returned ret \<Rightarrow> Some (ret, sbv) | _ \<Rightarrow> None }"
  using assms unfolding adm_vrt_group_sync_sb_def
  by (auto simp: Let_def split: option.split prod.split bind_split)

section \<open>When the exchange makes the nodes agree\<close>

definition dominates :: "sb_metadata \<Rightarrow> sb_metadata \<Rightarrow> bool" where
  "dominates a b \<longleftrightarrow> md_version b \<le> md_version a \<and> md_next_version b \<le> md_next_version a"

lemma dominates_refl [simp]: "dominates a a"
  by (simp add: dominates_def)

lemma dominates_trans: "dominates a b \<Longrightarrow> dominates b c \<Longrightarrow> dominates a c"
  by (auto simp: dominates_def)

lemma dominates_antisym: "dominates a b \<Longrightarrow> dominates b a \<Longrightarrow> sb_metadata_matches a b"
  by (auto simp: dominates_def sb_metadata_matches_def)

lemma matches_dominates: "sb_metadata_matches a b \<Longrightarrow> dominates a b \<and> dominates b a"
  by (simp add: dominates_def sb_metadata_matches_def)

lemma update_grows: "dominates (update_md msg md) md"
  by (auto simp: dominates_def update_md_def)

lemma update_bounded: "dominates d msg \<Longrightarrow> dominates d md \<Longrightarrow> dominates d (update_md msg md)"
  by (auto simp: dominates_def update_md_def)

lemma update_takes: "dominates msg md \<Longrightarrow> sb_metadata_matches msg (update_md msg md)"
  by (auto simp: dominates_def update_md_def sb_metadata_matches_def)

lemma fold_update_grows: "dominates (fold update_md msgs md) md"
proof (induction msgs arbitrary: md)
  case (Cons msg msgs)
  from dominates_trans [OF Cons [of "update_md msg md"] update_grows] show ?case by simp
qed simp

lemma fold_update_bounded: "\<forall>msg \<in> set msgs. dominates d msg \<Longrightarrow> dominates d md \<Longrightarrow> dominates d (fold update_md msgs md)"
  by (induction msgs arbitrary: md) (simp_all add: update_bounded)

lemma fold_update_top:
  assumes d: "d \<in> set msgs" and top: "\<forall>msg \<in> set msgs. dominates d msg" "dominates d md"
  shows "sb_metadata_matches d (fold update_md msgs md)"
proof (rule dominates_antisym)
  show "dominates d (fold update_md msgs md)" using top by (rule fold_update_bounded)
  obtain as bs where msgs: "msgs = as @ d # bs" using d by (auto simp: in_set_conv_decomp)
  have "dominates d (fold update_md as md)" using top msgs by (intro fold_update_bounded) auto
  from matches_dominates [OF update_takes [OF this]]
  have "dominates (fold update_md (d # bs) (fold update_md as md)) d"
    using fold_update_grows [of bs "update_md d (fold update_md as md)"] dominates_trans by (metis fold_simps(2))
  then show "dominates (fold update_md msgs md) d" by (simp add: msgs)
qed

lemma fold_update_next:
  "md_next_version (fold update_md msgs md) = md_next_version md \<or>
   (\<exists>msg \<in> set msgs. md_next_version msg = md_next_version (fold update_md msgs md) \<and> md_version md \<le> md_version msg)"
proof (induction msgs arbitrary: md)
  case (Cons msg msgs)
  have grow: "md_version md \<le> md_version (update_md msg md)" using update_grows by (simp add: dominates_def)
  have "md_next_version (update_md msg md) = md_next_version md \<or>
      md_next_version (update_md msg md) = md_next_version msg \<and> md_version md \<le> md_version msg"
    by (auto simp: update_md_def)
  with Cons [of "update_md msg md"] grow order_trans [OF grow] show ?case by auto
qed simp

text \<open>Whatever the order of the messages, the nodes agree exactly when one of them knows the most.\<close>

lemma fold_update_agreement:
  assumes W: "finite W" "W \<noteq> {}" and msgs: "\<And>n. n \<in> W \<Longrightarrow> set (msgs n) = md ` W"
  shows "(\<forall>n \<in> W. \<forall>m \<in> W. sb_metadata_matches (fold update_md (msgs n) (md n)) (fold update_md (msgs m) (md m))) \<longleftrightarrow>
    (\<exists>d \<in> W. \<forall>m \<in> W. dominates (md d) (md m))"
    (is "?agree \<longleftrightarrow> ?top")
proof
  assume agree: ?agree
  let ?f = "\<lambda>n. fold update_md (msgs n) (md n)"
  have "\<exists>a \<in> W. \<forall>m \<in> W. md_version (md m) \<le> md_version (md a)"
    using Max_ge [of "(\<lambda>m. md_version (md m)) ` W"] Max_in [of "(\<lambda>m. md_version (md m)) ` W"] W by fastforce
  then obtain a where a: "a \<in> W" "\<forall>m \<in> W. md_version (md m) \<le> md_version (md a)" by blast
  have nexts: "md_next_version (md m) \<le> md_next_version (?f a)" if "m \<in> W" for m
  proof -
    have "sb_metadata_matches (?f m) (?f a)" using agree that a(1) by blast
    with fold_update_grows [of "msgs m" "md m"] show ?thesis by (simp add: dominates_def sb_metadata_matches_def)
  qed
  obtain d where "d \<in> W" "md_next_version (md d) = md_next_version (?f a)" "md_version (md a) \<le> md_version (md d)"
    using fold_update_next [of "msgs a" "md a"] msgs [OF a(1)] a(1) by auto
  then show ?top using a(2) nexts by (auto simp: dominates_def intro!: bexI [of _ d])
next
  assume ?top
  then obtain d where d: "d \<in> W" "\<forall>m \<in> W. dominates (md d) (md m)" by blast
  have "sb_metadata_matches (md d) (fold update_md (msgs n) (md n))" if "n \<in> W" for n
    using msgs [OF that] d that by (intro fold_update_top) auto
  then show ?agree unfolding sb_metadata_matches_def by metis
qed

text \<open>A node that has a valid version has one in the end, and so has one that knows nothing.\<close>

definition unknown :: "sb_metadata \<Rightarrow> bool" where
  "unknown md \<longleftrightarrow> md_version md = 0 \<and> md_next_version md = 0"

lemma fold_update_valid:
  assumes "\<exists>msg \<in> set msgs. md_version msg > 0" "md_version md > 0 \<or> unknown md" "\<forall>msg \<in> set msgs. md_version msg > 0 \<or> unknown msg"
  shows "md_version (fold update_md msgs md) > 0"
  using assms
proof (induction msgs arbitrary: md)
  case (Cons msg msgs)
  show ?case
  proof (cases "md_version md > 0 \<or> md_version msg > 0")
    case True
    then have "md_version (update_md msg md) > 0"
      using Cons.prems(2) by (auto simp: update_md_def unknown_def word_neq_0_conv [symmetric])
    then show ?thesis using fold_update_grows [of msgs "update_md msg md"] by (auto simp: dominates_def)
  next
    case False
    then have "unknown md" "unknown msg" "\<exists>msg \<in> set msgs. md_version msg > 0" using Cons.prems by auto
    moreover from this have "unknown (update_md msg md)" by (simp add: update_md_def unknown_def)
    ultimately show ?thesis using Cons.prems Cons.IH by simp
  qed
qed simp

section \<open>The exchange on the nodes\<close>

lemma broadcast_eq: "saved sbv \<Longrightarrow> broadcast pad sbv = Some (metadata_bytes pad (recover_md (sbv_metadata sbv)))"
  by (simp add: broadcast_def load_saved recover_eq sb_version_serialize_def)

lemma for_each_update:
  assumes "STEP_IS_VALID (pending_step md)" "\<forall>msg \<in> set msgs. STEP_IS_VALID (pending_step msg)"
  shows "for_each update_from_reply (map (\<lambda>(pad, msg). Some (metadata_bytes pad msg)) (zip pads msgs)) (with_metadata md) =
      Some (with_metadata (fold update_md (map snd (zip pads msgs)) md)) \<and>
    STEP_IS_VALID (pending_step (fold update_md (map snd (zip pads msgs)) md))"
  using assms
proof (induction pads msgs arbitrary: md rule: list_induct2')
  case (4 pad pads msg msgs)
  have "STEP_IS_VALID (pending_step (update_md msg md))" using 4 by (intro update_step) auto
  with 4 show ?case by (simp add: update_from_reply_def update_eq saved_with)
qed simp_all

lemma recover_node_eq:
  assumes saved: "saved (nodes n)" "\<forall>m \<in> set ms. saved (nodes m)"
    and md: "md = (\<lambda>m. recover_md (sbv_metadata (nodes m)))"
  shows "recover_node pads ms nodes n =
      (if md_version (fold update_md (map md ms) (md n)) > 0 then Some (with_metadata (fold update_md (map md ms) (md n))) else None)"
    and "STEP_IS_VALID (pending_step (fold update_md (map md ms) (md n)))"
proof -
  have steps: "STEP_IS_VALID (pending_step (md n))" "\<forall>msg \<in> set (map md ms). STEP_IS_VALID (pending_step msg)"
    using saved unfolding md by (auto simp: saved_def recover_step)
  have "map (\<lambda>m. broadcast (pads m) (nodes m)) ms = map (\<lambda>(pad, msg). Some (metadata_bytes pad msg)) (zip (map pads ms) (map md ms))"
    using saved(2) unfolding md by (induction ms) (simp_all add: broadcast_eq)
  moreover have "map snd (zip (map pads ms) (map md ms)) = map md ms" by simp
  ultimately have "for_each update_from_reply (map (\<lambda>m. broadcast (pads m) (nodes m)) ms) (with_metadata (md n)) =
      Some (with_metadata (fold update_md (map md ms) (md n))) \<and> STEP_IS_VALID (pending_step (fold update_md (map md ms) (md n)))"
    using for_each_update [OF steps, of "map pads ms"] by simp
  then show "STEP_IS_VALID (pending_step (fold update_md (map md ms) (md n)))"
    "recover_node pads ms nodes n =
      (if md_version (fold update_md (map md ms) (md n)) > 0 then Some (with_metadata (fold update_md (map md ms) (md n))) else None)"
    using saved(1) by (simp_all add: recover_node_def load_saved vrt_group_sync_sb_versions_def recover_eq md sb_version_is_valid_def)
qed

definition knowledge :: "(nat \<Rightarrow> sb_version) \<Rightarrow> nat \<Rightarrow> sb_metadata" where
  "knowledge nodes n = recover_md (sbv_metadata (nodes n))"

text \<open>C0: when the exchange of versions makes the nodes agree. The nodes of \<open>W\<close> recover from their
  files and each gets the messages of all, in any order. None of them aborts, each has its result
  in its file, and they have the same version and the same next version exactly when there is one
  among them whose version and whose next version are both the highest after its own recovery.\<close>

theorem version_sync_agreement:
  assumes W: "finite W" "W \<noteq> {}" and saved: "\<forall>n \<in> W. saved (nodes n)" and order: "\<forall>n \<in> W. set (order n) = W"
    and valid: "\<exists>n \<in> W. md_version (knowledge nodes n) > 0" "\<forall>n \<in> W. md_version (knowledge nodes n) > 0 \<or> unknown (knowledge nodes n)"
  shows "\<exists>res. (\<forall>n \<in> W. recover_node pads (order n) nodes n = Some (res n) \<and> saved (res n)) \<and>
    ((\<forall>n \<in> W. \<forall>m \<in> W. sb_metadata_matches (sbv_metadata (res n)) (sbv_metadata (res m))) \<longleftrightarrow>
     (\<exists>d \<in> W. \<forall>m \<in> W. dominates (knowledge nodes d) (knowledge nodes m)))"
proof -
  let ?K = "knowledge nodes" and ?msgs = "\<lambda>n. map (knowledge nodes) (order n)"
  let ?res = "\<lambda>n. with_metadata (fold update_md (?msgs n) (?K n))"
  have "recover_node pads (order n) nodes n = Some (?res n) \<and> saved (?res n)" if n: "n \<in> W" for n
  proof -
    have s: "saved (nodes n)" "\<forall>m \<in> set (order n). saved (nodes m)" "set (order n) = W" using saved order n by auto
    have K: "?K = (\<lambda>m. recover_md (sbv_metadata (nodes m)))" by (simp add: knowledge_def fun_eq_iff)
    note r = recover_node_eq [where nodes = nodes and n = n and ms = "order n", OF s(1,2) K]
    have "md_version (fold update_md (?msgs n) (?K n)) > 0"
      using valid n s(3) by (intro fold_update_valid) auto
    with r show ?thesis by (simp add: saved_with)
  qed
  moreover have "set (?msgs n) = ?K ` W" if "n \<in> W" for n using order that by simp
  note fold_update_agreement [of W ?msgs ?K, OF W this]
  ultimately show ?thesis by (intro exI [of _ ?res] conjI) auto
qed

definition example_version :: "64 word \<Rightarrow> 64 word \<Rightarrow> 32 word \<Rightarrow> 64 word \<Rightarrow> sb_metadata" where
  "example_version v x s p = \<lparr> md_version = v, md_next_version = x, pending_step = s, pending_version = p \<rparr>"

theorem version_sync_agreement_witness:
  "\<exists>a b. recover_node (\<lambda>_. []) [1, 0] (\<lambda>n. with_metadata (if n = 0 then example_version 4 6 SBV_DONE 5 else initial_metadata False)) 0 = Some a \<and>
     recover_node (\<lambda>_. []) [0, 1] (\<lambda>n. with_metadata (if n = 0 then example_version 4 6 SBV_DONE 5 else initial_metadata False)) 1 = Some b \<and>
     sb_metadata_matches (sbv_metadata a) (sbv_metadata b)"
proof -
  let ?nodes = "\<lambda>n :: nat. with_metadata (if n = 0 then example_version 4 6 SBV_DONE 5 else initial_metadata False)"
  have K: "knowledge ?nodes 0 = example_version 5 6 SBV_COMMITED 5" "knowledge ?nodes (Suc 0) = initial_metadata False"
    by (simp_all add: knowledge_def recover_md_def commit_md_def example_version_def initial_metadata_def)
  have "\<exists>res. (\<forall>n \<in> {0, 1}. recover_node (\<lambda>_. []) ((\<lambda>n. if n = 0 then [1, 0] else [0, 1]) n) ?nodes n = Some (res n) \<and> saved (res n)) \<and>
    ((\<forall>n \<in> {0, 1}. \<forall>m \<in> {0, 1}. sb_metadata_matches (sbv_metadata (res n)) (sbv_metadata (res m))) \<longleftrightarrow>
     (\<exists>d \<in> {0, 1}. \<forall>m \<in> {0, 1}. dominates (knowledge ?nodes d) (knowledge ?nodes m)))"
    by (rule version_sync_agreement)
      (simp_all add: K saved_initial insert_commute, simp_all add: saved_with example_version_def initial_metadata_def unknown_def)
  then obtain res where res: "\<forall>n \<in> {0, 1}. recover_node (\<lambda>_. []) ((\<lambda>n. if n = 0 then [1, 0] else [0, 1]) n) ?nodes n = Some (res n)"
    "(\<forall>n \<in> {0, 1}. \<forall>m \<in> {0, 1}. sb_metadata_matches (sbv_metadata (res n)) (sbv_metadata (res m))) \<longleftrightarrow>
     (\<exists>d \<in> {0, 1}. \<forall>m \<in> {0, 1}. dominates (knowledge ?nodes d) (knowledge ?nodes m))" by blast
  have "\<forall>m \<in> {0, 1}. dominates (knowledge ?nodes 0) (knowledge ?nodes m)"
    using K by (simp add: dominates_def example_version_def initial_metadata_def)
  with res(2) have "sb_metadata_matches (sbv_metadata (res 0)) (sbv_metadata (res 1))" by blast
  with res(1) show ?thesis by (intro exI [of _ "res 0"] exI [of _ "res 1"]) simp
qed

section \<open>One round with crashes\<close>

definition all_written :: "nat set \<Rightarrow> cluster \<Rightarrow> bool" where
  "all_written U c \<longleftrightarrow> (\<forall>m \<in> U. cl_sent c m = Some EXA_SUCCESS)"

definition is_prepared :: "64 word \<Rightarrow> 64 word \<Rightarrow> sb_metadata \<Rightarrow> bool" where
  "is_prepared v x md \<longleftrightarrow> md_version md = v \<and> md_next_version md = x + 1 \<and> pending_version md = x \<and> pending_step md = SBV_PREPARED"

definition is_done :: "64 word \<Rightarrow> 64 word \<Rightarrow> sb_metadata \<Rightarrow> bool" where
  "is_done v x md \<longleftrightarrow> md_version md = v \<and> md_next_version md = x + 1 \<and> pending_version md = x \<and> pending_step md = SBV_DONE"

definition is_committed :: "64 word \<Rightarrow> sb_metadata \<Rightarrow> bool" where
  "is_committed x md \<longleftrightarrow> md_version md = x \<and> md_next_version md = x + 1 \<and> pending_version md = x \<and> pending_step md = SBV_COMMITED"

definition stage_ok :: "64 word \<Rightarrow> 64 word \<Rightarrow> bool \<Rightarrow> stage \<Rightarrow> sb_metadata \<Rightarrow> bool" where
  "stage_ok v x w st md =
     (case st of
        Ready \<Rightarrow> md_version md = v \<and> md_next_version md = x \<and> pending_step md \<noteq> SBV_DONE
      | Writing _ _ \<Rightarrow> is_prepared v x md
      | Barrier1 _ \<Rightarrow> is_prepared v x md
      | Barrier2 \<Rightarrow> is_done v x md \<and> w
      | Returned _ \<Rightarrow> is_prepared v x md \<or> is_committed x md \<and> w)"

definition not_sent :: "stage \<Rightarrow> bool" where
  "not_sent st \<longleftrightarrow> (case st of Ready \<Rightarrow> True | Writing _ _ \<Rightarrow> True | _ \<Rightarrow> False)"

definition round_inv :: "nat set \<Rightarrow> 64 word \<Rightarrow> 64 word \<Rightarrow> cluster \<Rightarrow> bool" where
  "round_inv U v x c \<longleftrightarrow> (\<forall>n \<in> U. saved (cl_node c n) \<and>
     stage_ok v x (all_written U c) (cl_stage c n) (sbv_metadata (cl_node c n)) \<and>
     (not_sent (cl_stage c n) \<longrightarrow> cl_sent c n = None))"

lemmas stage_defs = stage_ok_def is_prepared_def is_done_def is_committed_def not_sent_def sent_by_def

lemma round_invD:
  assumes "round_inv U v x c" "n \<in> U"
  shows "saved (cl_node c n)" and "stage_ok v x (all_written U c) (cl_stage c n) (sbv_metadata (cl_node c n))"
    and "not_sent (cl_stage c n) \<Longrightarrow> cl_sent c n = None"
  using assms by (auto simp: round_inv_def)

lemma round_init_inv: "round_init U v x c \<Longrightarrow> round_inv U v x c"
  by (auto simp: round_init_def round_inv_def agreed_def start_def stage_ok_def)

text \<open>What a part of the round does to the metadata of its node.\<close>

lemma sync_step_cases:
  assumes s: "saved sbv" and step: "sync_step started vrt b st sbv = Some (st', sbv')"
  obtains (prepare) new where "st = Ready" "st' = Writing (sb_version_get_version sbv) new" "sbv' = with_metadata (prepare_md (sbv_metadata sbv))"
  | (sent) old new ret where "st = Writing old new" "st' = Barrier1 ret" "sbv' = sbv"
  | (abort) ret where "st = Barrier1 ret" "b \<noteq> EXA_SUCCESS" "st' = Returned b" "sbv' = sbv"
  | (finish) ret where "st = Barrier1 ret" "b = EXA_SUCCESS" "st' = Barrier2" "sbv' = with_metadata (done_md (sbv_metadata sbv))"
  | (commit) "st = Barrier2" "st' = Returned b" "sbv' = with_metadata (commit_md (sbv_metadata sbv))"
  | (returned) ret where "st = Returned ret" "st' = Returned ret" "sbv' = sbv"
proof (cases st)
  case Ready
  with step that(1) show thesis by (auto simp: prepare_eq [OF s])
next
  case (Writing old new)
  with step that(2) show thesis by (auto split: bind_splits)
next
  case (Barrier1 ret)
  with step that(3,4) show thesis by (cases "b = EXA_SUCCESS") (simp_all add: done_eq [OF s])
next
  case Barrier2
  with step that(5) show thesis by (simp add: commit_eq [OF s])
next
  case (Returned ret)
  with step that(6) show thesis by auto
qed

lemma sync_step_ok:
  assumes s: "saved sbv" and ok: "stage_ok v x w st (sbv_metadata sbv)" and step: "sync_step started vrt b st sbv = Some (st', sbv')"
    and bar: "\<And>ret. st = Barrier1 ret \<Longrightarrow> b = EXA_SUCCESS \<Longrightarrow> w"
  shows "saved sbv' \<and> stage_ok v x w st' (sbv_metadata sbv') \<and> (not_sent st' \<longrightarrow> not_sent st) \<and>
    (sent_by st' old \<noteq> old \<longrightarrow> not_sent st)  \<and> (not_sent st' \<longrightarrow> sent_by st' old = old)"
  using s step
proof (cases rule: sync_step_cases)
  case (finish ret)
  with ok bar s show ?thesis by (simp add: stage_defs done_md_def saved_with)
qed (use ok s in \<open>auto simp: stage_defs saved_with prepare_md_def commit_md_def\<close>)

lemma round_step_inv:
  assumes inv: "round_inv U v x c" and step: "round_step U c c'"
  shows "round_inv U v x c'"
  using step
proof cases
  case (advance n b started vrt st sbv)
  note I = round_invD [OF inv advance(2)]
  have bar: "all_written U c" if "cl_stage c n = Barrier1 ret" "b = EXA_SUCCESS" for ret
    using advance(4) that by (simp add: barrier_allows_def barrier_result_def all_written_def)
  have ok: "saved sbv \<and> stage_ok v x (all_written U c) st (sbv_metadata sbv) \<and> (not_sent st \<longrightarrow> not_sent (cl_stage c n)) \<and>
      (sent_by st (cl_sent c n) \<noteq> cl_sent c n \<longrightarrow> not_sent (cl_stage c n)) \<and> (not_sent st \<longrightarrow> sent_by st (cl_sent c n) = cl_sent c n)"
    by (rule sync_step_ok [OF I(1,2) advance(5)]) (rule bar)
  have w: "all_written U c \<longrightarrow> all_written U c'"
    using ok I(3) advance(2) unfolding advance(1) all_written_def by fastforce
  have mono: "stage_ok v x (all_written U c) st md \<Longrightarrow> stage_ok v x (all_written U c') st md" for st md
    using w by (auto simp: stage_defs split: stage.splits)
  show ?thesis unfolding round_inv_def
  proof
    fix m assume m: "m \<in> U"
    show "saved (cl_node c' m) \<and> stage_ok v x (all_written U c') (cl_stage c' m) (sbv_metadata (cl_node c' m)) \<and>
      (not_sent (cl_stage c' m) \<longrightarrow> cl_sent c' m = None)"
    proof (cases "m = n")
      case True
      then have c': "cl_node c' m = sbv" "cl_stage c' m = st" "cl_sent c' m = sent_by st (cl_sent c n)" by (simp_all add: advance(1))
      have "not_sent st \<longrightarrow> sent_by st (cl_sent c n) = None" using ok I(3) by metis
      then show ?thesis unfolding c' using ok mono [of st "sbv_metadata sbv"] by blast
    next
      case False
      then have "cl_node c' m = cl_node c m" "cl_stage c' m = cl_stage c m" "cl_sent c' m = cl_sent c m" by (simp_all add: advance(1))
      with round_invD [OF inv m] mono [of "cl_stage c m" "sbv_metadata (cl_node c m)"] show ?thesis by auto
    qed
  qed
next
  case (crash n)
  then show ?thesis using inv by (simp add: round_inv_def all_written_def)
qed

interpretation version_round: invariant_system "round_init U v x" "round_step U" "round_inv U v x" for U v x
  by unfold_locales (auto intro: round_init_inv round_step_inv)

text \<open>What a member knows after its own recovery, at any moment of the round.\<close>

lemma stage_knowledge:
  assumes "stage_ok v x w st (sbv_metadata (nodes n))"
  shows "(md_version (knowledge nodes n), md_next_version (knowledge nodes n)) \<in> {(v, x), (v, x + 1)} \<or>
      (md_version (knowledge nodes n) = x \<and> md_next_version (knowledge nodes n) = x + 1 \<and> w)"
    and "pending_step (knowledge nodes n) \<noteq> SBV_DONE"
    and "st = Barrier2 \<or> is_committed x (sbv_metadata (nodes n)) \<Longrightarrow> md_version (knowledge nodes n) = x"
  using assms by (cases st; auto simp: stage_defs knowledge_def recover_md_def commit_md_def)+

lemma update_not_done:
  "pending_step md \<noteq> SBV_DONE \<Longrightarrow> \<forall>msg \<in> set msgs. pending_step msg \<noteq> SBV_DONE \<Longrightarrow> pending_step (fold update_md msgs md) \<noteq> SBV_DONE"
  by (induction msgs arbitrary: md) (simp_all add: update_md_def)

lemma top_exists:
  assumes W: "finite W" "W \<noteq> {}" and x: "v < x" "x < x + 1"
    and K: "\<And>n. n \<in> W \<Longrightarrow> (md_version (K n), md_next_version (K n)) \<in> {(v, x), (v, x + 1), (x, x + 1)}"
  shows "\<exists>d \<in> W. \<forall>m \<in> W. dominates (K d) (K m)"
proof -
  consider d where "d \<in> W" "md_version (K d) = x" "md_next_version (K d) = x + 1"
    | d where "d \<in> W" "md_version (K d) = v" "md_next_version (K d) = x + 1" "\<forall>n \<in> W. md_version (K n) = v"
    | d where "d \<in> W" "\<forall>n \<in> W. md_version (K n) = v \<and> md_next_version (K n) = x"
    using K W(2) by (metis (no_types, lifting) all_not_in_conv insertE old.prod.inject singletonD)
  then show ?thesis
  proof cases
    case (1 d)
    have "dominates (K d) (K m)" if "m \<in> W" for m using K [OF that] 1 x by (auto simp: dominates_def)
    with 1(1) show ?thesis by blast
  next
    case (2 d)
    have "dominates (K d) (K m)" if "m \<in> W" for m using K [OF that] 2 x that by (auto simp: dominates_def)
    with 2(1) show ?thesis by blast
  next
    case (3 d)
    then show ?thesis by (auto simp: dominates_def)
  qed
qed

text \<open>C0: one interrupted write of the superblocks leaves a version that the nodes find again. The
  members \<open>U\<close> enter in agreement on version \<open>v\<close> and run the write of version \<open>x\<close> in any order, with
  any of them crashing at any moment. Whichever of them come back, with the messages in any order,
  they recover without an abort and agree, ready for the next write, on \<open>v\<close> or on \<open>x\<close>; on \<open>x\<close> only if
  every member has written its superblocks, and on \<open>x\<close> if one of them got beyond the first barrier.\<close>

theorem version_round_recovery:
  assumes c: "reach (round_init U v x) (round_step U) c" and W: "W \<subseteq> U" "finite W" "W \<noteq> {}"
    and order: "\<forall>n \<in> W. set (order n) = W" and v: "0 < v" "v < x" "x < x + 1"
  shows "\<exists>w y res. (\<forall>n \<in> W. recover_node pads (order n) (cl_node c) n = Some (res n)) \<and> agreed W w y res \<and> w < y \<and>
    (w = v \<or> w = x \<and> all_written U c) \<and>
    ((\<exists>n \<in> W. cl_stage c n = Barrier2 \<or> is_committed x (sbv_metadata (cl_node c n))) \<longrightarrow> w = x)"
proof -
  let ?K = "knowledge (cl_node c)" and ?msgs = "\<lambda>n. map (knowledge (cl_node c)) (order n)"
  let ?res = "\<lambda>n. with_metadata (fold update_md (?msgs n) (?K n))"
  have inv: "round_inv U v x c" using c by (rule version_round.reach_inv)
  note I = round_invD [OF inv subsetD [OF W(1)]]
  note K = stage_knowledge [where nodes = "cl_node c", OF I(2)]
  have "(md_version (?K n), md_next_version (?K n)) \<in> {(v, x), (v, x + 1), (x, x + 1)}" if "n \<in> W" for n
    using K(1) [OF that] by auto
  from top_exists [of W v x ?K, OF W(2,3) v(2,3) this]
  obtain d where d: "d \<in> W" "\<forall>m \<in> W. dominates (?K d) (?K m)" by blast
  have top: "sb_metadata_matches (?K d) (fold update_md (?msgs n) (?K n))" if "n \<in> W" for n
    using d order that by (intro fold_update_top) auto
  have pos: "md_version (?K d) > 0" using K(1) [OF d(1)] v by auto
  have res: "recover_node pads (order n) (cl_node c) n = Some (?res n) \<and> saved (?res n)" if n: "n \<in> W" for n
  proof -
    have s: "\<forall>m \<in> set (order n). saved (cl_node c m)" using I(1) order n by auto
    have KK: "?K = (\<lambda>m. recover_md (sbv_metadata (cl_node c m)))" by (simp add: knowledge_def fun_eq_iff)
    show ?thesis using recover_node_eq [where nodes = "cl_node c" and ms = "order n", OF I(1) [OF n] s KK] top [OF n] pos
      by (simp add: sb_metadata_matches_def saved_with)
  qed
  have nd: "pending_step (fold update_md (?msgs n) (?K n)) \<noteq> SBV_DONE" if "n \<in> W" for n
    using K(2) order that by (intro update_not_done) auto
  have agr: "agreed W (md_version (?K d)) (md_next_version (?K d)) ?res" unfolding agreed_def
    using res top nd by (simp add: sb_metadata_matches_def)
  have less: "md_version (?K d) < md_next_version (?K d)" using K(1) [OF d(1)] v by auto
  have val: "md_version (?K d) = v \<or> md_version (?K d) = x \<and> all_written U c" using K(1) [OF d(1)] by auto
  have new: "md_version (?K d) = x" if "n \<in> W" "cl_stage c n = Barrier2 \<or> is_committed x (sbv_metadata (cl_node c n))" for n
    using K(3) [OF that(1)] that d(2) K(1) [OF d(1)] v by (auto simp: dominates_def)
  show ?thesis
    by (intro exI [of _ "md_version (?K d)"] exI [of _ "md_next_version (?K d)"] exI [of _ ?res] conjI agr less val)
      (use res new in blast)+
qed

section \<open>An execution\<close>

definition at :: "'a \<Rightarrow> 'a list \<Rightarrow> nat \<Rightarrow> 'a" where
  "at d xs n = (if n < length xs then xs ! n else d)"

lemma at_update: "n < length xs \<Longrightarrow> (at d xs)(n := y) = at d (xs[n := y])"
  by (auto simp: at_def fun_eq_iff)

definition example_cluster :: "sb_metadata list \<Rightarrow> stage list \<Rightarrow> nat set \<Rightarrow> adm_ret option list \<Rightarrow> cluster" where
  "example_cluster mds sts down sents = \<lparr> cl_node = at (with_metadata (initial_metadata True)) (map with_metadata mds),
     cl_stage = at Ready sts, cl_down = down, cl_sent = at None sents \<rparr>"

lemma example_advance:
  assumes "n \<in> U" "n \<notin> down" "n < length mds" "length sts = length mds" "length sents = length mds"
    and "barrier_allows U (example_cluster mds sts down sents) (sts ! n) b"
    and "sync_step True (\<lambda>_ _. EXA_SUCCESS) b (sts ! n) (with_metadata (mds ! n)) = Some (st, with_metadata md)"
    and "mds' = mds[n := md]" "sts' = sts[n := st]" "sents' = sents[n := sent_by st (sents ! n)]"
  shows "round_step U (example_cluster mds sts down sents) (example_cluster mds' sts' down sents')"
proof -
  let ?c = "example_cluster mds sts down sents"
  have c: "cl_node ?c n = with_metadata (mds ! n)" "cl_stage ?c n = sts ! n" "cl_sent ?c n = sents ! n" "cl_down ?c = down"
    using assms(3-5) by (simp_all add: example_cluster_def at_def)
  have "round_step U ?c (?c\<lparr> cl_node := (cl_node ?c)(n := with_metadata md), cl_stage := (cl_stage ?c)(n := st),
      cl_sent := (cl_sent ?c)(n := sent_by st (cl_sent ?c n)) \<rparr>)"
    by (rule round_step.advance) (use assms(1,2,6,7) c in simp_all)
  also have "\<dots> = example_cluster mds' sts' down sents'"
    unfolding c using assms(3-5,8-10) by (simp add: example_cluster_def at_update map_update)
  finally show ?thesis .
qed

lemma example_crash: "n \<in> U \<Longrightarrow> round_step U (example_cluster mds sts down sents) (example_cluster mds sts (insert n down) sents)"
  using round_step.crash [of n U "example_cluster mds sts down sents"] by (simp add: example_cluster_def)

lemma example_start: "start (at (with_metadata (initial_metadata True)) (map with_metadata mds)) = example_cluster mds [] {} []"
  by (simp add: start_def example_cluster_def at_def fun_eq_iff)

lemma example_pad:
  "example_cluster mds [] {} [] = example_cluster mds (replicate k Ready) {} (replicate k None)"
  by (simp add: example_cluster_def at_def fun_eq_iff)

definition ex_old :: sb_metadata where
  "ex_old = example_version 4 5 SBV_COMMITED 4"

definition ex_prepared :: sb_metadata where
  "ex_prepared = example_version 4 6 SBV_PREPARED 5"

definition ex_done :: sb_metadata where
  "ex_done = example_version 4 6 SBV_DONE 5"

definition ex_again :: sb_metadata where
  "ex_again = example_version 4 7 SBV_PREPARED 6"

lemmas ex_defs = ex_old_def ex_prepared_def ex_done_def ex_again_def example_version_def

lemma ex_saved [simp]: "saved (with_metadata ex_old)" "saved (with_metadata ex_prepared)" "saved (with_metadata ex_done)" "saved (with_metadata ex_again)"
  by (simp_all add: saved_with ex_defs)

lemma ex_ops [simp]: "prepare_md ex_old = ex_prepared" "done_md ex_prepared = ex_done" "prepare_md ex_prepared = ex_again"
  "md_next_version ex_old = 5" "md_next_version ex_prepared = 6" "md_version ex_old = 4" "md_version ex_prepared = 4"
  by (simp_all add: ex_defs prepare_md_def done_md_def)

text \<open>Three nodes prepare and write version 5. Node 0 notes that it is done and crashes; the others
  see the crash at the barrier and return.\<close>

lemma example_round1:
  "reach (round_init {0, 1, 2} 4 5) (round_step {0, 1, 2})
    (example_cluster [ex_done, ex_prepared, ex_prepared] [Barrier2, Returned ADMIND_ERR_NODE_DOWN, Returned ADMIND_ERR_NODE_DOWN]
      {0} (replicate 3 (Some EXA_SUCCESS)))"
proof -
  let ?U = "{0, 1, 2} :: nat set" and ?R = Ready and ?W = "Writing 4 5" and ?B = "Barrier1 EXA_SUCCESS" and ?S = "Some EXA_SUCCESS"
  let ?F = "Returned ADMIND_ERR_NODE_DOWN" and ?o = ex_old and ?p = ex_prepared
  let ?r = "\<lambda>m s d t. reach (round_init ?U 4 5) (round_step ?U) (example_cluster m s d t)"
  have "agreed ?U 4 5 (at (with_metadata (initial_metadata True)) (map with_metadata [?o, ?o, ?o]))"
    by (simp add: agreed_def at_def) (simp add: ex_defs)
  then have "?r [?o, ?o, ?o] [] {} []"
    by (intro reach.reach_init) (auto simp: round_init_def example_start [symmetric])
  then have "?r [?o, ?o, ?o] [?R, ?R, ?R] {} [None, None, None]" using example_pad [of "[?o, ?o, ?o]" 3] by (simp add: numeral_3_eq_3)
  then have "?r [?p, ?o, ?o] [?W, ?R, ?R] {} [None, None, None]"
    by (rule reach.reach_step) (rule example_advance [of 0 _ _ _ _ _ EXA_SUCCESS ?W ?p], simp_all add: prepare_eq sb_version_get_version_def barrier_allows_def sent_by_def)
  then have "?r [?p, ?p, ?o] [?W, ?W, ?R] {} [None, None, None]"
    by (rule reach.reach_step) (rule example_advance [of 1 _ _ _ _ _ EXA_SUCCESS ?W ?p], simp_all add: prepare_eq sb_version_get_version_def barrier_allows_def sent_by_def)
  then have "?r [?p, ?p, ?p] [?W, ?W, ?W] {} [None, None, None]"
    by (rule reach.reach_step) (rule example_advance [of 2 _ _ _ _ _ EXA_SUCCESS ?W ?p], simp_all add: prepare_eq sb_version_get_version_def barrier_allows_def sent_by_def)
  then have "?r [?p, ?p, ?p] [?B, ?W, ?W] {} [?S, None, None]"
    by (rule reach.reach_step) (rule example_advance [of 0 _ _ _ _ _ EXA_SUCCESS ?B ?p], simp_all add: write_superblocks_def barrier_allows_def sent_by_def)
  then have "?r [?p, ?p, ?p] [?B, ?B, ?W] {} [?S, ?S, None]"
    by (rule reach.reach_step) (rule example_advance [of 1 _ _ _ _ _ EXA_SUCCESS ?B ?p], simp_all add: write_superblocks_def barrier_allows_def sent_by_def)
  then have "?r [?p, ?p, ?p] [?B, ?B, ?B] {} [?S, ?S, ?S]"
    by (rule reach.reach_step) (rule example_advance [of 2 _ _ _ _ _ EXA_SUCCESS ?B ?p], simp_all add: write_superblocks_def barrier_allows_def sent_by_def)
  then have "?r [ex_done, ?p, ?p] [Barrier2, ?B, ?B] {} [?S, ?S, ?S]"
    by (rule reach.reach_step) (rule example_advance [of 0 _ _ _ _ _ EXA_SUCCESS Barrier2 ex_done],
      simp_all add: done_eq barrier_allows_def barrier_result_def example_cluster_def at_def sent_by_def)
  then have "?r [ex_done, ?p, ?p] [Barrier2, ?B, ?B] {0} [?S, ?S, ?S]"
    by (rule reach.reach_step) (rule example_crash, simp)
  then have "?r [ex_done, ?p, ?p] [Barrier2, ?F, ?B] {0} [?S, ?S, ?S]"
    by (rule reach.reach_step) (rule example_advance [of 1 _ _ _ _ _ ADMIND_ERR_NODE_DOWN ?F ?p],
      simp_all add: barrier_allows_def barrier_result_def example_cluster_def sent_by_def)
  then have "?r [ex_done, ?p, ?p] [Barrier2, ?F, ?F] {0} [?S, ?S, ?S]"
    by (rule reach.reach_step) (rule example_advance [of 2 _ _ _ _ _ ADMIND_ERR_NODE_DOWN ?F ?p],
      simp_all add: barrier_allows_def barrier_result_def example_cluster_def sent_by_def)
  then show ?thesis by (simp add: numeral_3_eq_3)
qed

theorem version_round_recovery_witness:
  "\<exists>y res. (\<forall>n \<in> {0, 1, 2}. recover_node (\<lambda>_. []) [2, 0, 1] (cl_node (example_cluster [ex_done, ex_prepared, ex_prepared]
       [Barrier2, Returned ADMIND_ERR_NODE_DOWN, Returned ADMIND_ERR_NODE_DOWN] {0} (replicate 3 (Some EXA_SUCCESS)))) n = Some (res n)) \<and>
     agreed {0, 1, 2} 5 y res"
proof -
  let ?c = "example_cluster [ex_done, ex_prepared, ex_prepared]
    [Barrier2, Returned ADMIND_ERR_NODE_DOWN, Returned ADMIND_ERR_NODE_DOWN] {0} (replicate 3 (Some EXA_SUCCESS))"
  have "cl_stage ?c 0 = Barrier2" by (simp add: example_cluster_def at_def)
  then have "\<exists>n \<in> {0, 1, 2}. cl_stage ?c n = Barrier2 \<or> is_committed 5 (sbv_metadata (cl_node ?c n))" by blast
  moreover have "\<forall>n \<in> {0, 1, 2 :: nat}. set [2, 0, 1 :: nat] = {0, 1, 2}" by auto
  ultimately show ?thesis
    using version_round_recovery [OF example_round1, of "{0, 1, 2}" "\<lambda>_. [2, 0, 1]" "\<lambda>_. []"] by auto
qed

text \<open>Nodes 1 and 2 go on without node 0 and prepare version 6, but crash before it is written.\<close>

definition ex_nodes :: "nat \<Rightarrow> sb_version" where
  "ex_nodes = at (with_metadata (initial_metadata True)) (map with_metadata [ex_done, ex_prepared, ex_prepared])"

lemma example_round2:
  "(round_step {1, 2})\<^sup>*\<^sup>* (start ex_nodes)
    (example_cluster [ex_done, ex_again, ex_again] [Ready, Writing 4 6, Writing 4 6] {1, 2} [None, None, None])"
proof -
  let ?U = "{1, 2} :: nat set" and ?R = Ready and ?W = "Writing 4 6" and ?p = ex_prepared and ?a = ex_again
  let ?r = "\<lambda>m s d. (round_step ?U)\<^sup>*\<^sup>* (start ex_nodes) (example_cluster (ex_done # m) s d [None, None, None])"
  have "?r [?p, ?p] [?R, ?R, ?R] {}"
    using example_pad [of "[ex_done, ?p, ?p]" 3] by (simp add: ex_nodes_def example_start numeral_3_eq_3 del: list.map)
  then have "?r [?a, ?p] [?R, ?W, ?R] {}"
    by (rule rtranclp.rtrancl_into_rtrancl) (rule example_advance [of 1 _ _ _ _ _ EXA_SUCCESS ?W ?a],
      simp_all add: prepare_eq sb_version_get_version_def barrier_allows_def sent_by_def)
  then have "?r [?a, ?a] [?R, ?W, ?W] {}"
    by (rule rtranclp.rtrancl_into_rtrancl) (rule example_advance [of 2 _ _ _ _ _ EXA_SUCCESS ?W ?a],
      simp_all add: prepare_eq sb_version_get_version_def barrier_allows_def sent_by_def)
  then have "?r [?a, ?a] [?R, ?W, ?W] {2}"
    by (rule rtranclp.rtrancl_into_rtrancl) (rule example_crash, simp)
  then show ?thesis
    by (rule rtranclp.rtrancl_into_rtrancl) (rule example_crash, simp)
qed

text \<open>Recovery of nodes that are written out.\<close>

lemma example_recover:
  assumes "n < length mds" "\<forall>m \<in> set ms. m < length mds" "\<forall>md \<in> set mds. saved (with_metadata md)"
    and "md = fold update_md (map (\<lambda>m. recover_md (mds ! m)) ms) (recover_md (mds ! n))" "md_version md > 0"
  shows "recover_node pads ms (at (with_metadata (initial_metadata True)) (map with_metadata mds)) n = Some (with_metadata md)"
proof -
  let ?nodes = "at (with_metadata (initial_metadata True)) (map with_metadata mds)"
  have node: "?nodes m = with_metadata (mds ! m)" if "m < length mds" for m using that by (simp add: at_def)
  have s: "saved (?nodes n)" "\<forall>m \<in> set ms. saved (?nodes m)" using assms(1-3) node by simp_all
  have M: "map (\<lambda>m. recover_md (sbv_metadata (?nodes m))) ms = map (\<lambda>m. recover_md (mds ! m)) ms"
    using assms(2) node by simp
  show ?thesis using recover_node_eq(1) [OF s refl, of pads] assms(4,5) unfolding M node [OF assms(1)] by simp
qed

text \<open>C0: two interrupted writes can leave the nodes with different versions. From agreement on
  version 4, all three nodes write version 5, but only node 0 notes that it is done before it
  crashes. Nodes 1 and 2 recover, agree on version 4 and prepare version 6; then they crash too.
  When all three come back the exchange leaves node 0 with version 5 and the others with version 4:
  each side takes the other for outdated, because one has the higher version and the other the
  higher next version.\<close>

theorem version_divergence:
  "\<exists>c c'. reach (round_init {0, 1, 2} 4 5) (round_step {0, 1, 2}) c \<and>
     (\<forall>n \<in> {1, 2}. recover_node (\<lambda>_. []) [1, 2] (cl_node c) n = Some (cl_node c n)) \<and>
     agreed {1, 2} 4 6 (cl_node c) \<and> (round_step {1, 2})\<^sup>*\<^sup>* (start (cl_node c)) c' \<and>
     (\<exists>s0 s1 s2. recover_node (\<lambda>_. []) [0, 1, 2] (cl_node c') 0 = Some s0 \<and>
       recover_node (\<lambda>_. []) [0, 1, 2] (cl_node c') 1 = Some s1 \<and> recover_node (\<lambda>_. []) [0, 1, 2] (cl_node c') 2 = Some s2 \<and>
       sb_version_get_version s0 = 5 \<and> sb_version_get_version s1 = 4 \<and> sb_version_get_version s2 = 4)"
proof -
  let ?c = "example_cluster [ex_done, ex_prepared, ex_prepared] [Barrier2, Returned ADMIND_ERR_NODE_DOWN, Returned ADMIND_ERR_NODE_DOWN]
    {0} (replicate 3 (Some EXA_SUCCESS))"
  let ?c' = "example_cluster [ex_done, ex_again, ex_again] [Ready, Writing 4 6, Writing 4 6] {1, 2} [None, None, None]"
  have c: "cl_node ?c = ex_nodes" by (simp add: example_cluster_def ex_nodes_def)
  have n: "ex_nodes 1 = with_metadata ex_prepared" "ex_nodes 2 = with_metadata ex_prepared" by (simp_all add: ex_nodes_def at_def)
  have r1: "\<forall>n \<in> {1, 2}. recover_node (\<lambda>_. []) [1, 2] ex_nodes n = Some (ex_nodes n)"
    unfolding ex_nodes_def ball_simps by (intro conjI TrueI; subst example_recover [where md = ex_prepared];
      simp add: at_def; simp add: ex_defs recover_md_def update_md_def)
  have a1: "agreed {1, 2} 4 6 ex_nodes" using n by (simp add: agreed_def) (simp add: ex_defs)
  have c': "cl_node ?c' = at (with_metadata (initial_metadata True)) (map with_metadata [ex_done, ex_again, ex_again])"
    by (simp add: example_cluster_def)
  have r20: "recover_node (\<lambda>_. []) [0, 1, 2] (cl_node ?c') 0 = Some (with_metadata (commit_md ex_done))"
    unfolding c' by (rule example_recover, simp_all, simp_all add: ex_defs recover_md_def commit_md_def update_md_def)
  have r21: "recover_node (\<lambda>_. []) [0, 1, 2] (cl_node ?c') 1 = Some (with_metadata (ex_again))"
    unfolding c' by (rule example_recover, simp_all, simp_all add: ex_defs recover_md_def commit_md_def update_md_def)
  have r22: "recover_node (\<lambda>_. []) [0, 1, 2] (cl_node ?c') 2 = Some (with_metadata (ex_again))"
    unfolding c' by (rule example_recover, simp_all, simp_all add: ex_defs recover_md_def commit_md_def update_md_def)
  have v: "sb_version_get_version (with_metadata (commit_md ex_done)) = 5" "sb_version_get_version (with_metadata ex_again) = 4"
    by (simp_all add: sb_version_get_version_def commit_md_def ex_defs)
  show ?thesis
    by (rule exI [of _ ?c], rule exI [of _ ?c'], unfold c, intro conjI, rule example_round1, rule r1, rule a1, rule example_round2,
      intro exI conjI, rule r20, rule r21, rule r22, rule v(1), rule v(2), rule v(2))
qed

end
