(* ===== verification/Spec2Isabelle.thy ===== *)
theory Spec2Isabelle
  imports Exa_Prelude Exa_Checksum Exa_Nodeset Exa_Uuid Sup_View Sup_Cluster Sup_Clique Sup_Daemon
    Sup_Agreement Sup_Loop Sup_Failures Vrt_Stream Vrt_Stream_Store Vrt_Flat Vrt_Extent Vrt_Prediction
    Vrt_Chunk Vrt_Spof Vrt_Storage Vrt_Pool Vrt_Slot Vrt_Assembly
    Vrt_Assembly_Store Bdev_Stream Vrt_Superblock Vrt_Superblock_Protocol Exa_Text Sb_Version
    Sb_Version_Cluster
begin

text \<open>
  A verification development of Exanodes, a clustered storage system: nodes supervise each
  other, agree on the membership of the cluster, and share their disks as virtual volumes.

  \<^bold>\<open>Cluster supervision\<close> (\<open>csupd/\<close>). Every node runs a daemon that multicasts pings with its
  view of the cluster, computes the clique it belongs to, agrees on it with the other members
  under a coordinator, and hands the agreed membership to the event manager.
\<close>

section \<open>Superblocks on a cached device\<close>

text \<open>The places of position \<open>q\<close>: its header and its data area.\<close>

definition in_position :: "nat \<Rightarrow> nat \<Rightarrow> nat \<Rightarrow> bool" where
  "in_position q ofs n \<longleftrightarrow>
     q * header_size \<le> ofs \<and> ofs + n \<le> q * header_size + header_size \<or>
     sb_start q \<le> ofs \<and> ofs + n \<le> sb_start q + per_sb_data_size"

lemma holds_elsewhere:
  assumes old: "holds c p v d" and p: "p < 2" and q: "q < 2" "q \<noteq> p" and c: "sb_area_bytes \<le> length c"
    and w: "in_position q ofs (length b)"
  shows "holds (overwrite c ofs b) p v d" and "length (overwrite c ofs b) = length c"
proof -
  have d: "length d \<le> per_sb_data_size" using old by (simp add: holds_def)
  have fits: "ofs + length b \<le> length c"
    using w q(1) c by (auto simp: in_position_def header_size_def sb_start_eq per_sb_data_size_eq sb_area_bytes_def less_2_cases_iff)
  then show "length (overwrite c ofs b) = length c" by simp
  have "header_at (overwrite c ofs b) p = header_at c p" unfolding header_at_def
    by (subst slice_overwrite [OF fits])
       (use w p q in \<open>auto simp: in_position_def header_size_def sb_start_eq per_sb_data_size_eq less_2_cases_iff\<close>)
  moreover have "take (length d) (drop (sb_start p) (overwrite c ofs b)) = take (length d) (drop (sb_start p) c)"
    by (rule slice_overwrite [OF fits])
       (use w p q d in \<open>auto simp: in_position_def header_size_def sb_start_eq per_sb_data_size_eq less_2_cases_iff\<close>)
  ultimately show "holds (overwrite c ofs b) p v d" using old by (simp add: holds_def)
qed

lemma holds_written_array:
  assumes old: "holds c p v d" and p: "p < 2" and q: "q < 2" "q \<noteq> p" and c: "sb_area_bytes \<le> length c"
    and ops: "\<forall>(ofs, b) \<in> set ops. in_position q ofs (length b)"
  shows "holds (written_array c ops) p v d \<and> length (written_array c ops) = length c"
  using ops
proof (induction ops rule: rev_induct)
  case Nil
  then show ?case using old by simp
next
  case (snoc op ops)
  obtain ofs b where op: "op = (ofs, b)" by (cases op)
  have IH: "holds (written_array c ops) p v d" "length (written_array c ops) = length c" using snoc by auto
  have "sb_area_bytes \<le> length (written_array c ops)" "in_position q ofs (length b)" using c IH(2) snoc.prems op by simp_all
  from holds_elsewhere [OF IH(1) p q this] IH(2) op show ?case by simp
qed


text \<open>A device that was formatted and given a first version.\<close>

lemma example_version_held: "\<exists>c. length c = 33554432 \<and> holds c 0 1 [1, 2, 3]"
proof -
  have fits: "length (concat [[1, 2, 3 :: byte]]) \<le> per_sb_data_size" by (simp add: per_sb_data_size_eq)
  obtain rdev where "sb_ok rdev" "holds (area rdev) 0 1 (concat [[1, 2, 3]])"
    using first_version_ok [OF blank_device_ok fits, of 1] by blast
  then have r: "sb_area_bytes \<le> length (area rdev)" "holds (area rdev) 0 1 [1, 2, 3]" by (simp_all add: sb_ok_def)
  have "holds (take 33554432 (area rdev)) 0 1 [1, 2, 3]"
    using r by (simp add: holds_def header_at_def header_size_def sb_start_eq drop_take sb_area_bytes_def)
  moreover have "length (take 33554432 (area rdev)) = 33554432" using r(1) by (simp add: sb_area_bytes_def)
  ultimately show ?thesis by blast
qed

definition cached_disk :: "byte list \<Rightarrow> byte list bdev_stream" where
  "cached_disk c = \<lparr> bs_bdev = blockdevice_open c disk_sectors disk_submit BLOCKDEVICE_ACCESS_RW,
     bs_offset = 0, bs_cache = \<lparr> cache_buffer = replicate 512 0, cache_size = 512, cache_first_sector = 0,
       cache_valid = False, cache_dirty = False \<rparr> \<rparr>"

lemma cached_disk_ok:
  assumes "length c = 33554432"
  shows "on_provider disk_sectors disk_submit (cached_disk c)" "cache_ok disk_bytes (cached_disk c)"
    "device disk_bytes (cached_disk c) = c" "stream_view disk_bytes (cached_disk c) = c"
    "\<exists>ctx'. run_writes (cached_disk c) [(16777272, [9, 8])] = Some (Inr (), ctx')"
proof -
  show "on_provider disk_sectors disk_submit (cached_disk c)" "cache_ok disk_bytes (cached_disk c)"
    "device disk_bytes (cached_disk c) = c" "stream_view disk_bytes (cached_disk c) = c"
    using assms by (simp_all add: cached_disk_def on_provider_def blockdevice_open_def cache_ok_def device_def
        stream_view_def disk_bytes_def disk_sectors_def SECTOR_SIZE_def)
  show "\<exists>ctx'. run_writes (cached_disk c) [(16777272, [9, 8])] = Some (Inr (), ctx')"
    using assms by (simp add: bdev_stream_defs cached_disk_def)
qed


end
